(* ===== verification/Kprelude.thy ===== *)
theory Kprelude
  imports Main "HOL-Library.Word"
begin

unbundle bit_operations_syntax

section \<open>Shared types, results and generic lemmas\<close>

text \<open>
  What every component of the development uses: the integer types of
  \<^verbatim>\<open>kernel/types.h\<close>, the result type of a kernel function (a value, a call of
  \<^verbatim>\<open>panic\<close>, or a suspension in \<^verbatim>\<open>sleep\<close>), the little-endian encoding of
  integers in byte sequences, and generic facts on words, lists and options.
\<close>

subsection \<open>Integer types\<close>

type_synonym uint8 = "8 word"
type_synonym uint16 = "16 word"
type_synonym uint32 = "32 word"
type_synonym uint64 = "64 word"

subsection \<open>Results of kernel functions\<close>

text \<open>
  A wait channel is the address of some kernel object: \<open>Chan k i\<close> stands for the
  address of the \<open>i\<close>-th object of kind \<open>k\<close>.  Only equality of channels matters.
\<close>

datatype chan = Chan string nat

text \<open>
  \<open>Ok x\<close>: the function returns \<open>x\<close>.  \<open>Panic msg\<close>: it reaches
  \<^verbatim>\<open>panic(msg)\<close>, which never returns.  \<open>Block c\<close>: it reaches
  \<^verbatim>\<open>sleep(c, \<dots>)\<close> in a state in which it cannot go on by itself.
  \<open>Loop\<close>: it runs forever.  \<open>Undef\<close>: it indexes an array out of its bounds or overflows a signed integer, which
  C leaves undefined.
\<close>

datatype 'a res = Ok 'a | Panic string | Block chan | Loop | Undef

fun bindR :: "'a res \<Rightarrow> ('a \<Rightarrow> 'b res) \<Rightarrow> 'b res" where
  "bindR (Ok x) f = f x"
| "bindR (Panic e) f = Panic e"
| "bindR (Block c) f = Block c"
| "bindR Loop f = Loop"
| "bindR Undef f = Undef"

lemma bindR_cong [fundef_cong]:
  "m = m' \<Longrightarrow> (\<And>x. m' = Ok x \<Longrightarrow> f x = f' x) \<Longrightarrow> bindR m f = bindR m' f'"
  by (cases m') auto

lemma bindR_eq_Ok [simp]: "bindR m f = Ok y \<longleftrightarrow> (\<exists>x. m = Ok x \<and> f x = Ok y)"
  by (cases m) auto

lemma bindR_assoc: "bindR (bindR m f) g = bindR m (\<lambda>x. bindR (f x) g)"
  by (cases m) auto

lemma bindR_Ok_right [simp]: "bindR m Ok = m"
  by (cases m) auto

text \<open>The result satisfies \<open>P\<close>, and there is one: total correctness of one call.\<close>

definition okR :: "'a res \<Rightarrow> ('a \<Rightarrow> bool) \<Rightarrow> bool" where
  "okR m P \<longleftrightarrow> (\<exists>x. m = Ok x \<and> P x)"

lemma okR_Ok [simp]: "okR (Ok x) P = P x"
  by (simp add: okR_def)

lemma okR_Panic [simp]: "\<not> okR (Panic e) P"
  by (simp add: okR_def)

lemma okR_Block [simp]: "\<not> okR (Block c) P" "\<not> okR Loop P" "\<not> okR Undef P"
  by (simp_all add: okR_def)

lemma okR_bind [simp]: "okR (bindR m f) P = okR m (\<lambda>x. okR (f x) P)"
  by (cases m) (auto simp: okR_def)

lemma okR_mono: "okR m P \<Longrightarrow> (\<And>x. P x \<Longrightarrow> Q x) \<Longrightarrow> okR m Q"
  by (auto simp: okR_def)

text \<open>
  A counted loop \<^verbatim>\<open>for(i = a; i < a + n; i++) f(i)\<close>, and one whose body may
  return from the function: \<open>Some r\<close> in the result is the value returned.
\<close>

fun foreach :: "(nat \<Rightarrow> 's \<Rightarrow> 's res) \<Rightarrow> nat \<Rightarrow> nat \<Rightarrow> 's \<Rightarrow> 's res" where
  "foreach f i 0 s = Ok s"
| "foreach f i (Suc n) s = bindR (f i s) (foreach f (Suc i) n)"

fun foreach_ret ::
  "(nat \<Rightarrow> 's \<Rightarrow> ('r option \<times> 's) res) \<Rightarrow> nat \<Rightarrow> nat \<Rightarrow> 's \<Rightarrow> ('r option \<times> 's) res" where
  "foreach_ret f i 0 s = Ok (None, s)"
| "foreach_ret f i (Suc n) s =
     bindR (f i s) (\<lambda>(r, s). case r of Some x \<Rightarrow> Ok (Some x, s) | None \<Rightarrow> foreach_ret f (Suc i) n s)"

lemma foreach_invar:
  assumes "\<And>i s. a \<le> i \<Longrightarrow> i < a + n \<Longrightarrow> I i s \<Longrightarrow> okR (f i s) (I (Suc i))" "I a s"
  shows "okR (foreach f a n s) (I (a + n))"
  using assms
proof (induction n arbitrary: a s)
  case 0
  then show ?case by simp
next
  case (Suc n)
  have "okR (f a s) (I (Suc a))" using Suc.prems by simp
  then obtain t where t: "f a s = Ok t" "I (Suc a) t" by (auto simp: okR_def)
  have "okR (foreach f (Suc a) n t) (I (Suc a + n))"
    by (rule Suc.IH) (use Suc.prems(1) t(2) in auto)
  then show ?case using t(1) by simp
qed

text \<open>The first index of a range that satisfies a predicate: the specification of a table scan.\<close>

fun find_from :: "('a \<Rightarrow> bool) \<Rightarrow> 'a list \<Rightarrow> nat \<Rightarrow> nat \<Rightarrow> nat option" where
  "find_from P xs i 0 = None"
| "find_from P xs i (Suc n) = (if P (xs ! i) then Some i else find_from P xs (Suc i) n)"

lemma find_from_Some:
  "find_from P xs i n = Some j \<longleftrightarrow>
     i \<le> j \<and> j < i + n \<and> P (xs ! j) \<and> (\<forall>k. i \<le> k \<longrightarrow> k < j \<longrightarrow> \<not> P (xs ! k))"
proof (induction n arbitrary: i)
  case (Suc n)
  show ?case
  proof (cases "P (xs ! i)")
    case True
    then show ?thesis by (auto simp: not_less_eq_eq)
  next
    case False
    then show ?thesis using Suc.IH [of "Suc i"]
      by (auto simp: Suc_le_eq) (metis le_neq_implies_less)+
  qed
qed auto

lemma find_from_None:
  "find_from P xs i n = None \<longleftrightarrow> (\<forall>k. i \<le> k \<longrightarrow> k < i + n \<longrightarrow> \<not> P (xs ! k))"
proof (induction n arbitrary: i)
  case (Suc n)
  show ?case using Suc.IH [of "Suc i"] by (auto simp: Suc_le_eq) (metis le_neq_implies_less)
qed auto

subsection \<open>Little-endian byte sequences\<close>

text \<open>
  The machine is little endian: \<open>le_cat bs\<close> is the integer stored in the bytes
  \<open>bs\<close>, \<open>le_bytes n w\<close> the first \<open>n\<close> bytes of \<open>w\<close>.
\<close>

fun le_cat :: "uint8 list \<Rightarrow> 'a::len word" where
  "le_cat [] = 0"
| "le_cat (b # bs) = ucast b OR push_bit 8 (le_cat bs)"

fun le_bytes :: "nat \<Rightarrow> 'a::len word \<Rightarrow> uint8 list" where
  "le_bytes 0 w = []"
| "le_bytes (Suc n) w = ucast w # le_bytes n (drop_bit 8 w)"

lemma length_le_bytes [simp]: "length (le_bytes n w) = n"
  by (induction n w rule: le_bytes.induct) auto

lemma le_cat_le_bytes_take: "le_cat (le_bytes n w) = take_bit (8 * n) (w :: 'a::len word)"
proof (induction n w rule: le_bytes.induct)
  case (1 w)
  then show ?case by simp
next
  case (2 n w)
  show ?case
    unfolding le_bytes.simps le_cat.simps 2
    by (rule bit_eqI) (auto simp: bit_simps not_less dest: bit_imp_le_length)
qed

lemma le_cat_le_bytes: "LENGTH('a) \<le> 8 * n \<Longrightarrow> le_cat (le_bytes n w) = (w :: 'a::len word)"
  by (simp add: le_cat_le_bytes_take take_bit_word_eq_self)

lemma le_cat_le_bytes64 [simp]: "le_cat (le_bytes 8 w) = (w :: 64 word)"
  by (rule le_cat_le_bytes) simp

lemma le_cat_le_bytes32 [simp]: "le_cat (le_bytes 4 w) = (w :: 32 word)"
  by (rule le_cat_le_bytes) simp

lemma le_cat_le_bytes16 [simp]: "le_cat (le_bytes 2 w) = (w :: 16 word)"
  by (rule le_cat_le_bytes) simp

lemma le_cat_zeros [simp]: "le_cat (replicate n 0) = 0"
  by (induction n) auto

text \<open>Integers inside a byte sequence, at a byte offset.\<close>

definition get_at :: "nat \<Rightarrow> nat \<Rightarrow> 'b list \<Rightarrow> 'b list" where
  "get_at off n bs = take n (drop off bs)"

definition put_at :: "nat \<Rightarrow> 'b list \<Rightarrow> 'b list \<Rightarrow> 'b list" where
  "put_at off xs bs = take off bs @ xs @ drop (off + length xs) bs"

definition get16 :: "nat \<Rightarrow> uint8 list \<Rightarrow> uint16" where
  "get16 off bs = le_cat (get_at off 2 bs)"

definition get32 :: "nat \<Rightarrow> uint8 list \<Rightarrow> uint32" where
  "get32 off bs = le_cat (get_at off 4 bs)"

definition get64 :: "nat \<Rightarrow> uint8 list \<Rightarrow> uint64" where
  "get64 off bs = le_cat (get_at off 8 bs)"

definition put16 :: "nat \<Rightarrow> uint16 \<Rightarrow> uint8 list \<Rightarrow> uint8 list" where
  "put16 off w bs = put_at off (le_bytes 2 w) bs"

definition put32 :: "nat \<Rightarrow> uint32 \<Rightarrow> uint8 list \<Rightarrow> uint8 list" where
  "put32 off w bs = put_at off (le_bytes 4 w) bs"

lemma length_put_at [simp]: "off + length xs \<le> length bs \<Longrightarrow> length (put_at off xs bs) = length bs"
  by (simp add: put_at_def)

lemma length_get_at [simp]: "off + n \<le> length bs \<Longrightarrow> length (get_at off n bs) = n"
  by (simp add: get_at_def)

lemma nth_put_at:
  "off + length xs \<le> length bs \<Longrightarrow> i < length bs \<Longrightarrow>
   put_at off xs bs ! i = (if off \<le> i \<and> i < off + length xs then xs ! (i - off) else bs ! i)"
  by (auto simp: put_at_def nth_append)

lemma nth_get_at: "off + n \<le> length bs \<Longrightarrow> i < n \<Longrightarrow> get_at off n bs ! i = bs ! (off + i)"
  by (simp add: get_at_def)

lemma get_put_same [simp]:
  "off + n \<le> length bs \<Longrightarrow> length xs = n \<Longrightarrow> get_at off n (put_at off xs bs) = xs"
  by (simp add: get_at_def put_at_def)

lemma get_put_other:
  assumes "off + length xs \<le> length bs" "k + n \<le> length bs" "k + n \<le> off \<or> off + length xs \<le> k"
  shows "get_at k n (put_at off xs bs) = get_at k n bs"
  using assms by (intro nth_equalityI) (auto simp: nth_get_at nth_put_at)

lemma get32_put32 [simp]: "off + 4 \<le> length bs \<Longrightarrow> get32 off (put32 off w bs) = w"
  by (simp add: get32_def put32_def)

lemma get16_put16 [simp]: "off + 2 \<le> length bs \<Longrightarrow> get16 off (put16 off w bs) = w"
  by (simp add: get16_def put16_def)

lemma length_put32 [simp]: "off + 4 \<le> length bs \<Longrightarrow> length (put32 off w bs) = length bs"
  by (simp add: put32_def)

lemma length_put16 [simp]: "off + 2 \<le> length bs \<Longrightarrow> length (put16 off w bs) = length bs"
  by (simp add: put16_def)

lemma get32_put32_other:
  "off + 4 \<le> length bs \<Longrightarrow> k + 4 \<le> length bs \<Longrightarrow> k + 4 \<le> off \<or> off + 4 \<le> k \<Longrightarrow>
   get32 k (put32 off w bs) = get32 k bs"
  by (simp add: get32_def put32_def get_put_other)

subsection \<open>Words\<close>

lemma unat_sub_one: "x \<noteq> 0 \<Longrightarrow> unat (x - 1 :: 'a::len word) = unat x - 1"
  by (metis One_nat_def unat_minus_one)

lemma bit_less_pow2: "x < 2 ^ n \<Longrightarrow> bit (x :: 'a::len word) k \<Longrightarrow> k < n"
  by (metis less_mask_eq bit_and_iff bit_mask_iff)

lemma unat_ucast_up:
  "LENGTH('a) \<le> LENGTH('b) \<Longrightarrow> unat (ucast (x :: 'a::len word) :: 'b::len word) = unat x"
  unfolding unsigned_ucast_eq
  by (rule take_bit_nat_eq_self) (rule less_le_trans [OF unsigned_less], simp)

lemma unat_ucast_32_64 [simp]: "unat (ucast (x :: 32 word) :: 64 word) = unat x"
  by (rule unat_ucast_up) simp

lemma unat_of_nat_64: "n < 2 ^ 64 \<Longrightarrow> unat (of_nat n :: 64 word) = n"
  by (simp add: unat_of_nat)

end
