(* ===== verification/Riscv.thy ===== *)
theory Riscv
  imports Kprelude
begin

section \<open>Page and address arithmetic: \<^verbatim>\<open>riscv.h\<close>, \<^verbatim>\<open>memlayout.h\<close>\<close>

text \<open>
  The macros of \<^verbatim>\<open>kernel/riscv.h\<close> and \<^verbatim>\<open>kernel/memlayout.h\<close> on 64-bit words:
  page rounding, page-table entries, the three page-table indices of an Sv39 virtual
  address, and the fixed addresses of the memory map.  The lemmas say what the macros
  compute on numbers, that a page-table entry gives back the address and the flags it
  was made from, and that the three indices determine a page.
\<close>

subsection \<open>Constants\<close>

abbreviation (input) PGSIZE :: uint64 where "PGSIZE \<equiv> 4096"
abbreviation (input) PGSHIFT :: nat where "PGSHIFT \<equiv> 12"

abbreviation (input) PTE_V :: uint64 where "PTE_V \<equiv> 1"
abbreviation (input) PTE_R :: uint64 where "PTE_R \<equiv> 2"
abbreviation (input) PTE_W :: uint64 where "PTE_W \<equiv> 4"
abbreviation (input) PTE_X :: uint64 where "PTE_X \<equiv> 8"
abbreviation (input) PTE_U :: uint64 where "PTE_U \<equiv> 16"

definition MAXVA :: uint64 where "MAXVA = push_bit (9 + 9 + 9 + 12 - 1) 1"

abbreviation (input) UART0 :: uint64 where "UART0 \<equiv> 0x10000000"
abbreviation (input) VIRTIO0 :: uint64 where "VIRTIO0 \<equiv> 0x10001000"
abbreviation (input) PLIC :: uint64 where "PLIC \<equiv> 0x0c000000"
abbreviation (input) KERNBASE :: uint64 where "KERNBASE \<equiv> 0x80000000"
definition PHYSTOP :: uint64 where "PHYSTOP = KERNBASE + 128 * 1024 * 1024"

definition TRAMPOLINE :: uint64 where "TRAMPOLINE = MAXVA - PGSIZE"
definition TRAPFRAME :: uint64 where "TRAPFRAME = TRAMPOLINE - PGSIZE"
definition KSTACK :: "nat \<Rightarrow> uint64" where
  "KSTACK p = TRAMPOLINE - (of_nat p + 1) * 2 * PGSIZE"

subsection \<open>Macros\<close>

definition PGROUNDUP :: "uint64 \<Rightarrow> uint64" where
  "PGROUNDUP sz = (sz + PGSIZE - 1) AND NOT (PGSIZE - 1)"

definition PGROUNDDOWN :: "uint64 \<Rightarrow> uint64" where
  "PGROUNDDOWN a = a AND NOT (PGSIZE - 1)"

definition PA2PTE :: "uint64 \<Rightarrow> uint64" where
  "PA2PTE pa = push_bit 10 (drop_bit 12 pa)"

definition PTE2PA :: "uint64 \<Rightarrow> uint64" where
  "PTE2PA pte = push_bit 12 (drop_bit 10 pte)"

definition PTE_FLAGS :: "uint64 \<Rightarrow> uint64" where
  "PTE_FLAGS pte = pte AND 0x3FF"

abbreviation (input) PXMASK :: uint64 where "PXMASK \<equiv> 0x1FF"

definition PXSHIFT :: "nat \<Rightarrow> nat" where
  "PXSHIFT level = PGSHIFT + 9 * level"

definition PX :: "nat \<Rightarrow> uint64 \<Rightarrow> uint64" where
  "PX level va = drop_bit (PXSHIFT level) va AND PXMASK"

definition MAKE_SATP :: "uint64 \<Rightarrow> uint64" where
  "MAKE_SATP pagetable = push_bit 60 8 OR drop_bit 12 pagetable"

lemma MAXVA_val [simp]: "MAXVA = 0x4000000000"
  by (simp add: MAXVA_def push_bit_eq_mult)

lemma PHYSTOP_val [simp]: "PHYSTOP = 0x88000000"
  by (simp add: PHYSTOP_def)

lemma TRAMPOLINE_val [simp]: "TRAMPOLINE = 0x3ffffff000"
  by (simp add: TRAMPOLINE_def)

lemma TRAPFRAME_val [simp]: "TRAPFRAME = 0x3fffffe000"
  by (simp add: TRAPFRAME_def)

subsection \<open>Page alignment\<close>

definition page_aligned :: "uint64 \<Rightarrow> bool" where
  "page_aligned a \<longleftrightarrow> a mod PGSIZE = 0"

lemma mask12: "(4095 :: uint64) = mask 12"
  by (simp add: mask_eq_exp_minus_1)

lemma mask10: "(0x3FF :: uint64) = mask 10"
  by (simp add: mask_eq_exp_minus_1)

lemma mask9: "(0x1FF :: uint64) = mask 9"
  by (simp add: mask_eq_exp_minus_1)

lemma page_aligned_iff_take_bit: "page_aligned a \<longleftrightarrow> take_bit 12 a = 0"
  by (simp add: page_aligned_def take_bit_eq_mod)

lemma page_aligned_unat: "page_aligned a \<longleftrightarrow> unat a mod 4096 = 0"
proof -
  have "unat (take_bit 12 a) = unat a mod 4096"
    by (simp add: take_bit_eq_mod unat_mod_distrib)
  then show ?thesis
    by (metis page_aligned_iff_take_bit unsigned_0 unsigned_word_eqI)
qed

lemma PGROUNDDOWN_bits: "PGROUNDDOWN a = push_bit 12 (drop_bit 12 a)"
  unfolding PGROUNDDOWN_def
  by (rule bit_eqI) (auto simp: bit_simps mask12)

lemma unat_PGROUNDDOWN: "unat (PGROUNDDOWN a) = unat a div 4096 * 4096"
proof -
  have "unat (PGROUNDDOWN a) = take_bit 64 (push_bit 12 (unat (drop_bit 12 a)))"
    by (simp add: PGROUNDDOWN_bits unsigned_push_bit_eq)
  also have "\<dots> = unat a div 4096 * 4096 mod 2 ^ 64"
    by (simp add: push_bit_eq_mult drop_bit_eq_div take_bit_eq_mod mult.commute unat_div_distrib)
  also have "\<dots> = unat a div 4096 * 4096"
  proof -
    have "unat a div 4096 * 4096 \<le> unat a" by simp
    also have "\<dots> < 2 ^ 64" using unsigned_less [of a] by simp
    finally show ?thesis by simp
  qed
  finally show ?thesis .
qed

lemma PGROUNDDOWN_aligned [simp]: "page_aligned (PGROUNDDOWN a)"
  by (simp add: page_aligned_unat unat_PGROUNDDOWN)

lemma PGROUNDDOWN_id: "page_aligned a \<Longrightarrow> PGROUNDDOWN a = a"
  by (metis mod_0_imp_dvd dvd_div_mult_self page_aligned_unat unat_PGROUNDDOWN unsigned_word_eqI)

lemma PGROUNDDOWN_le: "PGROUNDDOWN a \<le> a"
  by (simp add: word_le_nat_alt unat_PGROUNDDOWN)

lemma unat_PGROUNDUP:
  assumes "unat sz + 4095 < 2 ^ 64"
  shows "unat (PGROUNDUP sz) = (unat sz + 4095) div 4096 * 4096"
proof -
  have "PGROUNDUP sz = PGROUNDDOWN (sz + 4095)"
    by (simp add: PGROUNDUP_def PGROUNDDOWN_def add.commute)
  moreover have "unat (sz + 4095) = unat sz + 4095"
    using assms by (subst unat_add_lem [THEN iffD1]) simp_all
  ultimately show ?thesis by (simp add: unat_PGROUNDDOWN)
qed

lemma PGROUNDUP_aligned [simp]: "page_aligned (PGROUNDUP a)"
  using PGROUNDDOWN_aligned [of "a + PGSIZE - 1"]
  by (simp add: PGROUNDUP_def PGROUNDDOWN_def)

subsection \<open>Page-table entries\<close>

lemma bit_flag: "f < 1024 \<Longrightarrow> bit (f :: uint64) n \<Longrightarrow> n < 10"
  using bit_less_pow2 [of f 10 n] by simp

lemma PTE2PA_PA2PTE:
  assumes "page_aligned pa" "f < 1024"
  shows "PTE2PA (PA2PTE pa OR f) = pa"
proof (rule bit_eqI)
  fix n :: nat
  assume n: "possible_bit TYPE(uint64) n"
  have "\<not> bit pa n" if "n < 12"
    using assms(1) that by (metis bit_0_eq bit_take_bit_iff bot_apply bot_bool_def page_aligned_iff_take_bit)
  moreover have "\<not> bit f (n - 12 + 10)"
    using bit_flag [OF assms(2), of "n - 12 + 10"] by auto
  ultimately show "bit (PTE2PA (PA2PTE pa OR f)) n = bit pa n"
    using n by (cases "n < 12") (auto simp: PTE2PA_def PA2PTE_def bit_simps add.commute)
qed

lemma PTE_FLAGS_PA2PTE:
  assumes "f < 1024"
  shows "PTE_FLAGS (PA2PTE pa OR f) = f"
  unfolding PTE_FLAGS_def mask10
  by (rule bit_eqI) (auto simp: PA2PTE_def bit_simps dest: bit_flag [OF assms])

lemma PTE2PA_aligned [simp]: "page_aligned (PTE2PA pte)"
  unfolding page_aligned_iff_take_bit PTE2PA_def
  by (rule bit_eqI) (auto simp: bit_simps)

lemma pte_test_flag:
  assumes "f < 1024" "b < 1024"
  shows "(PA2PTE pa OR f) AND b = f AND b"
  by (rule bit_eqI) (auto simp: PA2PTE_def bit_simps dest: bit_flag [OF assms(2)])

lemma pte_valid:
  assumes "f < 1024"
  shows "((PA2PTE pa OR f) OR PTE_V) AND PTE_V \<noteq> 0"
proof -
  have "bit ((((PA2PTE pa OR f) OR PTE_V) AND PTE_V) :: uint64) 0"
    by (simp add: bit_simps)
  then show ?thesis by (metis bit_0_eq bot_apply bot_bool_def)
qed

subsection \<open>The three indices of a virtual address\<close>

lemma PX_less: "PX level va < 512"
proof -
  have "drop_bit (PXSHIFT level) va AND mask 9 < 2 ^ 9"
    by (rule and_mask_less') simp
  then show ?thesis by (simp add: PX_def mask9)
qed

lemma bit_PX: "bit (PX level va) n \<longleftrightarrow> n < 9 \<and> bit va (12 + 9 * level + n)"
  by (auto simp: PX_def mask9 PXSHIFT_def bit_simps add.commute)

lemma PX_inject:
  assumes "va < MAXVA" "vb < MAXVA" "page_aligned va" "page_aligned vb"
    and "PX 2 va = PX 2 vb" "PX 1 va = PX 1 vb" "PX 0 va = PX 0 vb"
  shows "va = vb"
proof (rule bit_eqI)
  fix n :: nat
  assume "possible_bit TYPE(uint64) n"
  have lo: "n < 12 \<Longrightarrow> \<not> bit va n \<and> \<not> bit vb n"
    using assms(3,4)
    by (metis bit_0_eq bit_take_bit_iff bot_apply bot_bool_def page_aligned_iff_take_bit)
  have hi: "bit va n \<or> bit vb n \<Longrightarrow> n < 38"
    using assms(1,2) bit_less_pow2 [of va 38 n] bit_less_pow2 [of vb 38 n] by auto
  have px: "bit va (12 + 9 * l + k) = bit vb (12 + 9 * l + k)" if "l < 3" "k < 9" for l k
  proof -
    have "PX l va = PX l vb"
      using assms(5-7) that(1) by (auto simp: numeral_3_eq_3 numeral_2_eq_2 less_Suc_eq)
    then have "bit (PX l va) k = bit (PX l vb) k" by simp
    then show ?thesis using that(2) by (simp add: bit_PX)
  qed
  consider "n < 12" | "12 \<le> n" "n < 39" | "39 \<le> n" by linarith
  then show "bit va n = bit vb n"
  proof cases
    case 2
    define l k where "l = (n - 12) div 9" and "k = (n - 12) mod 9"
    have "l < 3" "k < 9" "n = 12 + 9 * l + k"
      using 2 by (auto simp: l_def k_def)
    then show ?thesis using px by metis
  qed (use lo hi in auto)
qed

end
