(* ===== verification/Kstring.thy ===== *)
theory Kstring
  imports Kprelude
begin

section \<open>Byte memory and \<^verbatim>\<open>kernel/string.c\<close>\<close>

text \<open>
  Physical memory is a function from 64-bit addresses to bytes.  \<^verbatim>\<open>memset\<close>,
  \<^verbatim>\<open>memmove\<close> and \<^verbatim>\<open>memcmp\<close> work on it, because their callers pass
  addresses of physical pages that may overlap or alias.  The string functions are
  called on kernel buffers that do not overlap: a pointer argument of those is the list
  of bytes from the pointer to the end of its object, and a read past that end is
  \<open>None\<close>.  A counter that the source keeps in an \<^verbatim>\<open>int\<close> or
  \<^verbatim>\<open>uint\<close> is a natural number below that type's bound.
\<close>

type_synonym mem = "uint64 \<Rightarrow> uint8"

subsection \<open>Raw memory\<close>

fun memset_loop :: "mem \<Rightarrow> uint64 \<Rightarrow> uint32 \<Rightarrow> nat \<Rightarrow> uint64 \<Rightarrow> mem" where
  "memset_loop m cdst c 0 i = m"
| "memset_loop m cdst c (Suc n) i = memset_loop (m(cdst + i := ucast c)) cdst c n (i + 1)"

definition memset :: "mem \<Rightarrow> uint64 \<Rightarrow> uint32 \<Rightarrow> uint32 \<Rightarrow> mem" where
  "memset m dst c n = memset_loop m dst c (unat n) 0"

fun memcmp_loop :: "mem \<Rightarrow> uint64 \<Rightarrow> uint64 \<Rightarrow> nat \<Rightarrow> int" where
  "memcmp_loop m s1 s2 0 = 0"
| "memcmp_loop m s1 s2 (Suc n) =
     (if m s1 \<noteq> m s2 then uint (m s1) - uint (m s2)
      else memcmp_loop m (s1 + 1) (s2 + 1) n)"

definition memcmp :: "mem \<Rightarrow> uint64 \<Rightarrow> uint64 \<Rightarrow> uint32 \<Rightarrow> int" where
  "memcmp m v1 v2 n = memcmp_loop m v1 v2 (unat n)"

fun copy_down :: "mem \<Rightarrow> uint64 \<Rightarrow> uint64 \<Rightarrow> nat \<Rightarrow> mem" where
  "copy_down m d s 0 = m"
| "copy_down m d s (Suc n) = copy_down (m(d - 1 := m (s - 1))) (d - 1) (s - 1) n"

fun copy_up :: "mem \<Rightarrow> uint64 \<Rightarrow> uint64 \<Rightarrow> nat \<Rightarrow> mem" where
  "copy_up m d s 0 = m"
| "copy_up m d s (Suc n) = copy_up (m(d := m s)) (d + 1) (s + 1) n"

definition memmove :: "mem \<Rightarrow> uint64 \<Rightarrow> uint64 \<Rightarrow> uint32 \<Rightarrow> mem" where
  "memmove m dst src n =
     (if n = 0 then m
      else if src < dst \<and> src + ucast n > dst
      then copy_down m (dst + ucast n) (src + ucast n) (unat n)
      else copy_up m dst src (unat n))"

definition memcpy :: "mem \<Rightarrow> uint64 \<Rightarrow> uint64 \<Rightarrow> uint32 \<Rightarrow> mem" where
  "memcpy m dst src n = memmove m dst src n"

subsection \<open>Strings\<close>

fun strncmp :: "uint8 list \<Rightarrow> uint8 list \<Rightarrow> nat \<Rightarrow> int option" where
  "strncmp p q 0 = Some 0"
| "strncmp (a # p) (b # q) (Suc n) =
     (if a \<noteq> 0 \<and> a = b then strncmp p q n else Some (uint a - uint b))"
| "strncmp p q (Suc n) = None"

fun strncpy_pad :: "uint8 list \<Rightarrow> nat \<Rightarrow> uint8 list option" where
  "strncpy_pad s 0 = Some s"
| "strncpy_pad [] (Suc n) = None"
| "strncpy_pad (a # s) (Suc n) = map_option ((#) 0) (strncpy_pad s n)"

fun strncpy :: "uint8 list \<Rightarrow> uint8 list \<Rightarrow> nat \<Rightarrow> uint8 list option" where
  "strncpy s t 0 = Some s"
| "strncpy (a # s) (c # t) (Suc n) =
     map_option ((#) c) (if c \<noteq> 0 then strncpy s t n else strncpy_pad s n)"
| "strncpy s t (Suc n) = None"

fun safestrcpy_loop :: "uint8 list \<Rightarrow> uint8 list \<Rightarrow> nat \<Rightarrow> uint8 list option" where
  "safestrcpy_loop [] t k = None"
| "safestrcpy_loop (a # s) t 0 = Some (0 # s)"
| "safestrcpy_loop (a # s) [] (Suc k) = None"
| "safestrcpy_loop (a # s) (c # t) (Suc k) =
     map_option ((#) c) (if c \<noteq> 0 then safestrcpy_loop s t k
                        else case s of [] \<Rightarrow> None | b # s' \<Rightarrow> Some (0 # s'))"

definition safestrcpy :: "uint8 list \<Rightarrow> uint8 list \<Rightarrow> int \<Rightarrow> uint8 list option" where
  "safestrcpy s t n = (if n \<le> 0 then Some s else safestrcpy_loop s t (nat (n - 1)))"

fun strlen :: "uint8 list \<Rightarrow> nat option" where
  "strlen [] = None"
| "strlen (c # s) = (if c = 0 then Some 0 else map_option Suc (strlen s))"

text \<open>The string a buffer holds: its bytes before the first NUL.\<close>

definition cstr :: "uint8 list \<Rightarrow> uint8 list" where
  "cstr xs = takeWhile (\<lambda>c. c \<noteq> 0) xs"

subsection \<open>What the raw memory functions compute\<close>

lemma word_dist_Suc:
  assumes "a \<noteq> d"
  shows "unat (a - d :: uint64) = Suc (unat (a - (d + 1)))"
proof -
  have eq: "a - (d + 1) = (a - d) - 1" by simp
  have "a - d \<noteq> 0" using assms by simp
  then show ?thesis
    unfolding eq by (metis Suc_pred' unat_gt_0 unat_sub_one)
qed

lemma unat_dist_max: "unat (d - (d + 1) :: uint64) = 2 ^ 64 - 1"
proof -
  have "d - (d + 1) = (-1 :: uint64)" by simp
  then show ?thesis by (simp add: unsigned_minus_1_eq_mask mask_eq_exp_minus_1)
qed

lemma memset_loop_apply:
  "n < 2 ^ 64 \<Longrightarrow> memset_loop m d c n i a =
     (if unat (a - (d + i)) < n then ucast c else m a)"
proof (induction n arbitrary: m i)
  case 0
  then show ?case by simp
next
  case (Suc n)
  have IH: "memset_loop (m(d + i := ucast c)) d c n (i + 1) a =
      (if unat (a - (d + (i + 1))) < n then ucast c else (m(d + i := ucast c)) a)"
    using Suc.prems by (intro Suc.IH) simp
  show ?case
  proof (cases "a = d + i")
    case True
    with IH show ?thesis by simp
  next
    case False
    then show ?thesis
      using word_dist_Suc [of a "d + i"] by (simp add: IH add.assoc)
  qed
qed

lemma memset_apply:
  "memset m d c n a = (if a - d < ucast n then ucast c else m a)"
proof -
  have "unat n < 2 ^ 64"
    using unsigned_less [of n, where 'a = nat] by simp
  then show ?thesis
    by (simp add: memset_def memset_loop_apply word_less_nat_alt)
qed

lemma copy_up_apply:
  assumes "n \<le> unat (d - s) \<or> d = s" "n < 2 ^ 64"
  shows "copy_up m d s n a = (if unat (a - d) < n then m (s + (a - d)) else m a)"
  using assms
proof (induction n arbitrary: m d s)
  case 0
  then show ?case by simp
next
  case (Suc n)
  have "n \<le> unat (d + 1 - (s + 1)) \<or> d + 1 = s + 1" using Suc.prems(1) by auto
  then have IH: "copy_up (m(d := m s)) (d + 1) (s + 1) n a =
      (if unat (a - (d + 1)) < n then (m(d := m s)) (s + 1 + (a - (d + 1)))
       else (m(d := m s)) a)"
    using Suc.prems(2) by (intro Suc.IH) auto
  show ?case
  proof (cases "a = d")
    case True
    have "\<not> unat (a - (d + 1)) < n"
      using True unat_dist_max [of d] Suc.prems(2) by simp
    with IH True show ?thesis by simp
  next
    case False
    have clash: "s + (a - d) \<noteq> d" if "unat (a - d) < Suc n"
    proof
      assume eq: "s + (a - d) = d"
      then have "d - s = a - d" by (simp add: algebra_simps)
      with Suc.prems(1) that False show False by auto
    qed
    have "s + 1 + (a - (d + 1)) = s + (a - d)" by (simp add: algebra_simps)
    then show ?thesis
      using False clash word_dist_Suc [OF False] IH by auto
  qed
qed

lemma copy_down_apply:
  assumes "n \<le> unat (s - d) \<or> d = s" "n < 2 ^ 64"
  shows "copy_down m d s n a = (if unat (d - 1 - a) < n then m (s + (a - d)) else m a)"
  using assms
proof (induction n arbitrary: m d s)
  case 0
  then show ?case by simp
next
  case (Suc n)
  have "n \<le> unat (s - 1 - (d - 1)) \<or> d - 1 = s - 1" using Suc.prems(1) by auto
  then have IH: "copy_down (m(d - 1 := m (s - 1))) (d - 1) (s - 1) n a =
      (if unat (d - 1 - 1 - a) < n then (m(d - 1 := m (s - 1))) (s - 1 + (a - (d - 1)))
       else (m(d - 1 := m (s - 1))) a)"
    using Suc.prems(2) by (intro Suc.IH) auto
  show ?case
  proof (cases "a = d - 1")
    case True
    have eq: "d - 1 - 1 - a = -1" using True by simp
    have "\<not> unat (d - 1 - 1 - a) < n"
      unfolding eq using Suc.prems(2)
      by (simp add: unsigned_minus_1_eq_mask mask_eq_exp_minus_1)
    with IH True show ?thesis by simp
  next
    case False
    have step: "unat (d - 1 - a) = Suc (unat (d - 1 - 1 - a))"
    proof -
      have "d - 1 - 1 - a = (d - 1) - (a + 1)" by simp
      then show ?thesis
        using word_dist_Suc [of "d - 1" a] False by (simp add: algebra_simps)
    qed
    have clash: "s + (a - d) \<noteq> d - 1" if "unat (d - 1 - a) < Suc n"
    proof
      assume eq: "s + (a - d) = d - 1"
      then have "s - d = d - 1 - a" by (simp add: algebra_simps)
      with Suc.prems(1) that False show False by auto
    qed
    have "s - 1 + (a - (d - 1)) = s + (a - d)" by (simp add: algebra_simps)
    then show ?thesis
      using False clash step IH by auto
  qed
qed

lemma word_reflect_less:
  assumes "k < n" shows "n - 1 - k < (n :: uint64)"
proof -
  have n0: "n \<noteq> 0" using assms by auto
  have "unat (n - 1) = unat n - 1" by (rule unat_sub_one [OF n0])
  moreover have "k \<le> n - 1"
    using assms n0 by (simp add: word_le_nat_alt word_less_nat_alt unat_sub_one)
  ultimately have "unat (n - 1 - k) = unat n - 1 - unat k"
    by (simp add: unat_sub)
  moreover have "0 < unat n" using n0 by (simp add: unat_gt_0)
  ultimately show ?thesis by (simp add: word_less_nat_alt)
qed

lemma word_reflect_less_iff: "n - 1 - k < n \<longleftrightarrow> k < (n :: uint64)"
  using word_reflect_less [of k n] word_reflect_less [of "n - 1 - k" n] by auto

text \<open>
  The whole of \<^verbatim>\<open>memmove\<close>: the destination holds what the source held before
  the call, whether or not the two regions overlap, and nothing else changes.
\<close>

lemma memmove_apply:
  assumes "unat src + unat n < 2 ^ 64" "unat dst + unat n < 2 ^ 64"
  shows "memmove m dst src n a =
    (if a - dst < ucast n then m (src + (a - dst)) else m a)"
proof -
  define k :: uint64 where "k = ucast n"
  have k: "unat k = unat n" by (simp add: k_def)
  have sk: "unat (src + k) = unat src + unat n" and dk: "unat (dst + k) = unat dst + unat n"
    using assms k by (subst unat_add_lem [THEN iffD1]; simp)+
  have n64: "unat n < 2 ^ 64" using assms by simp
  consider "n = 0" | "n \<noteq> 0" "src < dst" "src + k > dst"
    | "n \<noteq> 0" "\<not> (src < dst \<and> src + k > dst)" by blast
  then show ?thesis
  proof cases
    case 1
    then show ?thesis by (simp add: memmove_def)
  next
    case 2
    have lt: "unat src < unat dst" and gt: "unat dst < unat src + unat n"
      using 2(2,3) sk by (simp_all add: word_less_nat_alt)
    have "unat (src - dst) = 2 ^ 64 + unat src - unat dst"
      using lt by (simp add: unat_sub_if' )
    then have far: "unat n \<le> unat (src + k - (dst + k))"
      using assms(2) lt by simp
    have "memmove m dst src n a = copy_down m (dst + k) (src + k) (unat n) a"
      using 2 by (simp add: memmove_def k_def)
    also have "\<dots> = (if unat (dst + k - 1 - a) < unat n
        then m (src + k + (a - (dst + k))) else m a)"
      using far n64 by (intro copy_down_apply) auto
    also have "unat (dst + k - 1 - a) < unat n \<longleftrightarrow> a - dst < k"
    proof -
      have eq: "dst + k - 1 - a = k - 1 - (a - dst)" by (simp add: algebra_simps)
      show ?thesis
        unfolding eq using word_reflect_less_iff [of k "a - dst"] k by (simp add: word_less_nat_alt)
    qed
    finally show ?thesis by (simp add: k_def algebra_simps)
  next
    case 3
    have "unat n \<le> unat (dst - src) \<or> dst = src"
      using 3(2) assms sk by (auto simp: word_less_nat_alt unat_sub_if' not_less word_unat_eq_iff)
    then have "copy_up m dst src (unat n) a =
        (if unat (a - dst) < unat n then m (src + (a - dst)) else m a)"
      using n64 by (rule copy_up_apply)
    then show ?thesis
      using 3 k by (auto simp: memmove_def k_def word_less_nat_alt)
  qed
qed

lemma memcmp_loop_eq_0:
  "memcmp_loop m p q n = 0 \<longleftrightarrow> (\<forall>i<n. m (p + of_nat i) = m (q + of_nat i))"
proof (induction n arbitrary: p q)
  case 0
  then show ?case by simp
next
  case (Suc n)
  have "(\<forall>i<Suc n. m (p + of_nat i) = m (q + of_nat i)) \<longleftrightarrow>
      m p = m q \<and> (\<forall>i<n. m (p + 1 + of_nat i) = m (q + 1 + of_nat i))"
    by (auto simp: less_Suc_eq_0_disj add.assoc)
  moreover have "uint (m p) - uint (m q) = 0 \<longleftrightarrow> m p = m q"
    by (simp add: word_uint_eq_iff)
  ultimately show ?case using Suc.IH [of "p + 1" "q + 1"] by auto
qed

subsection \<open>What the string functions compute\<close>

lemma strlen_cstr: "0 \<in> set xs \<Longrightarrow> strlen xs = Some (length (cstr xs))"
  by (induction xs) (auto simp: cstr_def)

lemma strlen_None: "0 \<notin> set xs \<Longrightarrow> strlen xs = None"
  by (induction xs) auto

lemma strncmp_defined: "n \<le> length p \<Longrightarrow> n \<le> length q \<Longrightarrow> strncmp p q n \<noteq> None"
  by (induction p q n rule: strncmp.induct) auto

lemma strncmp_eq_0:
  "n \<le> length p \<Longrightarrow> n \<le> length q \<Longrightarrow>
     strncmp p q n = Some 0 \<longleftrightarrow> cstr (take n p) = cstr (take n q)"
proof (induction p q n rule: strncmp.induct)
  case (2 a p b q n)
  have "uint a - uint b = 0 \<longleftrightarrow> a = b" by (simp add: word_uint_eq_iff)
  with 2 show ?case by (auto simp: cstr_def)
qed (auto simp: cstr_def)

lemma strncpy_pad_eq: "n \<le> length s \<Longrightarrow> strncpy_pad s n = Some (replicate n 0 @ drop n s)"
  by (induction s n rule: strncpy_pad.induct) auto

lemma strncpy_eq:
  assumes "n \<le> length s" "n \<le> length t \<or> 0 \<in> set t"
  shows "strncpy s t n =
    Some (take n (cstr t) @ replicate (n - length (cstr t)) 0 @ drop n s)"
  using assms
proof (induction s t n rule: strncpy.induct)
  case (2 a s c t n)
  then show ?case by (auto simp: cstr_def strncpy_pad_eq)
qed (auto simp: cstr_def)

lemma safestrcpy_loop_cstr:
  assumes "k < length s" "k \<le> length t \<or> 0 \<in> set t"
  shows "\<exists>r. safestrcpy_loop s t k = Some r \<and> length r = length s \<and>
    cstr r = take k (cstr t) \<and> drop (Suc k) r = drop (Suc k) s \<and> 0 \<in> set (take (Suc k) r)"
  using assms
proof (induction s t k rule: safestrcpy_loop.induct)
  case (4 a s c t k)
  show ?case
  proof (cases "c = 0")
    case True
    with 4 show ?thesis by (cases s) (auto simp: cstr_def)
  next
    case False
    with 4 obtain r where "safestrcpy_loop s t k = Some r" "length r = length s"
      "cstr r = take k (cstr t)" "drop (Suc k) r = drop (Suc k) s" "0 \<in> set (take (Suc k) r)"
      by auto
    with False show ?thesis by (auto simp: cstr_def)
  qed
qed (auto simp: cstr_def)

end
