(* ===== verification/Spinlock.thy ===== *)
theory Spinlock
  imports Kprelude
begin

section \<open>Spin locks: \<^verbatim>\<open>kernel/spinlock.c\<close>\<close>

text \<open>
  Two views of a spin lock.  The first is the machine's: every CPU has its interrupt
  flag and its \<^verbatim>\<open>noff\<close>/\<^verbatim>\<open>intena\<close> bookkeeping, a lock is the words
  \<^verbatim>\<open>locked\<close> and \<^verbatim>\<open>cpu\<close>, and \<^verbatim>\<open>acquire\<close> and \<^verbatim>\<open>release\<close>
  are cut at every access to these two words, the two reads of \<^verbatim>\<open>holding\<close> included, so that any
  number of CPUs interleave (\<open>smp_step\<close>); a CPU that panics stops there.  The second is what one thread of kernel code sees: the list of locks
  it holds (\<open>held\<close>); the other components are written over that view, and
  \<open>smp_refines_held\<close> relates the two.
\<close>

datatype lockid = Lock string nat

subsection \<open>Per-CPU interrupt state\<close>

record cpu =
  c_sie :: bool      \<comment> \<open>\<^verbatim>\<open>SSTATUS_SIE\<close>: device interrupts enabled\<close>
  c_noff :: uint32   \<comment> \<open>depth of push_off() nesting, a signed int\<close>
  c_intena :: bool   \<comment> \<open>were interrupts enabled before push_off()?\<close>

definition intr_on :: "cpu \<Rightarrow> cpu" where
  "intr_on c = c\<lparr>c_sie := True\<rparr>"

definition intr_off :: "cpu \<Rightarrow> cpu" where
  "intr_off c = c\<lparr>c_sie := False\<rparr>"

definition intr_get :: "cpu \<Rightarrow> bool" where
  "intr_get c = c_sie c"

text \<open>\<^verbatim>\<open>noff\<close> is a C \<^verbatim>\<open>int\<close>, whose overflow is undefined.\<close>

definition push_off :: "cpu \<Rightarrow> cpu res" where
  "push_off c =
     (let old = intr_get c; c = intr_off c;
          c = (if c_noff c = 0 then c\<lparr>c_intena := old\<rparr> else c)
      in if sint (c_noff c) = 2 ^ 31 - 1 then Undef
         else Ok (c\<lparr>c_noff := c_noff c + 1\<rparr>))"

definition pop_off :: "cpu \<Rightarrow> cpu res" where
  "pop_off c =
     (if intr_get c then Panic ''pop_off - interruptible''
      else if sint (c_noff c) < 1 then Panic ''pop_off''
      else let c = c\<lparr>c_noff := c_noff c - 1\<rparr>
           in Ok (if c_noff c = 0 \<and> c_intena c then intr_on c else c))"

subsection \<open>Locks of the machine\<close>

record spinlock =
  lk_locked :: bool
  lk_name :: string
  lk_cpu :: "nat option"   \<comment> \<open>the cpu holding the lock, or null\<close>

definition initlock :: "string \<Rightarrow> spinlock" where
  "initlock name = \<lparr>lk_locked = False, lk_name = name, lk_cpu = None\<rparr>"

definition lk_holding :: "nat \<Rightarrow> spinlock \<Rightarrow> bool" where
  "lk_holding i lk \<longleftrightarrow> lk_locked lk \<and> lk_cpu lk = Some i"

text \<open>\<^verbatim>\<open>__sync_lock_test_and_set(&lk->locked, 1)\<close>: the old value and the lock after it.\<close>

definition test_and_set :: "spinlock \<Rightarrow> bool \<times> spinlock" where
  "test_and_set lk = (lk_locked lk, lk\<lparr>lk_locked := True\<rparr>)"

text \<open>Where a CPU is: outside the lock code, or between two of its accesses, or stopped.\<close>

datatype pc =
    Run
  | AcqLocked lockid \<comment> \<open>in \<^verbatim>\<open>acquire\<close>, before \<^verbatim>\<open>holding\<close> reads \<^verbatim>\<open>lk->locked\<close>\<close>
  | AcqCpu lockid    \<comment> \<open>before it reads \<^verbatim>\<open>lk->cpu\<close>\<close>
  | AcqSpin lockid   \<comment> \<open>at the test-and-set loop\<close>
  | AcqSet lockid    \<comment> \<open>before \<^verbatim>\<open>lk->cpu = mycpu()\<close>\<close>
  | RelLocked lockid \<comment> \<open>in \<^verbatim>\<open>release\<close>, before \<^verbatim>\<open>holding\<close> reads \<^verbatim>\<open>lk->locked\<close>\<close>
  | RelCpu lockid    \<comment> \<open>before it reads \<^verbatim>\<open>lk->cpu\<close>\<close>
  | RelUnset lockid  \<comment> \<open>before \<^verbatim>\<open>lk->cpu = 0\<close>\<close>
  | RelClear lockid  \<comment> \<open>before the lock word is cleared\<close>
  | RelPop           \<comment> \<open>before \<^verbatim>\<open>pop_off()\<close>\<close>
  | Panicked string
  | Overflowed       \<comment> \<open>\<^verbatim>\<open>noff\<close> has overflowed\<close>

record smp =
  cpus :: "nat \<Rightarrow> cpu"
  locks :: "lockid \<Rightarrow> spinlock"
  pcs :: "nat \<Rightarrow> pc"
  own :: "nat \<Rightarrow> lockid list"  \<comment> \<open>locks the CPU has set \<^verbatim>\<open>lk->cpu\<close> of and not unset\<close>
  extra :: "nat \<Rightarrow> nat"        \<comment> \<open>push_off() calls of the CPU outside the lock code\<close>

text \<open>
  A CPU calls \<^verbatim>\<open>acquire\<close> and \<^verbatim>\<open>release\<close> on any lock at any time.  Outside the lock code it matches
  its own calls of \<^verbatim>\<open>push_off\<close> and \<^verbatim>\<open>pop_off\<close>, and turns interrupts on only at depth 0.
\<close>

inductive smp_step :: "smp \<Rightarrow> smp \<Rightarrow> bool" where
  acquire_call:
    "pcs s i = Run \<Longrightarrow> push_off (cpus s i) = Ok c \<Longrightarrow>
     smp_step s (s\<lparr>cpus := (cpus s)(i := c), pcs := (pcs s)(i := AcqLocked l)\<rparr>)"
| acquire_locked:
    "pcs s i = AcqLocked l \<Longrightarrow>
     smp_step s (s\<lparr>pcs := (pcs s)(i := if lk_locked (locks s l) then AcqCpu l else AcqSpin l)\<rparr>)"
| acquire_cpu:
    "pcs s i = AcqCpu l \<Longrightarrow>
     smp_step s (s\<lparr>pcs := (pcs s)(i := if lk_cpu (locks s l) = Some i then Panicked ''acquire'' else AcqSpin l)\<rparr>)"
| acquire_spin:
    "pcs s i = AcqSpin l \<Longrightarrow> test_and_set (locks s l) = (True, lk) \<Longrightarrow>
     smp_step s (s\<lparr>locks := (locks s)(l := lk)\<rparr>)"
| acquire_got:
    "pcs s i = AcqSpin l \<Longrightarrow> test_and_set (locks s l) = (False, lk) \<Longrightarrow>
     smp_step s (s\<lparr>locks := (locks s)(l := lk), pcs := (pcs s)(i := AcqSet l)\<rparr>)"
| acquire_exit:
    "pcs s i = AcqSet l \<Longrightarrow>
     smp_step s (s\<lparr>locks := (locks s)(l := (locks s l)\<lparr>lk_cpu := Some i\<rparr>),
                  pcs := (pcs s)(i := Run), own := (own s)(i := l # own s i)\<rparr>)"
| release_call:
    "pcs s i = Run \<Longrightarrow> smp_step s (s\<lparr>pcs := (pcs s)(i := RelLocked l)\<rparr>)"
| release_locked:
    "pcs s i = RelLocked l \<Longrightarrow>
     smp_step s (s\<lparr>pcs := (pcs s)(i := if lk_locked (locks s l) then RelCpu l else Panicked ''release'')\<rparr>)"
| release_cpu:
    "pcs s i = RelCpu l \<Longrightarrow>
     smp_step s (s\<lparr>pcs := (pcs s)(i := if lk_cpu (locks s l) = Some i then RelUnset l else Panicked ''release'')\<rparr>)"
| release_unset:
    "pcs s i = RelUnset l \<Longrightarrow>
     smp_step s (s\<lparr>locks := (locks s)(l := (locks s l)\<lparr>lk_cpu := None\<rparr>),
                  pcs := (pcs s)(i := RelClear l), own := (own s)(i := remove1 l (own s i))\<rparr>)"
| release_clear:
    "pcs s i = RelClear l \<Longrightarrow>
     smp_step s (s\<lparr>locks := (locks s)(l := (locks s l)\<lparr>lk_locked := False\<rparr>),
                  pcs := (pcs s)(i := RelPop)\<rparr>)"
| release_exit:
    "pcs s i = RelPop \<Longrightarrow> pop_off (cpus s i) = Ok c \<Longrightarrow>
     smp_step s (s\<lparr>cpus := (cpus s)(i := c), pcs := (pcs s)(i := Run)\<rparr>)"
| release_panic:
    "pcs s i = RelPop \<Longrightarrow> pop_off (cpus s i) = Panic e \<Longrightarrow>
     smp_step s (s\<lparr>pcs := (pcs s)(i := Panicked e)\<rparr>)"
| call_push_off:
    "pcs s i = Run \<Longrightarrow> push_off (cpus s i) = Ok c \<Longrightarrow>
     smp_step s (s\<lparr>cpus := (cpus s)(i := c), extra := (extra s)(i := Suc (extra s i))\<rparr>)"
| push_overflow:
    "pcs s i = Run \<Longrightarrow> push_off (cpus s i) = Undef \<Longrightarrow>
     smp_step s (s\<lparr>pcs := (pcs s)(i := Overflowed)\<rparr>)"
| call_pop_off:
    "pcs s i = Run \<Longrightarrow> extra s i = Suc n \<Longrightarrow> pop_off (cpus s i) = Ok c \<Longrightarrow>
     smp_step s (s\<lparr>cpus := (cpus s)(i := c), extra := (extra s)(i := n)\<rparr>)"
| pop_panic:
    "pcs s i = Run \<Longrightarrow> extra s i = Suc n \<Longrightarrow> pop_off (cpus s i) = Panic e \<Longrightarrow>
     smp_step s (s\<lparr>pcs := (pcs s)(i := Panicked e)\<rparr>)"
| call_intr_on:
    "pcs s i = Run \<Longrightarrow> c_noff (cpus s i) = 0 \<Longrightarrow>
     smp_step s (s\<lparr>cpus := (cpus s)(i := intr_on (cpus s i))\<rparr>)"
| call_intr_off:
    "pcs s i = Run \<Longrightarrow> smp_step s (s\<lparr>cpus := (cpus s)(i := intr_off (cpus s i))\<rparr>)"

definition smp_init :: smp where
  "smp_init = \<lparr>cpus = (\<lambda>_. \<lparr>c_sie = False, c_noff = 0, c_intena = False\<rparr>),
     locks = (\<lambda>_. initlock ''''), pcs = (\<lambda>_. Run), own = (\<lambda>_. []), extra = (\<lambda>_. 0)\<rparr>"

inductive smp_reachable :: "smp \<Rightarrow> bool" where
  init: "smp_reachable smp_init"
| step: "smp_reachable s \<Longrightarrow> smp_step s t \<Longrightarrow> smp_reachable t"

subsection \<open>The invariant of the lock protocol\<close>

text \<open>
  Who a lock word belongs to: a CPU owns lock \<open>l\<close> from the test-and-set that found it
  clear until the store that clears it again.
\<close>

fun owning :: "pc \<Rightarrow> lockid option" where
  "owning (AcqSet l) = Some l"
| "owning (RelClear l) = Some l"
| "owning _ = None"

definition owns :: "smp \<Rightarrow> nat \<Rightarrow> lockid \<Rightarrow> bool" where
  "owns s i l \<longleftrightarrow> l \<in> set (own s i) \<or> owning (pcs s i) = Some l"

text \<open>The \<^verbatim>\<open>push_off\<close> a CPU has done in the lock code and not undone.\<close>

fun pc_depth :: "pc \<Rightarrow> int" where
  "pc_depth (AcqLocked l) = 1"
| "pc_depth (AcqCpu l) = 1"
| "pc_depth (AcqSpin l) = 1"
| "pc_depth (AcqSet l) = 1"
| "pc_depth (RelClear l) = 1"
| "pc_depth RelPop = 1"
| "pc_depth (Panicked m) = (if m = ''acquire'' then 1 else 0)"
| "pc_depth _ = 0"

lemma pc_depth_nonneg: "0 \<le> pc_depth p"
  by (cases p) simp_all

fun pc_own :: "pc \<Rightarrow> lockid list \<Rightarrow> bool" where
  "pc_own (AcqSpin l) ls \<longleftrightarrow> l \<notin> set ls"
| "pc_own (AcqSet l) ls \<longleftrightarrow> l \<notin> set ls"
| "pc_own (RelUnset l) ls \<longleftrightarrow> l \<in> set ls"
| "pc_own (RelClear l) ls \<longleftrightarrow> l \<notin> set ls"
| "pc_own _ ls \<longleftrightarrow> True"

definition cpu_inv :: "smp \<Rightarrow> nat \<Rightarrow> bool" where
  "cpu_inv s i \<longleftrightarrow>
     sint (c_noff (cpus s i)) = int (length (own s i)) + int (extra s i) + pc_depth (pcs s i) \<and>
     (c_noff (cpus s i) \<noteq> 0 \<longrightarrow> \<not> c_sie (cpus s i)) \<and>
     distinct (own s i) \<and> pc_own (pcs s i) (own s i)"

definition lock_inv :: "smp \<Rightarrow> lockid \<Rightarrow> bool" where
  "lock_inv s l \<longleftrightarrow>
     (\<forall>i j. owns s i l \<longrightarrow> owns s j l \<longrightarrow> i = j) \<and>
     (lk_locked (locks s l) \<longleftrightarrow> (\<exists>i. owns s i l)) \<and>
     (\<forall>i. lk_cpu (locks s l) = Some i \<longleftrightarrow> l \<in> set (own s i))"

definition smp_inv :: "smp \<Rightarrow> bool" where
  "smp_inv s \<longleftrightarrow> (\<forall>i. cpu_inv s i) \<and> (\<forall>l. lock_inv s l)"

lemma smp_inv_init: "smp_inv smp_init"
  by (simp add: smp_inv_def cpu_inv_def lock_inv_def owns_def smp_init_def initlock_def)

lemmas cpu_defs = push_off_def pop_off_def intr_get_def intr_on_def intr_off_def Let_def

text \<open>Counting in a C \<^verbatim>\<open>int\<close>.\<close>

lemma sint_inc: "sint w \<noteq> 2 ^ 31 - 1 \<Longrightarrow> sint (w + 1 :: uint32) = sint w + 1"
  using sint_lt [of w] sint_ge [of w] by (simp add: sint_word_ariths signed_take_bit_int_eq_self)

lemma sint_dec: "1 \<le> sint w \<Longrightarrow> sint (w - 1 :: uint32) = sint w - 1"
  using sint_lt [of w] sint_ge [of w] by (simp add: sint_word_ariths signed_take_bit_int_eq_self)

lemma push_off_OkD:
  assumes "push_off c = Ok d"
  shows "sint (c_noff d) = sint (c_noff c) + 1" "\<not> c_sie d"
  using assms sint_inc [of "c_noff c"] by (auto simp: cpu_defs split: if_splits)

lemma pop_off_OkD:
  assumes "pop_off c = Ok d"
  shows "sint (c_noff d) = sint (c_noff c) - 1" "c_noff d \<noteq> 0 \<longrightarrow> \<not> c_sie d"
  using assms sint_dec [of "c_noff c"] by (auto simp: cpu_defs split: if_splits)

lemma pop_off_fine: "cpu_inv s i \<Longrightarrow> 1 \<le> int (extra s i) + pc_depth (pcs s i) \<Longrightarrow> \<exists>d. pop_off (cpus s i) = Ok d"
  by (auto simp: cpu_inv_def cpu_defs)

lemma smp_step_cpu_inv:
  assumes "smp_step s t" "smp_inv s"
  shows "cpu_inv t j"
proof -
  from assms(2) have C: "cpu_inv s j" and L: "\<And>l. lock_inv s l" and C': "\<And>i. cpu_inv s i" by (auto simp: smp_inv_def)
  from assms(1) show ?thesis
  proof cases
    case (release_unset i l)
    have "l \<in> set (own s i)" using C' [of i] release_unset by (simp add: cpu_inv_def)
    then have "int (length (own s i)) = int (length (remove1 l (own s i))) + 1"
      by (metis One_nat_def add.commute int_ops(2) length_pos_if_in_set length_remove1
          of_nat_add Suc_pred' plus_1_eq_Suc)
    with release_unset C show ?thesis by (auto simp: cpu_inv_def)
  next
    case (acquire_locked i l)
    have "\<not> lk_locked (locks s l) \<Longrightarrow> l \<notin> set (own s i)" using L [of l] by (auto simp: lock_inv_def owns_def)
    with acquire_locked C show ?thesis by (auto simp: cpu_inv_def)
  next
    case (acquire_cpu i l)
    have "lk_cpu (locks s l) \<noteq> Some i \<Longrightarrow> l \<notin> set (own s i)" using L [of l] by (auto simp: lock_inv_def)
    with acquire_cpu C show ?thesis by (auto simp: cpu_inv_def)
  next
    case (release_cpu i l)
    have "lk_cpu (locks s l) = Some i \<Longrightarrow> l \<in> set (own s i)" using L [of l] by (auto simp: lock_inv_def)
    with release_cpu C show ?thesis by (auto simp: cpu_inv_def)
  next
    case (acquire_call i c l)
    then show ?thesis using C push_off_OkD [OF acquire_call(3)] by (auto simp: cpu_inv_def)
  next
    case (call_push_off i c)
    then show ?thesis using C push_off_OkD [OF call_push_off(3)] by (auto simp: cpu_inv_def)
  next
    case (release_exit i c)
    then show ?thesis using C pop_off_OkD [OF release_exit(3)] by (auto simp: cpu_inv_def)
  next
    case (call_pop_off i n c)
    then show ?thesis using C pop_off_OkD [OF call_pop_off(4)] by (auto simp: cpu_inv_def)
  next
    case (release_panic i e)
    then show ?thesis using pop_off_fine [OF C' [of i]] by simp
  next
    case (pop_panic i n e)
    then show ?thesis using pop_off_fine [OF C' [of i]] by (cases "pcs s i") simp_all
  qed (use C in \<open>auto simp: cpu_inv_def intr_on_def intr_off_def test_and_set_def split: if_splits\<close>)
qed

text \<open>How each step changes the ownership relation.\<close>

lemma owns_keep:
  assumes "own t = own s" "owning (pcs t i) = owning (pcs s i)" "\<And>j. j \<noteq> i \<Longrightarrow> pcs t j = pcs s j"
  shows "owns t j k = owns s j k"
  using assms by (cases "j = i") (auto simp: owns_def)

lemma lock_inv_keep:
  assumes "lock_inv s k" "\<And>j. owns t j k = owns s j k"
    "\<And>j. k \<in> set (own t j) \<longleftrightarrow> k \<in> set (own s j)" "locks t k = locks s k"
  shows "lock_inv t k"
  using assms unfolding lock_inv_def by presburger

lemma lock_inv_got:
  assumes "lock_inv s k" "\<And>j. \<not> owns s j k"
    and "\<And>j. owns t j k \<longleftrightarrow> j = i" "\<And>j. k \<in> set (own t j) \<longleftrightarrow> k \<in> set (own s j)"
    and "lk_locked (locks t k)" "lk_cpu (locks t k) = lk_cpu (locks s k)"
  shows "lock_inv t k"
  using assms unfolding lock_inv_def by simp

lemma smp_step_lock_inv:
  assumes "smp_step s t" "smp_inv s"
  shows "lock_inv t k"
proof -
  from assms(2) have C: "\<And>i. cpu_inv s i" and L: "\<And>l. lock_inv s l"
    by (auto simp: smp_inv_def)
  from assms(1) show ?thesis
  proof cases
    case (acquire_spin i l lk)
    show ?thesis
      by (rule lock_inv_keep [OF L], rule owns_keep [of _ _ i])
        (use acquire_spin in \<open>auto simp: test_and_set_def\<close>)
  next
    case (acquire_got i l lk)
    show ?thesis
    proof (cases "k = l")
      case True
      have free: "\<not> owns s j l" for j
        using acquire_got(3) L [of l] by (auto simp: lock_inv_def test_and_set_def)
      show ?thesis
        by (rule lock_inv_got [OF L, of k t i])
          (use acquire_got True free in \<open>auto simp: test_and_set_def owns_def\<close>)
    next
      case False
      show ?thesis
        by (rule lock_inv_keep [OF L]) (use acquire_got False in \<open>auto simp: owns_def\<close>)
    qed
  next
    case (acquire_exit i l)
    show ?thesis
    proof (cases "k = l")
      case True
      have own: "owns s i l" using acquire_exit by (simp add: owns_def)
      have "owns t j k = owns s j k" for j
        using acquire_exit True by (auto simp: owns_def)
      moreover have "k \<in> set (own t j) \<longleftrightarrow> j = i" for j
        using acquire_exit True own L [of l] by (auto simp: lock_inv_def owns_def)
      ultimately show ?thesis
        using acquire_exit True L [of l] by (auto simp: lock_inv_def)
    next
      case False
      show ?thesis
        by (rule lock_inv_keep [OF L]) (use acquire_exit False in \<open>auto simp: owns_def\<close>)
    qed
  next
    case (release_unset i l)
    have own: "l \<in> set (own s i)" using C [of i] release_unset by (simp add: cpu_inv_def)
    have dist: "distinct (own s i)" using C [of i] by (simp add: cpu_inv_def)
    show ?thesis
    proof (cases "k = l")
      case True
      have "owns t j k = owns s j k" for j
        using release_unset True own dist by (auto simp: owns_def)
      moreover have "k \<notin> set (own t j)" for j
      proof (cases "j = i")
        case False
        then have "l \<notin> set (own s j)"
          using own L [of l] by (auto simp: lock_inv_def owns_def)
        then show ?thesis using release_unset False True by simp
      qed (use release_unset dist True in simp)
      ultimately show ?thesis
        using release_unset True L [of l] by (auto simp: lock_inv_def)
    next
      case False
      show ?thesis
        by (rule lock_inv_keep [OF L]) (use release_unset False in \<open>auto simp: owns_def\<close>)
    qed
  next
    case (release_clear i l)
    have nown: "l \<notin> set (own s i)" using C [of i] release_clear by (auto simp: cpu_inv_def)
    show ?thesis
    proof (cases "k = l")
      case True
      have own: "owns s i l" using release_clear by (simp add: owns_def)
      have "\<not> owns t j k" for j
      proof (cases "j = i")
        case False
        then have "\<not> owns s j l" using own L [of l] by (auto simp: lock_inv_def)
        then show ?thesis using release_clear False True by (simp add: owns_def)
      qed (use release_clear nown True in \<open>simp add: owns_def\<close>)
      then show ?thesis
        using release_clear True L [of l] nown own by (auto simp: lock_inv_def owns_def)
    next
      case False
      show ?thesis
        by (rule lock_inv_keep [OF L]) (use release_clear False in \<open>auto simp: owns_def\<close>)
    qed
  qed (rule lock_inv_keep [OF L]; auto simp: owns_def split: if_splits)+
qed

lemma smp_step_inv: "smp_step s t \<Longrightarrow> smp_inv s \<Longrightarrow> smp_inv t"
  using smp_step_cpu_inv smp_step_lock_inv unfolding smp_inv_def by blast

lemma smp_reachable_inv: "smp_reachable s \<Longrightarrow> smp_inv s"
  by (induction rule: smp_reachable.induct) (auto intro: smp_inv_init smp_step_inv)

subsection \<open>The locks one thread of kernel code holds\<close>

text \<open>
  The part of the kernel state every component extends: the spin locks the running
  thread holds, innermost first.  A lock that another CPU holds only makes
  \<^verbatim>\<open>acquire\<close> spin longer, so it does not appear here.
\<close>

record core =
  held :: "lockid list"

definition holding :: "lockid \<Rightarrow> 'a core_scheme \<Rightarrow> bool" where
  "holding l s \<longleftrightarrow> l \<in> set (held s)"

definition acquire :: "lockid \<Rightarrow> 'a core_scheme \<Rightarrow> 'a core_scheme res" where
  "acquire l s = (if holding l s then Panic ''acquire'' else Ok (s\<lparr>held := l # held s\<rparr>))"

definition release :: "lockid \<Rightarrow> 'a core_scheme \<Rightarrow> 'a core_scheme res" where
  "release l s = (if \<not> holding l s then Panic ''release'' else Ok (s\<lparr>held := remove1 l (held s)\<rparr>))"

named_theorems lock_simps \<open>acquire and release on explicit states\<close>

lemma acquire_Ok [lock_simps]: "l \<notin> set (held s) \<Longrightarrow> acquire l s = Ok (s\<lparr>held := l # held s\<rparr>)"
  by (simp add: acquire_def holding_def)

lemma acquire_held [lock_simps]: "l \<in> set (held s) \<Longrightarrow> acquire l s = Panic ''acquire''"
  by (simp add: acquire_def holding_def)

lemma release_Ok [lock_simps]:
  "l \<in> set (held s) \<Longrightarrow> release l s = Ok (s\<lparr>held := remove1 l (held s)\<rparr>)"
  by (simp add: release_def holding_def)

lemma acquire_eq_Ok: "acquire l s = Ok t \<longleftrightarrow> l \<notin> set (held s) \<and> t = s\<lparr>held := l # held s\<rparr>"
  by (auto simp: acquire_def holding_def)

lemma release_eq_Ok:
  "release l s = Ok t \<longleftrightarrow> l \<in> set (held s) \<and> t = s\<lparr>held := remove1 l (held s)\<rparr>"
  by (auto simp: release_def holding_def)

text \<open>The contract of a lock, and what its clients get from it.\<close>

locale lock_protocol =
  fixes acq :: "lockid \<Rightarrow> 's \<Rightarrow> 's res"
    and rel :: "lockid \<Rightarrow> 's \<Rightarrow> 's res"
    and holds :: "lockid \<Rightarrow> 's \<Rightarrow> bool"
  assumes acq_free: "\<not> holds l s \<Longrightarrow> \<exists>t. acq l s = Ok t \<and> holds l t"
    and acq_other: "acq l s = Ok t \<Longrightarrow> k \<noteq> l \<Longrightarrow> holds k t = holds k s"
    and acq_twice: "holds l s \<Longrightarrow> \<exists>e. acq l s = Panic e"
    and rel_acq: "acq l s = Ok t \<Longrightarrow> rel l t = Ok s"
    and rel_free: "\<not> holds l s \<Longrightarrow> \<exists>e. rel l s = Panic e"
begin

text \<open>An empty critical section changes nothing, and critical sections nest.\<close>

lemma critical_section: "\<not> holds l s \<Longrightarrow> bindR (acq l s) (rel l) = Ok s"
  using acq_free rel_acq by fastforce

lemma nested_sections:
  assumes "\<not> holds l s" "\<not> holds k s" "k \<noteq> l"
  shows "bindR (bindR (bindR (acq l s) (acq k)) (rel k)) (rel l) = Ok s"
proof -
  obtain t where t: "acq l s = Ok t" using acq_free assms(1) by blast
  have "\<not> holds k t" using acq_other [OF t assms(3)] assms(2) by simp
  then obtain u where u: "acq k t = Ok u" using acq_free by blast
  show ?thesis using t u rel_acq [OF t] rel_acq [OF u] by simp
qed

lemma no_reentry: "acq l s = Ok t \<Longrightarrow> \<exists>e. acq l t = Panic e"
  using acq_free acq_twice by (metis res.distinct(1) res.inject(1))

end

interpretation held_locks: lock_protocol acquire release holding
  by unfold_locales (auto simp: acquire_def release_def holding_def split: if_splits)

subsection \<open>The machine's locks refine the held locks\<close>

lemma smp_holding:
  assumes "smp_inv s"
  shows "lk_holding i (locks s l) \<longleftrightarrow> l \<in> set (own s i)"
proof -
  have "lock_inv s l" using assms by (simp add: smp_inv_def)
  then show ?thesis by (auto simp: lk_holding_def lock_inv_def owns_def)
qed

definition held_view :: "smp \<Rightarrow> nat \<Rightarrow> core" where
  "held_view s i = \<lparr>held = own s i\<rparr>"

lemma smp_step_held_view:
  assumes "smp_step s t" "smp_inv s"
  shows "held_view t i = held_view s i \<or>
    (\<exists>l. pcs s i = AcqSet l \<and> pcs t i = Run \<and> acquire l (held_view s i) = Ok (held_view t i)) \<or>
    (\<exists>l. pcs s i = RelUnset l \<and> pcs t i = RelClear l \<and> release l (held_view s i) = Ok (held_view t i))"
  using assms(1)
proof cases
  case (acquire_exit j l)
  have "cpu_inv s j" using assms(2) by (simp add: smp_inv_def)
  then show ?thesis
    using acquire_exit by (auto simp: held_view_def cpu_inv_def acquire_def holding_def)
next
  case (release_unset j l)
  have "cpu_inv s j" using assms(2) by (simp add: smp_inv_def)
  then show ?thesis
    using release_unset by (auto simp: held_view_def cpu_inv_def release_def holding_def)
qed (auto simp: held_view_def)

text \<open>A step that panics, and where the CPU was.\<close>

lemma smp_step_panic:
  assumes "smp_step s t" "smp_inv s" "pcs t i = Panicked m" "pcs s i \<noteq> Panicked m"
  shows "m = ''acquire'' \<and> (\<exists>l. pcs s i = AcqCpu l \<and> l \<in> set (own s i)) \<or>
    m = ''release'' \<and> (\<exists>l. (pcs s i = RelLocked l \<or> pcs s i = RelCpu l) \<and> l \<notin> set (own s i))"
proof -
  have C: "\<And>i. cpu_inv s i" and L: "\<And>l. lock_inv s l" using assms(2) by (auto simp: smp_inv_def)
  from assms(1) show ?thesis
  proof cases
    case (acquire_cpu j l)
    then show ?thesis using assms(3,4) L [of l] by (auto simp: lock_inv_def split: if_splits)
  next
    case (release_locked j l)
    then show ?thesis using assms(3,4) L [of l] by (auto simp: lock_inv_def owns_def split: if_splits)
  next
    case (release_cpu j l)
    then show ?thesis using assms(3,4) L [of l] by (auto simp: lock_inv_def split: if_splits)
  next
    case (release_panic j e)
    then show ?thesis using pop_off_fine [OF C [of j]] by simp
  next
    case (pop_panic j n e)
    then show ?thesis using pop_off_fine [OF C [of j]] by simp
  qed (use assms(3,4) in \<open>auto split: if_splits\<close>)
qed

subsection \<open>Nesting of push_off and pop_off\<close>

fun push_offs :: "nat \<Rightarrow> cpu \<Rightarrow> cpu res" where
  "push_offs 0 c = Ok c"
| "push_offs (Suc n) c = bindR (push_off c) (push_offs n)"

fun pop_offs :: "nat \<Rightarrow> cpu \<Rightarrow> cpu res" where
  "pop_offs 0 c = Ok c"
| "pop_offs (Suc n) c = bindR (pop_off c) (pop_offs n)"

definition cpu_ok :: "cpu \<Rightarrow> bool" where
  "cpu_ok c \<longleftrightarrow> 0 \<le> sint (c_noff c) \<and> (c_noff c \<noteq> 0 \<longrightarrow> \<not> c_sie c)"

lemma push_off_cases:
  assumes "cpu_ok c"
  shows "if sint (c_noff c) = 2 ^ 31 - 1 then push_off c = Undef
    else \<exists>d. push_off c = Ok d \<and> cpu_ok d \<and> sint (c_noff d) = sint (c_noff c) + 1 \<and> \<not> c_sie d \<and>
      c_intena d = (if c_noff c = 0 then c_sie c else c_intena c)"
  using assms sint_inc [of "c_noff c"] by (auto simp: cpu_ok_def cpu_defs)

lemma pop_off_cases:
  assumes "cpu_ok d" "1 \<le> sint (c_noff d)"
  shows "\<exists>c. pop_off d = Ok c \<and> cpu_ok c \<and> sint (c_noff c) = sint (c_noff d) - 1 \<and> c_intena c = c_intena d \<and>
    c_sie c = (c_noff c = 0 \<and> c_intena d)"
  using assms sint_dec [of "c_noff d"] by (auto simp: cpu_ok_def cpu_defs)

text \<open>The CPU after \<open>k\<close> calls of \<^verbatim>\<open>push_off\<close>, and after \<open>j\<close> calls of \<^verbatim>\<open>pop_off\<close> from there.\<close>

lemma push_offs_ok:
  "cpu_ok c \<Longrightarrow> sint (c_noff c) + int k < 2 ^ 31 \<Longrightarrow>
   \<exists>d. push_offs k c = Ok d \<and> cpu_ok d \<and> sint (c_noff d) = sint (c_noff c) + int k \<and>
     (0 < k \<longrightarrow> \<not> c_sie d \<and> c_intena d = (if c_noff c = 0 then c_sie c else c_intena c))"
proof (induction k arbitrary: c)
  case (Suc k)
  then obtain d where d: "push_off c = Ok d" "cpu_ok d" "sint (c_noff d) = sint (c_noff c) + 1" "\<not> c_sie d"
    "c_intena d = (if c_noff c = 0 then c_sie c else c_intena c)"
    using push_off_cases [of c] by (auto split: if_splits)
  have nz: "c_noff d \<noteq> 0" using d(3) Suc.prems(1) by (auto simp: cpu_ok_def)
  show ?case using Suc.IH [OF d(2)] Suc.prems(2) d nz by (cases "k = 0") auto
qed simp

lemma pop_offs_ok:
  "cpu_ok d \<Longrightarrow> int j \<le> sint (c_noff d) \<Longrightarrow>
   \<exists>c. pop_offs j d = Ok c \<and> sint (c_noff c) = sint (c_noff d) - int j \<and> c_intena c = c_intena d \<and>
     (0 < j \<longrightarrow> c_sie c = (c_noff c = 0 \<and> c_intena d)) \<and> (j = 0 \<longrightarrow> c = d)"
proof (induction j arbitrary: d)
  case (Suc j)
  then obtain c where c: "pop_off d = Ok c" "cpu_ok c" "sint (c_noff c) = sint (c_noff d) - 1" "c_intena c = c_intena d"
    "c_sie c = (c_noff c = 0 \<and> c_intena d)"
    using pop_off_cases [of d] by auto
  show ?case using Suc.IH [OF c(2)] Suc.prems(2) c by (cases "j = 0") auto
qed simp

subsection \<open>Properties\<close>

text \<open>C7: at most one CPU is between the return of \<^verbatim>\<open>acquire(lk)\<close> and its
  \<^verbatim>\<open>release(lk)\<close>, in every interleaving of the lock code of all CPUs; the lock
  word then names that CPU, and its device interrupts are off.\<close>

theorem spinlock_mutual_exclusion:
  assumes "smp_reachable s" "l \<in> set (own s i)"
  shows "(l \<in> set (own s j) \<longrightarrow> j = i) \<and> lk_holding i (locks s l) \<and> \<not> c_sie (cpus s i)"
proof -
  have inv: "smp_inv s" using assms(1) by (rule smp_reachable_inv)
  then have C: "cpu_inv s i" and L: "lock_inv s l" by (auto simp: smp_inv_def)
  have "0 < length (own s i)" using assms(2) by (rule length_pos_if_in_set)
  then have "0 < sint (c_noff (cpus s i))" using C pc_depth_nonneg [of "pcs s i"] unfolding cpu_inv_def by linarith
  then have "\<not> c_sie (cpus s i)" using C by (auto simp: cpu_inv_def)
  then show ?thesis
    using assms(2) L smp_holding [OF inv] by (auto simp: lock_inv_def owns_def)
qed

lemma smp_run_acquire:
  assumes "smp_reachable s" "pcs s i = Run" "\<not> lk_locked (locks s l)" "push_off (cpus s i) = Ok c"
  shows "\<exists>u t. smp_reachable u \<and> pcs u i = AcqSet l \<and> smp_step u t \<and> own t i = l # own s i \<and> own u i = own s i \<and> pcs t i = Run"
proof -
  define s1 where "s1 = s\<lparr>cpus := (cpus s)(i := c), pcs := (pcs s)(i := AcqLocked l)\<rparr>"
  define s2 where "s2 = s1\<lparr>pcs := (pcs s1)(i := if lk_locked (locks s1 l) then AcqCpu l else AcqSpin l)\<rparr>"
  define lk where "lk = (locks s l)\<lparr>lk_locked := True\<rparr>"
  define u where "u = s2\<lparr>locks := (locks s2)(l := lk), pcs := (pcs s2)(i := AcqSet l)\<rparr>"
  define t where "t = u\<lparr>locks := (locks u)(l := (locks u l)\<lparr>lk_cpu := Some i\<rparr>),
                  pcs := (pcs u)(i := Run), own := (own u)(i := l # own u i)\<rparr>"
  have "smp_step s s1" unfolding s1_def by (rule acquire_call) (use assms in auto)
  moreover have "smp_step s1 s2" unfolding s2_def by (rule acquire_locked) (simp add: s1_def)
  moreover have "smp_step s2 u" unfolding u_def
    by (rule acquire_got) (use assms in \<open>auto simp: s1_def s2_def lk_def test_and_set_def\<close>)
  moreover have "smp_step u t" unfolding t_def by (rule acquire_exit) (simp add: u_def)
  ultimately have "smp_reachable u" "smp_step u t" using assms(1) by (blast intro: smp_reachable.step)+
  moreover have "own t i = l # own s i" "own u i = own s i" "pcs t i = Run" "pcs u i = AcqSet l"
    by (simp_all add: t_def u_def s2_def s1_def)
  ultimately show ?thesis by blast
qed

lemma first_acquire:
  "\<exists>u t. smp_reachable u \<and> pcs u 0 = AcqSet (Lock ''kmem'' 0) \<and> smp_step u t \<and> smp_reachable t \<and> own t 0 = [Lock ''kmem'' 0] \<and> own u 0 = []"
  using smp_run_acquire [OF smp_reachable.init, of 0 "Lock ''kmem'' 0"] smp_reachable.step
  by (auto simp: smp_init_def initlock_def cpu_defs)

theorem spinlock_mutual_exclusion_witness:
  "\<exists>s. smp_reachable s \<and> Lock ''kmem'' 0 \<in> set (own s 0) \<and>
     lk_holding 0 (locks s (Lock ''kmem'' 0)) \<and> Lock ''kmem'' 0 \<notin> set (own s 1)"
proof -
  obtain s where s: "smp_reachable s" "Lock ''kmem'' 0 \<in> set (own s 0)" using first_acquire by auto
  show ?thesis using s spinlock_mutual_exclusion [OF s, of 1] by auto
qed



text \<open>
  C32: \<^verbatim>\<open>push_off\<close> and \<^verbatim>\<open>pop_off\<close> are matched.  As long as the depth stays in the range of a C \<^verbatim>\<open>int\<close>, \<open>k\<close> calls of
  \<^verbatim>\<open>push_off()\<close> succeed and leave interrupts off; any \<open>j < k\<close> calls of \<^verbatim>\<open>pop_off()\<close> then succeed and leave them off, and
  \<open>k\<close> of them give back the interrupt flag, the nesting depth and, when nested, the saved
  flag the CPU started with.  One more \<^verbatim>\<open>push_off()\<close> at the largest depth overflows.
\<close>

theorem push_off_pop_off_matched:
  assumes "0 \<le> sint (c_noff c)" "c_noff c \<noteq> 0 \<longrightarrow> \<not> c_sie c" "sint (c_noff c) + int k < 2 ^ 31"
  shows "\<exists>d e. push_offs k c = Ok d \<and> (0 < k \<longrightarrow> \<not> c_sie d) \<and>
    (\<forall>j<k. \<exists>b. pop_offs j d = Ok b \<and> \<not> c_sie b \<and> sint (c_noff b) = sint (c_noff c) + int (k - j)) \<and>
    pop_offs k d = Ok e \<and> c_sie e = c_sie c \<and> c_noff e = c_noff c \<and> (c_noff c \<noteq> 0 \<longrightarrow> c_intena e = c_intena c) \<and>
    (sint (c_noff c) + int k = 2 ^ 31 - 1 \<longrightarrow> push_off d = Undef)"
proof -
  have c: "cpu_ok c" using assms by (simp add: cpu_ok_def)
  obtain d where d: "push_offs k c = Ok d" "cpu_ok d" "sint (c_noff d) = sint (c_noff c) + int k"
    "0 < k \<longrightarrow> \<not> c_sie d \<and> c_intena d = (if c_noff c = 0 then c_sie c else c_intena c)"
    using push_offs_ok [OF c assms(3)] by blast
  obtain e where e: "pop_offs k d = Ok e" "sint (c_noff e) = sint (c_noff c)" "c_intena e = c_intena d"
    "0 < k \<longrightarrow> c_sie e = (c_noff e = 0 \<and> c_intena d)" "k = 0 \<longrightarrow> e = d"
    using pop_offs_ok [OF d(2), of k] d(3) assms(1) by auto
  have n: "c_noff e = c_noff c" using e(2) by (simp add: signed_word_eqI)
  have "\<exists>b. pop_offs j d = Ok b \<and> \<not> c_sie b \<and> sint (c_noff b) = sint (c_noff c) + int (k - j)" if j: "j < k" for j
    using pop_offs_ok [OF d(2), of j] d(3,4) j assms(1) by (cases "j = 0") (auto simp: of_nat_diff)
  moreover have "c_sie e = c_sie c" "c_noff c \<noteq> 0 \<longrightarrow> c_intena e = c_intena c"
    using d(1,4) e(3-5) n assms(2) by (cases "k = 0"; auto split: if_splits)+
  moreover have "sint (c_noff c) + int k = 2 ^ 31 - 1 \<longrightarrow> push_off d = Undef" using push_off_cases [OF d(2)] d(3) by simp
  ultimately show ?thesis using d(1,4) e(1) n by blast
qed

theorem push_off_pop_off_matched_witness:
  "\<exists>d e. push_offs 3 \<lparr>c_sie = True, c_noff = 0, c_intena = False\<rparr> = Ok d \<and> \<not> c_sie d \<and> pop_offs 3 d = Ok e \<and> c_sie e \<and> c_noff e = 0"
  using push_off_pop_off_matched [of "\<lparr>c_sie = True, c_noff = 0, c_intena = False\<rparr>" 3] by auto

text \<open>
  C21: The machine's locks refine the held locks.  A step of any CPU changes the locks a CPU holds exactly when that CPU
  writes \<^verbatim>\<open>lk->cpu\<close>, at the end of \<^verbatim>\<open>acquire\<close> or in \<^verbatim>\<open>release\<close>, and then as \<open>acquire\<close> and \<open>release\<close> of the sequential view;
  the machine's \<^verbatim>\<open>holding\<close> agrees with that view, whatever the other CPUs do; and a CPU panics in \<^verbatim>\<open>acquire\<close> or
  \<^verbatim>\<open>release\<close> only where the sequential one does.
\<close>

theorem smp_refines_held:
  assumes "smp_reachable s" "smp_step s t"
  shows "(held_view t i = held_view s i \<or>
     (\<exists>l. pcs s i = AcqSet l \<and> pcs t i = Run \<and> acquire l (held_view s i) = Ok (held_view t i)) \<or>
     (\<exists>l. pcs s i = RelUnset l \<and> pcs t i = RelClear l \<and> release l (held_view s i) = Ok (held_view t i))) \<and>
     (\<forall>l. lk_holding i (locks s l) \<longleftrightarrow> holding l (held_view s i)) \<and>
     (\<forall>m. pcs t i = Panicked m \<longrightarrow> pcs s i \<noteq> Panicked m \<longrightarrow>
        (\<exists>l. acquire l (held_view s i) = Panic m \<or> release l (held_view s i) = Panic m))"
  using smp_step_held_view [OF assms(2) smp_reachable_inv [OF assms(1)]]
    smp_holding [OF smp_reachable_inv [OF assms(1)]] smp_step_panic [OF assms(2) smp_reachable_inv [OF assms(1)], of i]
  by (simp add: held_view_def holding_def acquire_def release_def) blast

theorem smp_refines_held_witness:
  "\<exists>s t. smp_reachable s \<and> smp_step s t \<and> held_view s 0 = \<lparr>held = []\<rparr> \<and>
     acquire (Lock ''kmem'' 0) (held_view s 0) = Ok (held_view t 0) \<and> \<not> holding (Lock ''kmem'' 0) (held_view s 0) \<and> holding (Lock ''kmem'' 0) (held_view t 0)"
proof -
  obtain u t where u: "smp_reachable u" "pcs u 0 = AcqSet (Lock ''kmem'' 0)" "smp_step u t" "own t 0 = [Lock ''kmem'' 0]" "own u 0 = []"
    using first_acquire by blast
  then have "acquire (Lock ''kmem'' 0) (held_view u 0) = Ok (held_view t 0)"
    using smp_refines_held [OF u(1,3), of 0] by (auto simp: held_view_def)
  then show ?thesis using u by (intro exI [of _ u] exI [of _ t]) (simp add: held_view_def holding_def)
qed

end
