(* ===== verification/Procdef.thy ===== *)
theory Procdef
  imports Spinlock Riscv
begin

section \<open>Process structures: \<^verbatim>\<open>proc.h\<close>\<close>

text \<open>
  The structures of \<^verbatim>\<open>kernel/proc.h\<close>: saved contexts, trap frames and the process
  itself.  A pointer to a process, an open file or an inode is the index of its table
  slot, a null pointer is \<open>None\<close>; a page table and a trap frame are physical pages, so
  pointers to them stay addresses (0 is null).
\<close>

abbreviation (input) NPROC :: nat where "NPROC \<equiv> 64"
abbreviation (input) NOFILE :: nat where "NOFILE \<equiv> 16"

subsection \<open>Data\<close>

record ctx =
  ctx_ra :: uint64
  ctx_sp :: uint64
  ctx_s :: "uint64 list"   \<comment> \<open>callee-saved s0 to s11\<close>

datatype procstate = UNUSED | USED | SLEEPING | RUNNABLE | RUNNING | ZOMBIE

text \<open>\<^verbatim>\<open>killed\<close> is a flag, \<^verbatim>\<open>xstate\<close> and \<^verbatim>\<open>trace_mask\<close> keep their 32 bits.\<close>

record proc =
  p_state :: procstate
  p_chan :: "chan option"
  p_killed :: bool
  p_xstate :: uint32
  p_pid :: int
  p_parent :: "nat option"
  p_kstack :: uint64
  p_sz :: uint64
  p_pagetable :: uint64
  p_trapframe :: uint64
  p_context :: ctx
  p_ofile :: "nat option list"
  p_cwd :: "nat option"
  p_name :: "uint8 list"
  p_trace_mask :: uint32

end
