(* ===== verification/Sched.thy ===== *)
theory Sched
  imports Procdef
begin

section \<open>Scheduling, sleep and wakeup: \<^verbatim>\<open>kernel/proc.c\<close>\<close>

text \<open>
  The part of \<^verbatim>\<open>proc.c\<close> that moves processes between their states: wakeup, sleep,
  yield, kill, sched and the scheduler.  A function that calls \<^verbatim>\<open>swtch\<close> is cut
  there: one definition for what runs before the switch and one for what runs after it.
\<close>

subsection \<open>State\<close>

record kproc = core +
  procs :: "proc list"
  cur :: "nat option"        \<comment> \<open>\<^verbatim>\<open>mycpu()->proc\<close>\<close>
  nextpid :: int
  initproc :: "nat option"
  ticks :: uint32

abbreviation (input) plock :: "nat \<Rightarrow> lockid" where "plock i \<equiv> Lock ''proc'' i"
abbreviation (input) pid_lock :: lockid where "pid_lock \<equiv> Lock ''nextpid'' 0"
abbreviation (input) wait_lock :: lockid where "wait_lock \<equiv> Lock ''wait_lock'' 0"

definition upd_proc :: "nat \<Rightarrow> (proc \<Rightarrow> proc) \<Rightarrow> 'a kproc_scheme \<Rightarrow> 'a kproc_scheme" where
  "upd_proc i f s = s\<lparr>procs := (procs s)[i := f (procs s ! i)]\<rparr>"

text \<open>
  \<^verbatim>\<open>struct proc *p = myproc()\<close>; the code dereferences \<open>p\<close> at once, and a null
  pointer would fault into \<^verbatim>\<open>kerneltrap\<close>, which panics.
\<close>

definition myproc :: "'a kproc_scheme \<Rightarrow> nat res" where
  "myproc s = (case cur s of None \<Rightarrow> Panic ''kerneltrap'' | Some i \<Rightarrow> Ok i)"

subsection \<open>Operations on the process table\<close>

definition allocpid :: "'a kproc_scheme \<Rightarrow> (int \<times> 'a kproc_scheme) res" where
  "allocpid s =
     bindR (acquire pid_lock s) (\<lambda>s.
     let pid = nextpid s; s = s\<lparr>nextpid := nextpid s + 1\<rparr> in
     bindR (release pid_lock s) (\<lambda>s. Ok (pid, s)))"

definition wakeup_at :: "chan option \<Rightarrow> nat \<Rightarrow> 'a kproc_scheme \<Rightarrow> 'a kproc_scheme res" where
  "wakeup_at c i s =
     (if cur s = Some i then Ok s
      else bindR (acquire (plock i) s) (\<lambda>s.
           release (plock i)
             (if p_state (procs s ! i) = SLEEPING \<and> p_chan (procs s ! i) = c
              then upd_proc i (\<lambda>p. p\<lparr>p_state := RUNNABLE\<rparr>) s else s)))"

definition wakeup :: "chan option \<Rightarrow> 'a kproc_scheme \<Rightarrow> 'a kproc_scheme res" where
  "wakeup c s = foreach (wakeup_at c) 0 NPROC s"

definition kill_at :: "int \<Rightarrow> nat \<Rightarrow> 'a kproc_scheme \<Rightarrow> (int option \<times> 'a kproc_scheme) res" where
  "kill_at pid i s =
     bindR (acquire (plock i) s) (\<lambda>s.
     if p_pid (procs s ! i) = pid
     then let s = upd_proc i (\<lambda>p. p\<lparr>p_killed := True\<rparr>) s;
              s = (if p_state (procs s ! i) = SLEEPING
                   then upd_proc i (\<lambda>p. p\<lparr>p_state := RUNNABLE\<rparr>) s else s)
          in bindR (release (plock i) s) (\<lambda>s. Ok (Some 0, s))
     else bindR (release (plock i) s) (\<lambda>s. Ok (None, s)))"

definition kill :: "int \<Rightarrow> 'a kproc_scheme \<Rightarrow> (int \<times> 'a kproc_scheme) res" where
  "kill pid s = bindR (foreach_ret (kill_at pid) 0 NPROC s)
     (\<lambda>(r, s). case r of Some x \<Rightarrow> Ok (x, s) | None \<Rightarrow> Ok (-1, s))"

definition procnum_at :: "nat \<Rightarrow> 'a kproc_scheme \<times> int \<Rightarrow> ('a kproc_scheme \<times> int) res" where
  "procnum_at i = (\<lambda>(s, num). Ok (s, if p_state (procs s ! i) \<noteq> UNUSED then num + 1 else num))"

definition procnum :: "'a kproc_scheme \<Rightarrow> int res" where
  "procnum s = bindR (foreach procnum_at 0 NPROC (s, 0)) (\<lambda>(s, num). Ok num)"

text \<open>A pointer to a process used as a sleep channel; null is no channel.\<close>

definition pchan :: "nat option \<Rightarrow> chan option" where
  "pchan p = map_option (Chan ''proc'') p"

definition reparent_at :: "nat \<Rightarrow> nat \<Rightarrow> 'a kproc_scheme \<Rightarrow> 'a kproc_scheme res" where
  "reparent_at p i s =
     (if p_parent (procs s ! i) = Some p
      then let s = upd_proc i (\<lambda>pp. pp\<lparr>p_parent := initproc s\<rparr>) s
           in wakeup (pchan (initproc s)) s
      else Ok s)"

definition reparent :: "nat \<Rightarrow> 'a kproc_scheme \<Rightarrow> 'a kproc_scheme res" where
  "reparent p s = foreach (reparent_at p) 0 NPROC s"

subsection \<open>Switching\<close>

text \<open>
  \<^verbatim>\<open>sched()\<close> up to its \<^verbatim>\<open>swtch\<close>.  \<^verbatim>\<open>noff\<close> is the number of locks held, and
  interrupts are off exactly because locks are held, so the fourth check of the source
  cannot fire.
\<close>

definition sched :: "'a kproc_scheme \<Rightarrow> 'a kproc_scheme res" where
  "sched s = bindR (myproc s) (\<lambda>i.
     if \<not> holding (plock i) s then Panic ''sched p->lock''
     else if length (held s) \<noteq> 1 then Panic ''sched locks''
     else if p_state (procs s ! i) = RUNNING then Panic ''sched running''
     else Ok s)"

definition yield_out :: "'a kproc_scheme \<Rightarrow> 'a kproc_scheme res" where
  "yield_out s = bindR (myproc s) (\<lambda>i.
     bindR (acquire (plock i) s) (\<lambda>s.
     sched (upd_proc i (\<lambda>p. p\<lparr>p_state := RUNNABLE\<rparr>) s)))"

definition yield_in :: "'a kproc_scheme \<Rightarrow> 'a kproc_scheme res" where
  "yield_in s = bindR (myproc s) (\<lambda>i. release (plock i) s)"

text \<open>\<^verbatim>\<open>sleep\<close> up to its switch, in the three parts another CPU can come between.\<close>

definition sleep_lock :: "'a kproc_scheme \<Rightarrow> 'a kproc_scheme res" where
  "sleep_lock s = bindR (myproc s) (\<lambda>i. acquire (plock i) s)"

definition sleep_switch :: "chan \<Rightarrow> 'a kproc_scheme \<Rightarrow> 'a kproc_scheme res" where
  "sleep_switch c s = bindR (myproc s) (\<lambda>i.
     sched (upd_proc i (\<lambda>p. p\<lparr>p_chan := Some c, p_state := SLEEPING\<rparr>) s))"

definition sleep_parts :: "chan \<Rightarrow> lockid \<Rightarrow> ('a kproc_scheme \<Rightarrow> 'a kproc_scheme res) list" where
  "sleep_parts c lk = [sleep_lock, release lk, sleep_switch c]"

definition sleep_out :: "chan \<Rightarrow> lockid \<Rightarrow> 'a kproc_scheme \<Rightarrow> 'a kproc_scheme res" where
  "sleep_out c lk s = foldl bindR (Ok s) (sleep_parts c lk)"

definition sleep_awake :: "'a kproc_scheme \<Rightarrow> 'a kproc_scheme res" where
  "sleep_awake s = bindR (myproc s) (\<lambda>i. release (plock i) (upd_proc i (\<lambda>p. p\<lparr>p_chan := None\<rparr>) s))"

definition sleep_in :: "lockid \<Rightarrow> 'a kproc_scheme \<Rightarrow> 'a kproc_scheme res" where
  "sleep_in lk s = bindR (sleep_awake s) (acquire lk)"

text \<open>The end of \<^verbatim>\<open>exit()\<close>, from \<^verbatim>\<open>acquire(&p->lock)\<close> to its switch.\<close>

definition exit_out :: "uint32 \<Rightarrow> 'a kproc_scheme \<Rightarrow> 'a kproc_scheme res" where
  "exit_out status s = bindR (myproc s) (\<lambda>i.
     bindR (acquire (plock i) s) (\<lambda>s.
     bindR (release wait_lock
              (upd_proc i (\<lambda>p. p\<lparr>p_xstate := status, p_state := ZOMBIE\<rparr>) s)) sched))"

text \<open>
  One round of the loop of \<^verbatim>\<open>scheduler()\<close> for slot \<open>i\<close>: \<open>True\<close> when it switches
  to the process (the lock stays held across the switch), and what the scheduler does
  when control comes back.
\<close>

definition scheduler_out :: "nat \<Rightarrow> 'a kproc_scheme \<Rightarrow> (bool \<times> 'a kproc_scheme) res" where
  "scheduler_out i s =
     bindR (acquire (plock i) s) (\<lambda>s.
     if p_state (procs s ! i) = RUNNABLE
     then Ok (True, (upd_proc i (\<lambda>p. p\<lparr>p_state := RUNNING\<rparr>) s)\<lparr>cur := Some i\<rparr>)
     else bindR (release (plock i) s) (\<lambda>s. Ok (False, s)))"

definition scheduler_in :: "nat \<Rightarrow> 'a kproc_scheme \<Rightarrow> 'a kproc_scheme res" where
  "scheduler_in i s = release (plock i) (s\<lparr>cur := None\<rparr>)"

subsection \<open>What the table operations compute\<close>

text \<open>No process lock is held that the loop over the table would take.\<close>

definition plocks_free :: "'a kproc_scheme \<Rightarrow> bool" where
  "plocks_free s \<longleftrightarrow> (\<forall>i<NPROC. cur s \<noteq> Some i \<longrightarrow> plock i \<notin> set (held s))"

definition wake :: "chan option \<Rightarrow> nat option \<Rightarrow> nat \<Rightarrow> proc \<Rightarrow> proc" where
  "wake c me i p = (if me \<noteq> Some i \<and> p_state p = SLEEPING \<and> p_chan p = c
                   then p\<lparr>p_state := RUNNABLE\<rparr> else p)"

definition wake_from :: "chan option \<Rightarrow> nat option \<Rightarrow> nat \<Rightarrow> proc list \<Rightarrow> proc list" where
  "wake_from c me k ps = map (\<lambda>i. if i < k then wake c me i (ps ! i) else ps ! i) [0..<length ps]"

lemma length_wake_from [simp]: "length (wake_from c me k ps) = length ps"
  by (simp add: wake_from_def)

lemma nth_wake_from: "i < length ps \<Longrightarrow>
    wake_from c me k ps ! i = (if i < k then wake c me i (ps ! i) else ps ! i)"
  by (simp add: wake_from_def)

lemma wake_from_0 [simp]: "wake_from c me 0 ps = ps"
  by (simp add: wake_from_def map_nth)

lemma wakeup_at_eq:
  assumes "plocks_free s" "i < NPROC" "length (procs s) = NPROC"
  shows "wakeup_at c i (s\<lparr>procs := wake_from c (cur s) i (procs s)\<rparr>) =
    Ok (s\<lparr>procs := wake_from c (cur s) (Suc i) (procs s)\<rparr>)"
proof -
  have eq: "(wake_from c (cur s) i (procs s))[i := wake c (cur s) i (procs s ! i)] =
      wake_from c (cur s) (Suc i) (procs s)"
    using assms(2,3) by (intro nth_equalityI) (auto simp: nth_wake_from nth_list_update)
  have i: "wake_from c (cur s) i (procs s) ! i = procs s ! i"
    using assms by (simp add: nth_wake_from)
  show ?thesis
  proof (cases "cur s = Some i")
    case True
    then have "wake_from c (cur s) (Suc i) (procs s) = wake_from c (cur s) i (procs s)"
      using eq i by (metis wake_def list_update_id)
    then show ?thesis using True by (simp add: wakeup_at_def)
  next
    case False
    then have "plock i \<notin> set (held s)" using assms by (simp add: plocks_free_def)
    then show ?thesis
      using False eq i
      by (auto simp: wakeup_at_def lock_simps upd_proc_def wake_def)
        (metis list_update_id)+
  qed
qed

lemma plocks_free_upd [simp]:
  "plocks_free (procs_update f s) = plocks_free s"
  by (simp add: plocks_free_def)

lemma foreach_wakeup:
  assumes "plocks_free s" "length (procs s) = NPROC" "i + n \<le> NPROC"
  shows "foreach (wakeup_at c) i n (s\<lparr>procs := wake_from c (cur s) i (procs s)\<rparr>) =
    Ok (s\<lparr>procs := wake_from c (cur s) (i + n) (procs s)\<rparr>)"
  using assms(3)
proof (induction n arbitrary: i)
  case (Suc n)
  then show ?case using wakeup_at_eq [OF assms(1) _ assms(2), of i c] Suc.IH [of "Suc i"] by simp
qed simp

lemma wakeup_eq:
  assumes "plocks_free s" "length (procs s) = NPROC"
  shows "wakeup c s = Ok (s\<lparr>procs := wake_from c (cur s) NPROC (procs s)\<rparr>)"
  using foreach_wakeup [OF assms, of 0 64 c] by (simp add: wakeup_def)

text \<open>\<^verbatim>\<open>kill\<close> flags the first process with the pid and takes it out of a sleep.\<close>

definition killed_proc :: "proc \<Rightarrow> proc" where
  "killed_proc p = p\<lparr>p_killed := True,
     p_state := (if p_state p = SLEEPING then RUNNABLE else p_state p)\<rparr>"

lemma kill_at_eq:
  assumes "plock i \<notin> set (held s)" "i < length (procs s)"
  shows "kill_at pid i s =
    (if p_pid (procs s ! i) = pid
     then Ok (Some 0, s\<lparr>procs := (procs s)[i := killed_proc (procs s ! i)]\<rparr>) else Ok (None, s))"
  using assms by (simp add: kill_at_def lock_simps upd_proc_def killed_proc_def Let_def)

lemma foreach_ret_kill:
  assumes "\<forall>i<NPROC. plock i \<notin> set (held s)" "length (procs s) = NPROC" "i + n \<le> NPROC"
  shows "foreach_ret (kill_at pid) i n s =
    (case find_from (\<lambda>p. p_pid p = pid) (procs s) i n of
       None \<Rightarrow> Ok (None, s)
     | Some j \<Rightarrow> Ok (Some 0, s\<lparr>procs := (procs s)[j := killed_proc (procs s ! j)]\<rparr>))"
  using assms(3)
proof (induction n arbitrary: i)
  case (Suc n)
  then show ?case using assms Suc.IH [of "Suc i"] by (simp add: kill_at_eq)
qed simp

lemma kill_eq:
  assumes "\<forall>i<NPROC. plock i \<notin> set (held s)" "length (procs s) = NPROC"
  shows "kill pid s =
    (case find_from (\<lambda>p. p_pid p = pid) (procs s) 0 NPROC of
       None \<Rightarrow> Ok (-1, s)
     | Some j \<Rightarrow> Ok (0, s\<lparr>procs := (procs s)[j := killed_proc (procs s ! j)]\<rparr>))"
  using foreach_ret_kill [OF assms, of 0 64 pid] by (simp add: kill_def split: option.split)

lemma foreach_procnum:
  "i + n \<le> length (procs s) \<Longrightarrow> foreach procnum_at i n (s, k) =
     Ok (s, k + int (length (filter (\<lambda>p. p_state p \<noteq> UNUSED) (take n (drop i (procs s))))))"
proof (induction n arbitrary: i k)
  case (Suc n)
  then show ?case using Suc.IH [of "Suc i"]
    by (auto simp: procnum_at_def Cons_nth_drop_Suc [symmetric])
qed simp

lemma procnum_eq:
  "length (procs s) = NPROC \<Longrightarrow>
    procnum s = Ok (int (length (filter (\<lambda>p. p_state p \<noteq> UNUSED) (procs s))))"
  using foreach_procnum [of 0 64 s 0] by (simp add: procnum_def)

lemma yield_out_eq:
  assumes "cur s = Some i" "held s = []" "i < length (procs s)"
  shows "yield_out s = Ok ((upd_proc i (\<lambda>p. p\<lparr>p_state := RUNNABLE\<rparr>) s)\<lparr>held := [plock i]\<rparr>)"
  using assms by (simp add: yield_out_def sched_def myproc_def lock_simps upd_proc_def holding_def)

lemma sleep_out_eq:
  assumes "cur s = Some i" "held s = [lk]" "lk \<noteq> plock i" "i < length (procs s)"
  shows "sleep_out c lk s =
    Ok ((upd_proc i (\<lambda>p. p\<lparr>p_chan := Some c, p_state := SLEEPING\<rparr>) s)\<lparr>held := [plock i]\<rparr>)"
  using assms by (simp add: sleep_out_def sleep_parts_def sleep_lock_def sleep_switch_def sched_def myproc_def lock_simps upd_proc_def holding_def)

lemma sleep_in_eq:
  assumes "cur s = Some i" "held s = [plock i]"
  shows "sleep_in lk s = Ok ((upd_proc i (\<lambda>p. p\<lparr>p_chan := None\<rparr>) s)\<lparr>held := [lk]\<rparr>)"
  using assms by (simp add: sleep_in_def sleep_awake_def myproc_def lock_simps upd_proc_def)

lemma exit_out_eq:
  assumes "cur s = Some i" "held s = [wait_lock]" "i < length (procs s)"
  shows "exit_out st s =
    Ok ((upd_proc i (\<lambda>p. p\<lparr>p_xstate := st, p_state := ZOMBIE\<rparr>) s)\<lparr>held := [plock i]\<rparr>)"
  using assms by (simp add: exit_out_def sched_def myproc_def lock_simps upd_proc_def holding_def)

lemma yield_in_eq:
  "cur s = Some i \<Longrightarrow> held s = [plock i] \<Longrightarrow> yield_in s = Ok (s\<lparr>held := []\<rparr>)"
  by (simp add: yield_in_def myproc_def lock_simps)

lemma scheduler_in_eq:
  "held s = [plock i] \<Longrightarrow> scheduler_in i s = Ok (s\<lparr>cur := None, held := []\<rparr>)"
  by (simp add: scheduler_in_def lock_simps)

lemma scheduler_out_eq:
  assumes "held s = []"
  shows "scheduler_out i s =
    (if p_state (procs s ! i) = RUNNABLE
     then Ok (True, (upd_proc i (\<lambda>p. p\<lparr>p_state := RUNNING\<rparr>) s)\<lparr>held := [plock i], cur := Some i\<rparr>)
     else Ok (False, s))"
  using assms by (simp add: scheduler_out_def lock_simps upd_proc_def)

subsection \<open>All CPUs together\<close>

text \<open>
  The kernel's threads on several CPUs: the process table is shared, each CPU has its own
  held locks and its own \<^verbatim>\<open>c->proc\<close>.  A CPU runs an operation on its view of the state,
  and takes a lock only when no other CPU has it.
\<close>

record smach =
  sh :: kproc
  sheld :: "nat \<Rightarrow> lockid list"
  scur :: "nat \<Rightarrow> nat option"

definition view :: "smach \<Rightarrow> nat \<Rightarrow> kproc" where
  "view s c = (sh s)\<lparr>held := sheld s c, cur := scur s c\<rparr>"

definition put :: "smach \<Rightarrow> nat \<Rightarrow> kproc \<Rightarrow> smach" where
  "put s c v = s\<lparr>sh := v, sheld := (sheld s)(c := held v), scur := (scur s)(c := cur v)\<rparr>"

definition lock_free :: "smach \<Rightarrow> lockid \<Rightarrow> bool" where
  "lock_free s l \<longleftrightarrow> (\<forall>c. l \<notin> set (sheld s c))"

definition is_plock :: "lockid \<Rightarrow> bool" where
  "is_plock l \<longleftrightarrow> (\<exists>i. l = plock i)"

text \<open>
  The remaining changes of a process's state are made by another process that holds its
  lock: \<^verbatim>\<open>allocproc\<close>, \<^verbatim>\<open>fork\<close> and \<^verbatim>\<open>freeproc\<close>.
\<close>

definition life_step :: "procstate \<Rightarrow> procstate \<Rightarrow> bool" where
  "life_step a b \<longleftrightarrow> (a, b) \<in> {(UNUSED, USED), (USED, RUNNABLE), (USED, UNUSED), (ZOMBIE, UNUSED)}"

inductive sched_step :: "smach \<Rightarrow> smach \<Rightarrow> bool" where
  dispatch: "sheld s c = [] \<Longrightarrow> scur s c = None \<Longrightarrow> i < NPROC \<Longrightarrow> lock_free s (plock i) \<Longrightarrow>
    scheduler_out i (view s c) = Ok (b, v) \<Longrightarrow> sched_step s (put s c v)"
| enter_yield: "scur s c = Some i \<Longrightarrow> sheld s c = [plock i] \<Longrightarrow> p_state (procs (sh s) ! i) = RUNNING \<Longrightarrow>
    yield_in (view s c) = Ok v \<Longrightarrow> sched_step s (put s c v)"
| enter_sleep: "scur s c = Some i \<Longrightarrow> sheld s c = [plock i] \<Longrightarrow> p_state (procs (sh s) ! i) = RUNNING \<Longrightarrow>
    \<not> is_plock lk \<Longrightarrow> lock_free s lk \<Longrightarrow>
    sleep_in lk (view s c) = Ok v \<Longrightarrow> sched_step s (put s c v)"
| yield: "scur s c = Some i \<Longrightarrow> sheld s c = [] \<Longrightarrow> lock_free s (plock i) \<Longrightarrow>
    yield_out (view s c) = Ok v \<Longrightarrow> sched_step s (put s c v)"
| sleep: "scur s c = Some i \<Longrightarrow> sheld s c = [lk] \<Longrightarrow> \<not> is_plock lk \<Longrightarrow> lock_free s (plock i) \<Longrightarrow>
    sleep_out ch lk (view s c) = Ok v \<Longrightarrow> sched_step s (put s c v)"
| zombie: "scur s c = Some i \<Longrightarrow> sheld s c = [wait_lock] \<Longrightarrow> lock_free s (plock i) \<Longrightarrow>
    exit_out st (view s c) = Ok v \<Longrightarrow> sched_step s (put s c v)"
| swtch_back: "scur s c = Some i \<Longrightarrow> sheld s c = [plock i] \<Longrightarrow> p_state (procs (sh s) ! i) \<noteq> RUNNING \<Longrightarrow>
    scheduler_in i (view s c) = Ok v \<Longrightarrow> sched_step s (put s c v)"
| lock: "scur s c = Some i \<Longrightarrow> plock i \<notin> set (sheld s c) \<Longrightarrow> \<not> is_plock lk \<Longrightarrow> lock_free s lk \<Longrightarrow>
    acquire lk (view s c) = Ok v \<Longrightarrow> sched_step s (put s c v)"
| unlock: "\<not> is_plock lk \<Longrightarrow> release lk (view s c) = Ok v \<Longrightarrow> sched_step s (put s c v)"
| wake: "i < NPROC \<Longrightarrow> lock_free s (plock i) \<Longrightarrow>
    wakeup_at ch i (view s c) = Ok v \<Longrightarrow> sched_step s (put s c v)"
| kill: "i < NPROC \<Longrightarrow> lock_free s (plock i) \<Longrightarrow>
    kill_at pid i (view s c) = Ok (r, v) \<Longrightarrow> sched_step s (put s c v)"
| life: "i < NPROC \<Longrightarrow> lock_free s (plock i) \<Longrightarrow> life_step (p_state (procs (sh s) ! i)) st \<Longrightarrow>
    p_state p = st \<Longrightarrow>
    sched_step s (s\<lparr>sh := upd_proc i (\<lambda>_. p) (sh s)\<rparr>)"

inductive sched_reach :: "smach \<Rightarrow> bool" where
  boot: "length (procs (sh s)) = NPROC \<Longrightarrow> \<forall>i<NPROC. p_state (procs (sh s) ! i) \<noteq> RUNNING \<Longrightarrow>
    \<forall>c. sheld s c = [] \<and> scur s c = None \<Longrightarrow> sched_reach s"
| step: "sched_reach s \<Longrightarrow> sched_step s t \<Longrightarrow> sched_reach t"

definition sinv :: "proc list \<Rightarrow> (nat \<Rightarrow> lockid list) \<Rightarrow> (nat \<Rightarrow> nat option) \<Rightarrow> bool" where
  "sinv ps H C \<longleftrightarrow> length ps = NPROC \<and>
     (\<forall>c d l. l \<in> set (H c) \<longrightarrow> l \<in> set (H d) \<longrightarrow> c = d) \<and>
     (\<forall>c j. plock j \<in> set (H c) \<longrightarrow> C c = Some j \<and> H c = [plock j]) \<and>
     (\<forall>c j. C c = Some j \<longrightarrow> j < NPROC \<and> (p_state (ps ! j) = RUNNING \<or> plock j \<in> set (H c))) \<and>
     (\<forall>c d j. C c = Some j \<longrightarrow> C d = Some j \<longrightarrow> c = d)"

lemma sinv_update:
  assumes inv: "sinv ps H C" "length ps' = NPROC"
    and new: "\<And>l d. l \<in> set h \<Longrightarrow> l \<notin> set (H c) \<Longrightarrow> l \<notin> set (H d)"
    and plk: "\<And>j. plock j \<in> set h \<Longrightarrow> k = Some j \<and> h = [plock j]"
    and cur: "\<And>j. k = Some j \<Longrightarrow> j < NPROC \<and> (p_state (ps' ! j) = RUNNING \<or> plock j \<in> set h)"
    and own: "\<And>j d. k = Some j \<Longrightarrow> C c \<noteq> Some j \<Longrightarrow> C d \<noteq> Some j"
    and oth: "\<And>j d. d \<noteq> c \<Longrightarrow> C d = Some j \<Longrightarrow> plock j \<notin> set (H d) \<Longrightarrow> p_state (ps' ! j) = RUNNING"
  shows "sinv ps' (H(c := h)) (C(c := k))"
proof -
  have "l \<in> set ((H(c := h)) a) \<Longrightarrow> l \<in> set ((H(c := h)) b) \<Longrightarrow> a = b" for l a b
    using inv new [of l] unfolding sinv_def by (auto split: if_splits)
  moreover have "plock j \<in> set ((H(c := h)) a) \<Longrightarrow> (C(c := k)) a = Some j \<and> (H(c := h)) a = [plock j]"
    for j a
    using inv plk [of j] unfolding sinv_def by (auto split: if_splits)
  moreover have "(C(c := k)) a = Some j \<Longrightarrow>
      j < NPROC \<and> (p_state (ps' ! j) = RUNNING \<or> plock j \<in> set ((H(c := h)) a))" for a j
    using inv cur [of j] oth [of a j] unfolding sinv_def by (auto split: if_splits)
  moreover have "(C(c := k)) a = Some j \<Longrightarrow> (C(c := k)) b = Some j \<Longrightarrow> a = b" for a b j
    using inv own [of j] unfolding sinv_def by (auto split: if_splits) metis+
  ultimately show ?thesis using inv(2) unfolding sinv_def by blast
qed

definition sched_inv :: "smach \<Rightarrow> bool" where
  "sched_inv s \<longleftrightarrow> sinv (procs (sh s)) (sheld s) (scur s)"

lemma sched_inv_put:
  "sched_inv (put s c v) \<longleftrightarrow> sinv (procs v) ((sheld s)(c := held v)) ((scur s)(c := cur v))"
  by (simp add: sched_inv_def put_def)

lemma view_simps [simp]:
  "held (view s c) = sheld s c" "cur (view s c) = scur s c" "procs (view s c) = procs (sh s)"
  by (simp_all add: view_def)

lemma upd_proc_simps [simp]:
  "held (upd_proc i f s) = held s" "cur (upd_proc i f s) = cur s"
  "procs (upd_proc i f s) = (procs s)[i := f (procs s ! i)]"
  "nextpid (upd_proc i f s) = nextpid s" "initproc (upd_proc i f s) = initproc s"
  "ticks (upd_proc i f s) = ticks s"
  by (simp_all add: upd_proc_def)

lemma sinvD:
  assumes "sinv ps H C"
  shows "length ps = NPROC"
    and "l \<in> set (H c) \<Longrightarrow> l \<in> set (H d) \<Longrightarrow> c = d"
    and "plock j \<in> set (H c) \<Longrightarrow> C c = Some j" and "plock j \<in> set (H c) \<Longrightarrow> H c = [plock j]"
    and "C c = Some j \<Longrightarrow> j < NPROC"
    and "C c = Some j \<Longrightarrow> plock j \<notin> set (H c) \<Longrightarrow> p_state (ps ! j) = RUNNING"
    and "C c = Some j \<Longrightarrow> C d = Some j \<Longrightarrow> c = d"
  using assms unfolding sinv_def by blast+

text \<open>A change of one process that leaves every CPU's locks and process alone.\<close>

lemma sinv_proc:
  assumes "sinv ps H C" "i < NPROC" "\<forall>c. plock i \<notin> set (H c)"
    and "p_state (ps ! i) = RUNNING \<Longrightarrow> p_state p = RUNNING"
  shows "sinv (ps[i := p]) H C"
proof -
  have "sinv (ps[i := p]) (H(c := H c)) (C(c := C c))" for c
    using assms sinvD [OF assms(1)]
    by (intro sinv_update) (auto simp: nth_list_update)
  then show ?thesis by simp
qed

text \<open>A CPU changes its process under that process's lock.\<close>

lemma sinv_own:
  assumes "sinv ps H C" "C c = Some i" "\<forall>d. d \<noteq> c \<longrightarrow> plock i \<notin> set (H d)"
  shows "sinv (ps[i := p]) (H(c := [plock i])) C"
proof -
  have "sinv (ps[i := p]) (H(c := [plock i])) (C(c := C c))"
    using assms sinvD [OF assms(1)]
    by (intro sinv_update) (auto simp: nth_list_update, metis)
  then show ?thesis by simp
qed

text \<open>A CPU changes only the locks it holds, none of them a process's.\<close>

lemma sinv_locks:
  assumes "sinv ps H C" "\<And>l. l \<in> set h \<Longrightarrow> \<not> is_plock l"
    and "\<And>l d. l \<in> set h \<Longrightarrow> l \<notin> set (H c) \<Longrightarrow> l \<notin> set (H d)"
    and "\<And>j. C c = Some j \<Longrightarrow> p_state (ps ! j) = RUNNING"
  shows "sinv ps (H(c := h)) C"
proof -
  have "sinv ps (H(c := h)) (C(c := C c))"
  proof (rule sinv_update [OF assms(1)])
    show "plock j \<in> set h \<Longrightarrow> C c = Some j \<and> h = [plock j]" for j
      using assms(2) by (auto simp: is_plock_def)
  qed (use assms(3,4) sinvD [OF assms(1)] in auto)
  then show ?thesis by simp
qed

lemma sinv_unlock:
  assumes "sinv ps H C" "\<not> is_plock l"
  shows "sinv ps (H(c := remove1 l (H c))) C"
proof (cases "l \<in> set (H c)")
  case True
  then have *: "plock j \<notin> set (H c)" for j
    using assms(2) sinvD(4) [OF assms(1), of j c] by (auto simp: is_plock_def)
  have "\<not> is_plock k" if "k \<in> set (remove1 l (H c))" for k
    using that * set_remove1_subset [of l "H c"] by (auto simp: is_plock_def)
  moreover have "k \<in> set (H c)" if "k \<in> set (remove1 l (H c))" for k
    using that set_remove1_subset [of l "H c"] by auto
  ultimately show ?thesis
    using * sinvD(6) [OF assms(1)] by (intro sinv_locks [OF assms(1)]) auto
next
  case False
  then show ?thesis using assms(1) by (simp add: remove1_idem)
qed

lemma sched_inv_boot:
  assumes "length (procs (sh s)) = NPROC" "\<forall>c. sheld s c = [] \<and> scur s c = None"
  shows "sched_inv s"
  using assms by (auto simp: sched_inv_def sinv_def)


lemma inv_index: "sched_inv s \<Longrightarrow> scur s c = Some i \<Longrightarrow> i < length (procs (sh s))"
  using sinvD(1,5) [of "procs (sh s)" "sheld s" "scur s"] by (simp add: sched_inv_def)

text \<open>A CPU switches to a process that no CPU is running.\<close>

lemma inv_dispatch:
  assumes "sched_inv s" "sheld s c = []" "i < NPROC" "lock_free s (plock i)"
    and "scheduler_out i (view s c) = Ok (b, v)"
  shows "sched_inv (put s c v)"
proof (cases "p_state (procs (sh s) ! i) = RUNNABLE")
  case True
  note inv = assms(1) [unfolded sched_inv_def]
  have *: "scur s d \<noteq> Some i" for d
    using sinvD(6) [OF inv, of d i] True assms by (auto simp: lock_free_def)
  have "sinv ((procs (sh s))[i := p]) ((sheld s)(c := [plock i])) ((scur s)(c := Some i))" for p
    using inv sinvD [OF inv] assms(2-4) *
    by (intro sinv_update) (auto simp: nth_list_update lock_free_def)
  with True assms(2,5) show ?thesis by (auto simp: sched_inv_put scheduler_out_eq)
next
  case False
  with assms show ?thesis by (auto simp: sched_inv_def put_def scheduler_out_eq fun_upd_idem)
qed

text \<open>A CPU leaves its process: \<^verbatim>\<open>yield\<close>, \<^verbatim>\<open>sleep\<close> and \<^verbatim>\<open>exit\<close> end alike.\<close>

lemma inv_leave:
  assumes "sched_inv s" "scur s c = Some i" "lock_free s (plock i)"
  shows "sched_inv (put s c ((upd_proc i f (view s c))\<lparr>held := [plock i]\<rparr>))"
  using sinv_own [OF assms(1) [unfolded sched_inv_def] assms(2)] assms(2,3)
  by (simp add: sched_inv_put fun_upd_idem lock_free_def)

text \<open>The process goes on after the switch.\<close>

lemma inv_enter:
  assumes inv: "sched_inv s" and c: "scur s c = Some i" "sheld s c = [plock i]"
    and "p_state (procs (sh s) ! i) = RUNNING" "\<And>p. p_state (f p) = p_state p"
    and h: "\<And>l. l \<in> set h \<Longrightarrow> \<not> is_plock l \<and> lock_free s l"
  shows "sched_inv (put s c ((upd_proc i f (view s c))\<lparr>held := h\<rparr>))"
proof -
  let ?ps = "(procs (sh s))[i := f (procs (sh s) ! i)]"
  note sinv = inv [unfolded sched_inv_def]
  have "sinv ?ps ((sheld s)(c := [plock i])) (scur s)"
    using c sinvD(2) [OF sinv, of "plock i" c] by (intro sinv_own [OF sinv]) auto
  then have "sinv ?ps (sheld s) (scur s)" using c by (simp add: fun_upd_idem)
  then have "sinv ?ps ((sheld s)(c := h)) (scur s)"
    using assms(2-5) h inv_index [OF inv c(1)] by (intro sinv_locks) (auto simp: lock_free_def)
  then show ?thesis using c by (simp add: sched_inv_put fun_upd_idem)
qed

lemma inv_return:
  assumes "sched_inv s" "scur s c = Some i" "sheld s c = [plock i]"
  shows "sched_inv (put s c ((view s c)\<lparr>cur := None, held := []\<rparr>))"
  using assms(2,3) sinvD [OF assms(1) [unfolded sched_inv_def]]
  by (simp add: sched_inv_put, intro sinv_update [OF assms(1) [unfolded sched_inv_def]]) auto

lemma inv_lock:
  assumes "sched_inv s" "scur s c = Some i" "plock i \<notin> set (sheld s c)" "\<not> is_plock lk" "lock_free s lk"
  shows "sched_inv (put s c ((view s c)\<lparr>held := lk # sheld s c\<rparr>))"
proof -
  note inv = assms(1) [unfolded sched_inv_def]
  have "plock j \<notin> set (sheld s c)" for j using sinvD(3) [OF inv, of j c] assms(2,3) by auto
  then have "sinv (procs (sh s)) ((sheld s)(c := lk # sheld s c)) (scur s)"
    using assms(4,5) sinvD(6) [OF inv]
    by (intro sinv_locks [OF inv]) (auto simp: is_plock_def lock_free_def)
  then show ?thesis by (simp add: sched_inv_put fun_upd_idem)
qed

text \<open>Another process is changed under its lock, and not its \<open>RUNNING\<close> state.\<close>

lemma inv_other:
  assumes "sched_inv s" "i < NPROC" "lock_free s (plock i)"
    and "p_state (procs (sh s) ! i) = RUNNING \<Longrightarrow> p_state (f (procs (sh s) ! i)) = RUNNING"
  shows "sched_inv (put s c (upd_proc i f (view s c)))"
  using assms sinv_proc [OF assms(1) [unfolded sched_inv_def] assms(2)]
  by (auto simp: sched_inv_put fun_upd_idem lock_free_def)

lemma wakeup_at_view:
  assumes "wakeup_at ch i (view s c) = Ok v" "lock_free s (plock i)"
  shows "v = upd_proc i (wake ch (scur s c) i) (view s c)"
  using assms
  by (auto simp: wakeup_at_def lock_simps lock_free_def upd_proc_def wake_def split: if_splits)

lemma kill_at_view:
  assumes "kill_at pid i (view s c) = Ok (r, v)" "lock_free s (plock i)" "i < length (procs (sh s))"
  shows "v = upd_proc i (\<lambda>p. if p_pid p = pid then killed_proc p else p) (view s c)"
  using assms by (auto simp: kill_at_eq lock_free_def upd_proc_def split: if_splits)

lemma sched_step_inv:
  assumes "sched_step s t" "sched_inv s"
  shows "sched_inv t"
  using assms
proof (induction rule: sched_step.induct)
  case (enter_yield s c i v)
  then have "v = (upd_proc i id (view s c))\<lparr>held := []\<rparr>" by (auto simp: yield_in_eq upd_proc_def view_def)
  then show ?case using inv_enter [of s c i id "[]"] enter_yield by simp
next
  case (enter_sleep s c i lk v)
  then show ?case using inv_enter [of s c i _ "[lk]"] by (auto simp: sleep_in_eq)
next
  case (yield s c i v)
  then show ?case using inv_leave inv_index by (auto simp: yield_out_eq)
next
  case (sleep s c i lk ch v)
  moreover have "lk \<noteq> plock i" using sleep.hyps by (auto simp: is_plock_def)
  ultimately show ?case using inv_leave inv_index by (auto simp: sleep_out_eq)
next
  case (zombie s c i st v)
  then show ?case using inv_leave inv_index by (auto simp: exit_out_eq)
next
  case (unlock lk s c v)
  then show ?case using sinv_unlock [of "procs (sh s)" "sheld s" "scur s" lk c]
    by (simp add: put_def release_eq_Ok sched_inv_def fun_upd_idem)
next
  case (wake i s ch c v)
  then show ?case using inv_other by (auto simp: wake_def dest!: wakeup_at_view)
next
  case (kill i s pid c r v)
  moreover have "i < length (procs (sh s))"
    using sinvD(1) [of "procs (sh s)"] kill by (auto simp: sched_inv_def)
  ultimately show ?case using inv_other by (auto simp: killed_proc_def dest!: kill_at_view)
next
  case (life i s st p)
  then show ?case by (auto simp: sched_inv_def lock_free_def life_step_def intro!: sinv_proc)
qed (auto simp: scheduler_in_eq acquire_eq_Ok intro: inv_dispatch inv_return inv_lock)

lemma sched_reach_inv: "sched_reach s \<Longrightarrow> sched_inv s"
  by (induction rule: sched_reach.induct) (simp_all add: sched_inv_boot sched_step_inv)

lemma put_simps [simp]:
  "sh (put s c v) = v" "sheld (put s c v) = (sheld s)(c := held v)"
  "scur (put s c v) = (scur s)(c := cur v)"
  by (simp_all add: put_def)

subsection \<open>Boot\<close>

text \<open>The process table in \<^verbatim>\<open>.bss\<close>, and \<^verbatim>\<open>procinit\<close>, whose \<^verbatim>\<open>initlock\<close> calls leave every lock free.\<close>

definition bss_proc :: proc where
  "bss_proc = \<lparr>p_state = UNUSED, p_chan = None, p_killed = False, p_xstate = 0, p_pid = 0,
     p_parent = None, p_kstack = 0, p_sz = 0, p_pagetable = 0, p_trapframe = 0,
     p_context = \<lparr>ctx_ra = 0, ctx_sp = 0, ctx_s = replicate 12 0\<rparr>, p_ofile = replicate NOFILE None,
     p_cwd = None, p_name = replicate 16 0, p_trace_mask = 0\<rparr>"

lemma bss_proc_state [simp]: "p_state bss_proc = UNUSED"
  by (simp add: bss_proc_def)

definition procinit_at :: "nat \<Rightarrow> 'a kproc_scheme \<Rightarrow> 'a kproc_scheme res" where
  "procinit_at i s = Ok (upd_proc i (\<lambda>p. p\<lparr>p_kstack := KSTACK i\<rparr>) s)"

definition procinit :: "'a kproc_scheme \<Rightarrow> 'a kproc_scheme res" where
  "procinit s = foreach procinit_at 0 NPROC s"

definition bss_kproc :: kproc where
  "bss_kproc = \<lparr>held = [], procs = replicate NPROC bss_proc, cur = None, nextpid = 1,
     initproc = None, ticks = 0\<rparr>"

subsection \<open>Properties\<close>


definition one_runnable :: smach where
  "one_runnable = \<lparr>sh = bss_kproc\<lparr>procs := (replicate NPROC bss_proc)[3 := bss_proc\<lparr>p_state := RUNNABLE\<rparr>]\<rparr>,
     sheld = \<lambda>_. [], scur = \<lambda>_. None\<rparr>"

lemma one_runnable_step:
  "\<exists>t. sched_step one_runnable t \<and> scur t 0 = Some 3"
proof -
  let ?v = "bss_kproc\<lparr>procs := (replicate NPROC bss_proc)[3 := bss_proc\<lparr>p_state := RUNNING\<rparr>],
    held := [plock 3], cur := Some 3\<rparr>"
  have "sched_step one_runnable (put one_runnable 0 ?v)"
    by (rule dispatch [where i = 3 and b = True])
      (simp_all add: one_runnable_def lock_free_def scheduler_out_eq view_def upd_proc_def bss_kproc_def)
  then show ?thesis by (intro exI [of _ "put one_runnable 0 ?v"]) simp
qed


end
