(* ===== verification/Wakeup.thy ===== *)
theory Wakeup
  imports Sched
begin

section \<open>\<^verbatim>\<open>sleep\<close> and \<^verbatim>\<open>wakeup\<close> lose no wakeup\<close>

subsection \<open>Sleeping and waking without losing a wakeup\<close>

text \<open>
  The idiom of every blocking kernel routine.  A process \<open>p\<close> on CPU 0 runs
  \<^verbatim>\<open>acquire(lk); while(!cond) sleep(ch, lk); release(lk)\<close>, the others, one per
  further CPU, run \<^verbatim>\<open>acquire(lk); cond = 1; wakeup(ch); release(lk)\<close> or take the
  condition back under the lock.  The steps are the parts of \<^verbatim>\<open>sleep\<close>, in the order
  \<open>sleep_parts\<close> has them, and the round
  of \<^verbatim>\<open>wakeup\<close> that reaches \<open>p\<close>; after \<open>S_off\<close> the CPU is back in its scheduler.
\<close>

datatype spc = S_try | S_test | S_locked | S_unlocked | S_switched | S_off | S_on | S_done
datatype wpc = W_idle | W_in | W_set | W_out

record lwm =
  lm :: smach
  cond :: bool
  spc :: spc
  wpc :: "nat \<Rightarrow> wpc"

definition lw_lk :: lockid where "lw_lk = Lock ''lk'' 0"
definition lw_ch :: chan where "lw_ch = Chan ''ch'' 0"

text \<open>A CPU goes on to \<open>v\<close>: every lock it takes is one that no CPU holds.\<close>

definition grabs :: "smach \<Rightarrow> nat \<Rightarrow> kproc \<Rightarrow> bool" where
  "grabs m c v \<longleftrightarrow> (\<forall>l\<in>set (held v) - set (sheld m c). lock_free m l)"

inductive lw_step :: "nat \<Rightarrow> lwm \<Rightarrow> lwm \<Rightarrow> bool" for p where
  s_lock: "spc s = S_try \<Longrightarrow> lock_free (lm s) lw_lk \<Longrightarrow> acquire lw_lk (view (lm s) 0) = Ok v \<Longrightarrow>
    lw_step p s (s\<lparr>lm := put (lm s) 0 v, spc := S_test\<rparr>)"
| s_done: "spc s = S_test \<Longrightarrow> cond s \<Longrightarrow> release lw_lk (view (lm s) 0) = Ok v \<Longrightarrow>
    lw_step p s (s\<lparr>lm := put (lm s) 0 v, spc := S_done\<rparr>)"
| s_sleep: "spc s = S_test \<Longrightarrow> \<not> cond s \<Longrightarrow> (sleep_parts lw_ch lw_lk ! 0) (view (lm s) 0) = Ok v \<Longrightarrow> grabs (lm s) 0 v \<Longrightarrow>
    lw_step p s (s\<lparr>lm := put (lm s) 0 v, spc := S_locked\<rparr>)"
| s_unlock: "spc s = S_locked \<Longrightarrow> (sleep_parts lw_ch lw_lk ! 1) (view (lm s) 0) = Ok v \<Longrightarrow> grabs (lm s) 0 v \<Longrightarrow>
    lw_step p s (s\<lparr>lm := put (lm s) 0 v, spc := S_unlocked\<rparr>)"
| s_switch: "spc s = S_unlocked \<Longrightarrow> (sleep_parts lw_ch lw_lk ! 2) (view (lm s) 0) = Ok v \<Longrightarrow> grabs (lm s) 0 v \<Longrightarrow>
    lw_step p s (s\<lparr>lm := put (lm s) 0 v, spc := S_switched\<rparr>)"
| s_off: "spc s = S_switched \<Longrightarrow> scheduler_in p (view (lm s) 0) = Ok v \<Longrightarrow>
    lw_step p s (s\<lparr>lm := put (lm s) 0 v, spc := S_off\<rparr>)"
| s_on: "spc s = S_off \<Longrightarrow> lock_free (lm s) (plock p) \<Longrightarrow>
    scheduler_out p (view (lm s) 0) = Ok (True, v) \<Longrightarrow>
    lw_step p s (s\<lparr>lm := put (lm s) 0 v, spc := S_on\<rparr>)"
| s_awake: "spc s = S_on \<Longrightarrow> sleep_awake (view (lm s) 0) = Ok v \<Longrightarrow>
    lw_step p s (s\<lparr>lm := put (lm s) 0 v, spc := S_try\<rparr>)"
| w_lock: "wpc s w = W_idle \<Longrightarrow> lock_free (lm s) lw_lk \<Longrightarrow>
    acquire lw_lk (view (lm s) (Suc w)) = Ok v \<Longrightarrow>
    lw_step p s (s\<lparr>lm := put (lm s) (Suc w) v, wpc := (wpc s)(w := W_in)\<rparr>)"
| w_set: "wpc s w = W_in \<Longrightarrow>
    lw_step p s (s\<lparr>cond := True, wpc := (wpc s)(w := W_set)\<rparr>)"
| w_take: "wpc s w = W_in \<Longrightarrow>
    lw_step p s (s\<lparr>cond := False, wpc := (wpc s)(w := W_out)\<rparr>)"
| w_wake: "wpc s w = W_set \<Longrightarrow> lock_free (lm s) (plock p) \<Longrightarrow>
    wakeup_at (Some lw_ch) p (view (lm s) (Suc w)) = Ok v \<Longrightarrow>
    lw_step p s (s\<lparr>lm := put (lm s) (Suc w) v, wpc := (wpc s)(w := W_out)\<rparr>)"
| w_unlock: "wpc s w = W_out \<Longrightarrow> release lw_lk (view (lm s) (Suc w)) = Ok v \<Longrightarrow>
    lw_step p s (s\<lparr>lm := put (lm s) (Suc w) v, wpc := (wpc s)(w := W_idle)\<rparr>)"

inductive lw_reach :: "nat \<Rightarrow> lwm \<Rightarrow> bool" for p where
  lw_boot: "spc s = S_try \<Longrightarrow> \<forall>w. wpc s w = W_idle \<Longrightarrow> p < length (procs (sh (lm s))) \<Longrightarrow>
    p_state (procs (sh (lm s)) ! p) = RUNNING \<Longrightarrow>
    \<forall>c. sheld (lm s) c = [] \<Longrightarrow> scur (lm s) 0 = Some p \<Longrightarrow> \<forall>w. scur (lm s) (Suc w) \<noteq> Some p \<Longrightarrow>
    lw_reach p s"
| lw_next: "lw_reach p s \<Longrightarrow> lw_step p s t \<Longrightarrow> lw_reach p t"

fun s_locks :: "nat \<Rightarrow> spc \<Rightarrow> lockid list" where
  "s_locks p S_test = [lw_lk]"
| "s_locks p S_locked = [plock p, lw_lk]"
| "s_locks p S_unlocked = [plock p]"
| "s_locks p S_switched = [plock p]"
| "s_locks p S_on = [plock p]"
| "s_locks p _ = []"

definition w_locks :: "wpc \<Rightarrow> lockid list" where
  "w_locks w = (if w = W_idle then [] else [lw_lk])"

definition lw_inv :: "nat \<Rightarrow> lwm \<Rightarrow> bool" where
  "lw_inv p s \<longleftrightarrow> p < length (procs (sh (lm s))) \<and>
     sheld (lm s) 0 = s_locks p (spc s) \<and> (\<forall>w. sheld (lm s) (Suc w) = w_locks (wpc s w)) \<and>
     scur (lm s) 0 = (if spc s = S_off then None else Some p) \<and>
     (\<forall>w. scur (lm s) (Suc w) \<noteq> Some p) \<and>
     (lw_lk \<in> set (s_locks p (spc s)) \<longrightarrow> (\<forall>w. wpc s w = W_idle)) \<and>
     (\<exists>w k. wpc s = (\<lambda>_. W_idle)(w := k)) \<and>
     (p_state (procs (sh (lm s)) ! p) = SLEEPING \<longrightarrow>
        spc s \<in> {S_switched, S_off} \<and> p_chan (procs (sh (lm s)) ! p) = Some lw_ch) \<and>
     (spc s = S_locked \<longrightarrow> \<not> cond s) \<and>
     (spc s \<in> {S_unlocked, S_switched} \<or> p_state (procs (sh (lm s)) ! p) = SLEEPING \<longrightarrow> cond s \<longrightarrow>
        (\<exists>w. wpc s w = W_set))"

lemma lw_lk_plock [simp]: "lw_lk \<noteq> plock p" "plock p \<noteq> lw_lk"
  by (simp_all add: lw_lk_def)

lemma lw_invD:
  assumes "lw_inv p s"
  shows "p < length (procs (sh (lm s)))" "sheld (lm s) 0 = s_locks p (spc s)"
    and "sheld (lm s) (Suc w) = w_locks (wpc s w)"
    and "lw_lk \<in> set (s_locks p (spc s)) \<Longrightarrow> wpc s w = W_idle"
    and "\<exists>v k. wpc s = (\<lambda>_. W_idle)(v := k)"
  using assms unfolding lw_inv_def by (elim conjE, blast)+

lemma lw_lk_free:
  assumes "lw_inv p s" "lock_free (lm s) lw_lk"
  shows "wpc s = (\<lambda>_. W_idle)" "lw_lk \<notin> set (s_locks p (spc s))"
proof -
  have "wpc s w = W_idle" for w
    using spec [OF assms(2) [unfolded lock_free_def], of "Suc w"] lw_invD(3) [OF assms(1), of w]
    by (simp add: w_locks_def split: if_splits)
  then show "wpc s = (\<lambda>_. W_idle)" by blast
  show "lw_lk \<notin> set (s_locks p (spc s))"
    using spec [OF assms(2) [unfolded lock_free_def], of 0] lw_invD(2) [OF assms(1)] by simp
qed

lemma lw_plock_free:
  assumes "lw_inv p s" "lock_free (lm s) (plock p)"
  shows "plock p \<notin> set (s_locks p (spc s))"
  using spec [OF assms(2) [unfolded lock_free_def], of 0] lw_invD(2) [OF assms(1)] by simp

lemma lw_one_waker:
  assumes "lw_inv p s" "wpc s w = k" "k \<noteq> W_idle"
  shows "wpc s = (\<lambda>_. W_idle)(w := k)" "lw_lk \<notin> set (s_locks p (spc s))"
proof -
  show "wpc s = (\<lambda>_. W_idle)(w := k)"
    using lw_invD(5) [OF assms(1)] assms(2,3) by (auto split: if_splits)
  show "lw_lk \<notin> set (s_locks p (spc s))" using lw_invD(4) [OF assms(1), of w] assms(2,3) by auto
qed

lemma lw_waker_inv:
  assumes inv: "lw_inv p s" and w: "wpc s w = k" "k \<noteq> W_idle"
    and v: "held v = w_locks k'" "cur v = scur (lm s) (Suc w)" "length (procs v) = length (procs (sh (lm s)))"
      "procs v ! p = procs (sh (lm s)) ! p \<or> p_state (procs v ! p) \<noteq> SLEEPING"
    and c: "spc s \<in> {S_unlocked, S_switched} \<or> p_state (procs v ! p) = SLEEPING \<Longrightarrow> cond s \<Longrightarrow> k' = W_set"
  shows "lw_inv p (s\<lparr>lm := put (lm s) (Suc w) v, wpc := (wpc s)(w := k')\<rparr>)"
proof -
  have one: "wpc s = (\<lambda>_. W_idle)(w := k)" using lw_one_waker(1) [OF inv w] .
  have lk: "lw_lk \<notin> set (s_locks p (spc s))" using lw_one_waker(2) [OF inv w] .
  have h: "\<forall>x. (\<lambda>c. if c = Suc w then w_locks k' else sheld (lm s) c) (Suc x) = w_locks (((\<lambda>_. W_idle)(w := k')) x)"
    using lw_invD(3) [OF inv] one by (auto simp: w_locks_def split: if_splits)
  have e: "\<exists>x l. (\<lambda>_. W_idle)(w := k') = (\<lambda>_. W_idle)(x := l)" by blast
  from inv show ?thesis
    unfolding lw_inv_def using one lk h e v c
    by (elim conjE, intro conjI) (simp_all, metis)
qed

lemma lw_step_inv:
  assumes "lw_step p s t" "lw_inv p s"
  shows "lw_inv p t"
  using assms(1)
proof (cases rule: lw_step.cases)
  case (s_lock v)
  then show ?thesis using assms(2) lw_lk_free [OF assms(2)]
    by (auto simp: lw_inv_def acquire_eq_Ok)
next
  case (s_done v)
  then show ?thesis using assms(2) by (auto simp: lw_inv_def release_eq_Ok)
next
  case (s_sleep v)
  then show ?thesis using assms(2)
    by (auto simp: lw_inv_def sleep_parts_def sleep_lock_def myproc_def acquire_eq_Ok)
next
  case (s_unlock v)
  then show ?thesis using assms(2) by (auto simp: lw_inv_def sleep_parts_def release_eq_Ok)
next
  case (s_switch v)
  then show ?thesis using assms(2)
    by (auto simp: lw_inv_def sleep_parts_def sleep_switch_def sched_def myproc_def split: if_splits)
next
  case (s_off v)
  then show ?thesis using assms(2) by (auto simp: lw_inv_def scheduler_in_eq)
next
  case (s_on v)
  then show ?thesis using assms(2) by (auto simp: lw_inv_def scheduler_out_eq split: if_splits)
next
  case (s_awake v)
  then show ?thesis using assms(2)
    by (auto simp: lw_inv_def sleep_awake_def myproc_def release_eq_Ok split: if_splits)
next
  case (w_lock w v)
  then show ?thesis using assms(2) lw_lk_free [OF assms(2)]
    by (auto simp: lw_inv_def acquire_eq_Ok w_locks_def)
next
  case (w_set w)
  have "wpc s = (\<lambda>_. W_idle)(w := W_in)" "lw_lk \<notin> set (s_locks p (spc s))"
    using lw_one_waker [OF assms(2) w_set(2)] by blast+
  then show ?thesis using assms(2) w_set by (auto simp: lw_inv_def w_locks_def)
next
  case (w_take w)
  have "wpc s = (\<lambda>_. W_idle)(w := W_in)" "lw_lk \<notin> set (s_locks p (spc s))"
    using lw_one_waker [OF assms(2) w_take(2)] by blast+
  then show ?thesis using assms(2) w_take by (auto simp: lw_inv_def w_locks_def)
next
  case (w_wake w v)
  have v: "v = upd_proc p (wake (Some lw_ch) (scur (lm s) (Suc w)) p) (view (lm s) (Suc w))"
    using wakeup_at_view w_wake by blast
  have f: "p < length (procs (sh (lm s)))" "scur (lm s) (Suc w) \<noteq> Some p"
    "p_state (procs (sh (lm s)) ! p) = SLEEPING \<longrightarrow> p_chan (procs (sh (lm s)) ! p) = Some lw_ch"
    using assms(2) unfolding lw_inv_def by (elim conjE, blast)+
  have "spc s \<notin> {S_unlocked, S_switched}" using lw_plock_free [OF assms(2) w_wake(3)] by auto
  moreover have "p_state (procs v ! p) \<noteq> SLEEPING" using f by (auto simp: v wake_def)
  ultimately show ?thesis using w_wake(1,2) lw_waker_inv [OF assms(2) w_wake(2), of v W_out] lw_invD(3) [OF assms(2), of w]
    by (auto simp: v w_locks_def)
next
  case (w_unlock w v)
  have "\<nexists>x. wpc s x = W_set"
    using lw_one_waker(1) [OF assms(2) w_unlock(2)] by simp
  then show ?thesis
    using w_unlock assms(2) lw_waker_inv [OF assms(2) w_unlock(2), of v W_idle] lw_invD(3) [OF assms(2), of w]
    by (auto simp: release_eq_Ok w_locks_def lw_inv_def [of p s])
qed

lemma lw_reach_inv: "lw_reach p s \<Longrightarrow> lw_inv p s"
proof (induction rule: lw_reach.induct)
  case (lw_boot s)
  then have "wpc s = (\<lambda>_. W_idle)(0 := W_idle)" by auto
  with lw_boot show ?case unfolding lw_inv_def by (auto simp: w_locks_def)
qed (simp add: lw_step_inv)

subsection \<open>The property\<close>

text \<open>
  C9: No wakeup is lost.  Whenever the process is asleep on the channel although its
  condition has become true, the waker that made it true still holds the lock and has the
  wakeup before it, and that wakeup makes the process runnable.  (Were the condition's
  lock released before the process's lock is taken, the wakeup could come too early.)
\<close>

theorem no_lost_wakeup:
  assumes "lw_reach p s" "p_state (procs (sh (lm s)) ! p) = SLEEPING" "cond s"
  shows "\<exists>w v. wpc s w = W_set \<and> lw_lk \<in> set (sheld (lm s) (Suc w)) \<and>
    wakeup_at (Some lw_ch) p (view (lm s) (Suc w)) = Ok v \<and> p_state (procs v ! p) = RUNNABLE"
proof -
  note inv = lw_reach_inv [OF assms(1)]
  obtain w where w: "wpc s w = W_set" using inv assms unfolding lw_inv_def by blast
  have "sheld (lm s) (Suc w) = [lw_lk]" using lw_invD(3) [OF inv, of w] w by (simp add: w_locks_def)
  moreover have "scur (lm s) (Suc w) \<noteq> Some p" "p < length (procs (sh (lm s)))"
    "p_chan (procs (sh (lm s)) ! p) = Some lw_ch"
    using inv assms(2) unfolding lw_inv_def by blast+
  ultimately show ?thesis using w assms(2)
    by (intro exI [of _ w]) (simp add: wakeup_at_def lock_simps upd_proc_def)
qed

definition lw_start :: lwm where
  "lw_start = \<lparr>lm = \<lparr>sh = bss_kproc\<lparr>procs := [bss_proc\<lparr>p_state := RUNNING\<rparr>]\<rparr>, sheld = \<lambda>_. [],
     scur = (\<lambda>_. None)(0 := Some 0)\<rparr>, cond = False, spc = S_try, wpc = \<lambda>_. W_idle\<rparr>"

lemmas lw_run_simps = sleep_parts_def grabs_def view_def put_def lock_free_def acquire_eq_Ok release_eq_Ok sleep_lock_def
  sleep_switch_def sched_def holding_def myproc_def upd_proc_def scheduler_in_def lw_start_def bss_kproc_def

lemma lw_sleeps: "\<exists>t. lw_reach 0 t \<and> p_state (procs (sh (lm t)) ! 0) = SLEEPING \<and> cond t"
proof -
  have 0: "lw_reach 0 lw_start" by (rule lw_boot) (simp_all add: lw_start_def)
  note 1 = lw_next [OF 0 s_lock, simplified lw_run_simps, simplified, OF refl]
  note 2 = lw_next [OF 1 s_sleep, simplified lw_run_simps, simplified, simplified lw_run_simps, simplified, simplified lw_run_simps, simplified, OF refl]
  note 3 = lw_next [OF 2 s_unlock, simplified lw_run_simps, simplified, simplified lw_run_simps, simplified, simplified lw_run_simps, simplified, OF refl]
  note 4 = lw_next [OF 3 s_switch, simplified lw_run_simps, simplified, simplified lw_run_simps, simplified, simplified lw_run_simps, simplified, OF refl]
  note 5 = lw_next [OF 4 s_off, simplified lw_run_simps, simplified, simplified lw_run_simps, simplified, OF refl]
  note 6 = lw_next [OF 5 w_lock [where w = 0], simplified lw_run_simps, simplified, simplified lw_run_simps, simplified, OF refl]
  note 7 = lw_next [OF 6 w_set [where w = 0], simplified]
  show ?thesis by (intro exI conjI, rule 7) simp_all
qed

theorem no_lost_wakeup_witness:
  "\<exists>t w v. lw_reach 0 t \<and> p_state (procs (sh (lm t)) ! 0) = SLEEPING \<and> cond t \<and> wpc t w = W_set \<and>
     wakeup_at (Some lw_ch) 0 (view (lm t) (Suc w)) = Ok v \<and> p_state (procs v ! 0) = RUNNABLE"
  using lw_sleeps no_lost_wakeup by blast

end
