(* ===== verification/Physmem.thy ===== *)
theory Physmem
  imports Riscv Kstring
begin

section \<open>Words and pages in physical memory\<close>

text \<open>
  Reading and storing byte ranges and 64-bit words in the byte memory of
  \<^verbatim>\<open>Kstring\<close>, and the arithmetic that keeps accesses to different pages, or to
  different words of a page, apart.
\<close>

subsection \<open>Byte ranges\<close>

definition mem_get :: "mem \<Rightarrow> uint64 \<Rightarrow> nat \<Rightarrow> uint8 list" where
  "mem_get m a n = map (\<lambda>i. m (a + of_nat i)) [0..<n]"

definition mem_put :: "mem \<Rightarrow> uint64 \<Rightarrow> uint8 list \<Rightarrow> mem" where
  "mem_put m a bs = (\<lambda>x. if unat (x - a) < length bs then bs ! unat (x - a) else m x)"

definition load64 :: "mem \<Rightarrow> uint64 \<Rightarrow> uint64" where
  "load64 m a = le_cat (mem_get m a 8)"

definition store64 :: "mem \<Rightarrow> uint64 \<Rightarrow> uint64 \<Rightarrow> mem" where
  "store64 m a w = mem_put m a (le_bytes 8 w)"

lemma length_mem_get [simp]: "length (mem_get m a n) = n"
  by (simp add: mem_get_def)

lemma nth_mem_get [simp]: "i < n \<Longrightarrow> mem_get m a n ! i = m (a + of_nat i)"
  by (simp add: mem_get_def)

lemma mem_get_cong: "(\<And>i. i < n \<Longrightarrow> m (a + of_nat i) = m' (a + of_nat i)) \<Longrightarrow> mem_get m a n = mem_get m' a n"
  by (simp add: mem_get_def)

lemma mem_get_put_same:
  assumes "length bs < 2 ^ 64"
  shows "mem_get (mem_put m a bs) a (length bs) = bs"
  using assms by (intro nth_equalityI) (simp_all add: mem_put_def unat_of_nat_64)

lemma mem_put_other: "\<not> unat (x - a) < length bs \<Longrightarrow> mem_put m a bs x = m x"
  by (simp add: mem_put_def)

lemma load64_store64 [simp]: "load64 (store64 m a w) a = w"
  using mem_get_put_same [of "le_bytes 8 w" m a] by (simp add: load64_def store64_def)

subsection \<open>Pages\<close>

definition on_page :: "uint64 \<Rightarrow> uint64 \<Rightarrow> bool" where
  "on_page p a \<longleftrightarrow> a - p < PGSIZE"

lemma page_aligned_add: "page_aligned p \<Longrightarrow> page_aligned q \<Longrightarrow> page_aligned (p + q)"
proof -
  assume a: "page_aligned p" "page_aligned q"
  have "unat (p + q) mod 4096 = (unat p + unat q) mod 2 ^ 64 mod 4096"
    by (simp add: unat_word_ariths)
  also have "\<dots> = (unat p + unat q) mod 4096"
    by (rule mod_mod_cancel) simp
  also have "\<dots> = 0" using a by (simp add: page_aligned_unat mod_add_eq [symmetric, of "unat p"])
  finally show ?thesis by (simp add: page_aligned_unat)
qed

lemma unat_page_off:
  assumes "page_aligned p" "i < PGSIZE"
  shows "unat (p + i) = unat p + unat i"
proof -
  have "unat p mod 4096 = 0" using assms(1) by (simp add: page_aligned_unat)
  moreover have "unat p < 2 ^ 64" by (rule unsigned_less [THEN less_le_trans]) simp
  moreover have "unat i < 4096" using assms(2) by (simp add: word_less_nat_alt)
  ultimately have "unat p + unat i < 2 ^ 64" by (auto simp: mod_eq_0_iff_dvd dvd_def)
  then show ?thesis by (subst unat_add_lem [THEN iffD1]) simp_all
qed

lemma page_off_inject:
  assumes "page_aligned p" "page_aligned q" "i < PGSIZE" "j < PGSIZE" "p + i = q + j"
  shows "p = q" "i = j"
proof -
  have "unat p + unat i = unat q + unat j"
    using assms unat_page_off [of p i] unat_page_off [of q j] by simp
  moreover have "unat i < 4096" "unat j < 4096" using assms(3,4) by (simp_all add: word_less_nat_alt)
  moreover have "unat p mod 4096 = 0" "unat q mod 4096 = 0"
    using assms(1,2) by (simp_all add: page_aligned_unat)
  ultimately have "unat p = unat q"
    by (auto simp: mod_eq_0_iff_dvd dvd_def)
  then show "p = q" by (simp add: word_unat_eq_iff)
  then show "i = j" using assms(5) by simp
qed

lemma on_page_unique: "page_aligned p \<Longrightarrow> page_aligned q \<Longrightarrow> on_page p a \<Longrightarrow> on_page q a \<Longrightarrow> p = q"
  using page_off_inject [of p q "a - p" "a - q"] by (simp add: on_page_def)

lemma on_page_iff: "page_aligned p \<Longrightarrow> on_page p a \<longleftrightarrow> PGROUNDDOWN a = p"
proof -
  have "on_page (PGROUNDDOWN a) a" for a
  proof -
    have "unat (a - PGROUNDDOWN a) = unat a - unat a div 4096 * 4096"
      using PGROUNDDOWN_le [of a] by (simp add: unat_sub_if' word_le_nat_alt unat_PGROUNDDOWN)
    also have "\<dots> < 4096" by (simp add: minus_div_mult_eq_mod)
    finally show ?thesis by (simp add: on_page_def word_less_nat_alt)
  qed
  then show "page_aligned p \<Longrightarrow> ?thesis" using on_page_unique PGROUNDDOWN_aligned by blast
qed

lemma PGROUNDDOWN_less_iff:
  assumes "page_aligned b"
  shows "PGROUNDDOWN a < b \<longleftrightarrow> a < b"
proof -
  obtain k where k: "unat b = k * 4096" using assms by (auto simp: page_aligned_unat elim: dvdE)
  have "unat a div 4096 * 4096 < k * 4096 \<longleftrightarrow> unat a < k * 4096" by (simp add: div_less_iff_less_mult)
  then show ?thesis by (simp add: word_less_nat_alt unat_PGROUNDDOWN k)
qed

lemma MAXVA_aligned [simp]: "page_aligned MAXVA"
  by (simp add: page_aligned_def)

subsection \<open>The 512 words of a page\<close>

abbreviation (input) slot :: "uint64 \<Rightarrow> uint64 \<Rightarrow> uint64" where
  "slot p k \<equiv> p + 8 * k"

lemma unat_slot_off:
  assumes "k < 512" "i < 8"
  shows "unat (8 * k + of_nat i :: uint64) = 8 * unat k + i"
proof -
  have k: "unat k < 512" using assms(1) by (simp add: word_less_nat_alt)
  have 1: "unat (8 * k) = 8 * unat k"
    using k by (subst unat_mult_lem [THEN iffD1]) simp_all
  have 2: "unat (of_nat i :: uint64) = i" using assms(2) by (simp add: unat_of_nat_64)
  have "unat (8 * k) + unat (of_nat i :: uint64) < 2 ^ LENGTH(64)"
    using k assms(2) unfolding 1 2 by simp
  then have "unat (8 * k + of_nat i :: uint64) = unat (8 * k) + unat (of_nat i :: uint64)"
    by (rule unat_add_lem [THEN iffD1])
  then show ?thesis unfolding 1 2 .
qed

lemma slot_off_less: "k < 512 \<Longrightarrow> i < 8 \<Longrightarrow> 8 * k + of_nat i < (PGSIZE :: uint64)"
  by (simp add: word_less_nat_alt unat_slot_off)

lemma slot_disjoint:
  assumes "page_aligned p" "page_aligned q" "k < 512" "j < 512" "i < 8"
    and "unat (slot q j + of_nat i - slot p k) < 8"
  shows "p = q \<and> k = j"
proof -
  define d where "d = unat (slot q j + of_nat i - slot p k)"
  have "of_nat d = slot q j + of_nat i - slot p k" by (simp add: d_def)
  then have eq: "p + (8 * k + of_nat d) = q + (8 * j + of_nat i)" by (simp add: algebra_simps)
  have d: "d < 8" using assms(6) by (simp add: d_def)
  note inj = page_off_inject [OF assms(1,2) slot_off_less [OF assms(3) d] slot_off_less [OF assms(4,5)] eq]
  have "8 * unat k + d = 8 * unat j + i"
    using arg_cong [OF inj(2), of unat] unat_slot_off [OF assms(3) d] unat_slot_off [OF assms(4,5)] by simp
  then have "unat k = unat j" using d assms(5) by presburger
  then show ?thesis using inj(1) by (simp add: word_unat_eq_iff)
qed

lemma load64_store64_slot:
  assumes "page_aligned p" "page_aligned q" "k < 512" "j < 512"
  shows "load64 (store64 m (slot p k) w) (slot q j) =
    (if p = q \<and> k = j then w else load64 m (slot q j))"
proof (cases "p = q \<and> k = j")
  case False
  have "mem_get (store64 m (slot p k) w) (slot q j) 8 = mem_get m (slot q j) 8"
  proof (rule mem_get_cong)
    fix i :: nat assume "i < 8"
    then have "\<not> unat (slot q j + of_nat i - slot p k) < 8"
      using slot_disjoint [OF assms] False by blast
    then show "store64 m (slot p k) w (slot q j + of_nat i) = m (slot q j + of_nat i)"
      by (simp add: store64_def mem_put_def)
  qed
  then show ?thesis using False by (auto simp: load64_def)
qed simp

lemma store64_off_page:
  assumes "page_aligned p" "k < 512" "\<not> on_page p a"
  shows "store64 m (slot p k) w a = m a"
proof -
  have "\<not> unat (a - slot p k) < 8"
  proof
    assume d: "unat (a - slot p k) < 8"
    have "a - p = 8 * k + of_nat (unat (a - slot p k))" by simp
    then have "on_page p a" using slot_off_less [OF assms(2) d] by (simp add: on_page_def)
    with assms(3) show False by simp
  qed
  then show ?thesis by (simp add: store64_def mem_put_def)
qed

lemma memset_page: "memset m p c 4096 a = (if on_page p a then ucast c else m a)"
  by (simp add: memset_apply on_page_def)

lemma load64_off_page:
  assumes "page_aligned p" "page_aligned q" "k < 512" "p \<noteq> q"
    and "\<And>a. \<not> on_page q a \<Longrightarrow> m' a = m a"
  shows "load64 m' (slot p k) = load64 m (slot p k)"
  unfolding load64_def
proof (rule arg_cong [OF mem_get_cong])
  fix i :: nat assume i: "i < 8"
  have "on_page p (slot p k + of_nat i)"
    using slot_off_less [OF assms(3) i] by (simp add: on_page_def add.assoc)
  then show "m' (slot p k + of_nat i) = m (slot p k + of_nat i)"
    using assms(1,2,4,5) on_page_unique by blast
qed

lemma load64_memset_page:
  assumes "page_aligned p" "page_aligned q" "k < 512"
  shows "load64 (memset m p 0 4096) (slot q k) = (if p = q then 0 else load64 m (slot q k))"
proof (cases "p = q")
  case True
  have "mem_get (memset m p 0 4096) (slot q k) 8 = mem_get (\<lambda>_. 0) (slot q k) 8"
  proof (rule mem_get_cong)
    fix i :: nat assume "i < 8"
    then show "memset m p 0 4096 (slot q k + of_nat i) = 0"
      using slot_off_less [OF assms(3), of i] True by (simp add: memset_page on_page_def add.assoc)
  qed
  moreover have "mem_get (\<lambda>_. 0) a 8 = replicate 8 0" for a
    by (intro nth_equalityI) simp_all
  ultimately show ?thesis using True by (simp add: load64_def)
next
  case False
  then show ?thesis
    using load64_off_page [OF assms(2,1,3), of "memset m p 0 4096" m] by (auto simp: memset_page)
qed

end
