(* ===== verification/Kalloc.thy ===== *)
theory Kalloc
  imports Physmem Sched
begin

section \<open>The physical page allocator: \<^verbatim>\<open>kernel/kalloc.c\<close>\<close>

text \<open>
  The free pages form a list threaded through the pages themselves: the first word of a
  free page is the address of the next one.  The definitions follow the pointers in byte
  memory; \<open>flist\<close> relates them to the list of free pages, and the lemmas say what
  each operation does to that list and to the rest of memory.
\<close>

record kmem = kproc +
  mem :: mem
  freelist :: uint64        \<comment> \<open>\<^verbatim>\<open>kmem.freelist\<close>, 0 when empty\<close>
  kend :: uint64            \<comment> \<open>the linker symbol \<^verbatim>\<open>end\<close>\<close>

abbreviation (input) kmem_lock :: lockid where "kmem_lock \<equiv> Lock ''kmem'' 0"

subsection \<open>Operations\<close>

definition kfree :: "uint64 \<Rightarrow> 'a kmem_scheme \<Rightarrow> 'a kmem_scheme res" where
  "kfree pa s =
     (if pa mod PGSIZE \<noteq> 0 \<or> pa < kend s \<or> pa \<ge> PHYSTOP then Panic ''kfree''
      else let s = s\<lparr>mem := memset (mem s) pa 1 4096\<rparr> in
           bindR (acquire kmem_lock s) (\<lambda>s.
           let s = s\<lparr>mem := store64 (mem s) pa (freelist s)\<rparr>;
               s = s\<lparr>freelist := pa\<rparr>
           in release kmem_lock s))"

definition kalloc :: "'a kmem_scheme \<Rightarrow> (uint64 \<times> 'a kmem_scheme) res" where
  "kalloc s =
     bindR (acquire kmem_lock s) (\<lambda>s.
     let r = freelist s;
         s = (if r \<noteq> 0 then s\<lparr>freelist := load64 (mem s) r\<rparr> else s)
     in bindR (release kmem_lock s) (\<lambda>s.
        Ok (r, if r \<noteq> 0 then s\<lparr>mem := memset (mem s) r 5 4096\<rparr> else s)))"

partial_function (option) freemem_loop :: "mem \<Rightarrow> uint64 \<Rightarrow> uint64 \<Rightarrow> uint64 option" where
  "freemem_loop m r addr =
     (if r = 0 then Some addr else freemem_loop m (load64 m r) (addr + PGSIZE))"

definition freemem :: "'a kmem_scheme \<Rightarrow> uint64 option" where
  "freemem s = freemem_loop (mem s) (freelist s) 0"

function freerange_loop :: "uint64 \<Rightarrow> uint64 \<Rightarrow> 'a kmem_scheme \<Rightarrow> 'a kmem_scheme res" where
  "freerange_loop p pa_end s =
     (if p + PGSIZE \<le> pa_end then bindR (kfree p s) (freerange_loop (p + PGSIZE) pa_end) else Ok s)"
  by auto

text \<open>The loop ends because \<^verbatim>\<open>kfree\<close> panics at \<^verbatim>\<open>PHYSTOP\<close>.\<close>

termination
proof (relation "measure (\<lambda>(p, _, _). unat PHYSTOP - unat p)")
  fix p pa_end s x
  assume "kfree p s = Ok x"
  then have "p < 0x88000000"
    by (auto simp: kfree_def not_le split: if_splits)
  then have "unat p < unat (0x88000000 :: uint64)" by (simp add: word_less_nat_alt)
  moreover have "unat (p + 4096) = unat p + 4096"
    using calculation by (subst unat_add_lem [THEN iffD1]) simp_all
  ultimately show "((p + 4096, pa_end, x), p, pa_end, s) \<in> measure (\<lambda>(p, _, _). unat PHYSTOP - unat p)"
    by simp
qed simp

declare freerange_loop.simps [simp del]

definition freerange :: "uint64 \<Rightarrow> uint64 \<Rightarrow> 'a kmem_scheme \<Rightarrow> 'a kmem_scheme res" where
  "freerange pa_start pa_end s = freerange_loop (PGROUNDUP pa_start) pa_end s"

definition kinit :: "'a kmem_scheme \<Rightarrow> 'a kmem_scheme res" where
  "kinit s = freerange (kend s) PHYSTOP s"

subsection \<open>The list of free pages\<close>

definition kpage :: "uint64 \<Rightarrow> uint64 \<Rightarrow> bool" where
  "kpage e pa \<longleftrightarrow> page_aligned pa \<and> e \<le> pa \<and> pa < PHYSTOP"

fun flist :: "mem \<Rightarrow> uint64 \<Rightarrow> uint64 list \<Rightarrow> bool" where
  "flist m r [] \<longleftrightarrow> r = 0"
| "flist m r (x # xs) \<longleftrightarrow> r = x \<and> flist m (load64 m x) xs"

definition kmem_inv :: "uint64 list \<Rightarrow> 'a kmem_scheme \<Rightarrow> bool" where
  "kmem_inv xs s \<longleftrightarrow> flist (mem s) (freelist s) xs \<and> distinct xs \<and> 0 < kend s \<and>
     (\<forall>x \<in> set xs. kpage (kend s) x)"

lemma kpage_nz: "kpage e pa \<Longrightarrow> 0 < e \<Longrightarrow> pa \<noteq> 0"
  by (auto simp: kpage_def)

lemma flist_nonempty: "flist m r xs \<Longrightarrow> 0 \<notin> set xs \<Longrightarrow> r \<noteq> 0 \<Longrightarrow> \<exists>ys. xs = r # ys"
  by (cases xs) auto

lemma load64_page_frame:
  assumes "page_aligned p" "page_aligned q" "p \<noteq> q" "\<And>a. \<not> on_page q a \<Longrightarrow> m' a = m a"
  shows "load64 m' p = load64 m p"
  using load64_off_page [OF assms(1,2) _ assms(3,4), of 0] by simp

lemma flist_frame:
  assumes "flist m r xs" "\<forall>x \<in> set xs. page_aligned x \<and> x \<noteq> q" "page_aligned q"
    and "\<And>a. \<not> on_page q a \<Longrightarrow> m' a = m a"
  shows "flist m' r xs"
  using assms(1,2)
proof (induction xs arbitrary: r)
  case (Cons x xs)
  then have "load64 m' x = load64 m x"
    using assms(3,4) by (intro load64_page_frame) auto
  with Cons show ?case by simp
qed simp

lemma kmem_inv_frame:
  assumes "kmem_inv xs s" "page_aligned q" "q \<notin> set xs" "\<And>a. \<not> on_page q a \<Longrightarrow> m' a = mem s a"
  shows "kmem_inv xs (s\<lparr>mem := m'\<rparr>)"
  using assms flist_frame [of "mem s" "freelist s" xs q m'] by (auto simp: kmem_inv_def kpage_def)

text \<open>What \<^verbatim>\<open>kfree\<close> and \<^verbatim>\<open>kalloc\<close> leave behind.\<close>

definition freed :: "uint64 \<Rightarrow> 'a kmem_scheme \<Rightarrow> 'a kmem_scheme" where
  "freed pa s = s\<lparr>mem := store64 (memset (mem s) pa 1 4096) pa (freelist s), freelist := pa\<rparr>"

definition allocated :: "'a kmem_scheme \<Rightarrow> 'a kmem_scheme" where
  "allocated s = s\<lparr>mem := memset (mem s) (freelist s) 5 4096, freelist := load64 (mem s) (freelist s)\<rparr>"

lemma kfree_eq:
  "kpage (kend s) pa \<Longrightarrow> kmem_lock \<notin> set (held s) \<Longrightarrow> kfree pa s = Ok (freed pa s)"
  by (simp add: kfree_def kpage_def page_aligned_def lock_simps freed_def Let_def not_le not_less)

lemma kfree_panic: "\<not> kpage (kend s) pa \<Longrightarrow> kfree pa s = Panic ''kfree''"
  by (auto simp: kfree_def kpage_def page_aligned_def not_le not_less)

lemma kalloc_eq:
  "kmem_lock \<notin> set (held s) \<Longrightarrow>
     kalloc s = Ok (if freelist s = 0 then (0, s) else (freelist s, allocated s))"
  by (simp add: kalloc_def lock_simps allocated_def Let_def)

lemma store64_page_frame:
  "page_aligned p \<Longrightarrow> \<not> on_page p a \<Longrightarrow> store64 m p w a = m a"
  using store64_off_page [of p 0 a m w] by simp

lemma freed_frame: "page_aligned pa \<Longrightarrow> \<not> on_page pa a \<Longrightarrow> mem (freed pa s) a = mem s a"
  by (simp add: freed_def store64_page_frame memset_page)

lemma freed_inv:
  assumes "kmem_inv xs s" "kpage (kend s) pa" "pa \<notin> set xs"
  shows "kmem_inv (pa # xs) (freed pa s)"
proof -
  have "flist (mem (freed pa s)) (freelist s) xs"
    by (rule flist_frame [of "mem s" _ _ pa])
      (use assms freed_frame in \<open>auto simp: kmem_inv_def kpage_def\<close>)
  then show ?thesis using assms by (auto simp: kmem_inv_def freed_def)
qed

lemma allocated_frame:
  "\<not> on_page (freelist s) a \<Longrightarrow> mem (allocated s) a = mem s a"
  by (simp add: allocated_def memset_page)

lemma allocated_inv:
  assumes "kmem_inv (x # xs) s"
  shows "kmem_inv xs (allocated s)"
proof -
  have x: "freelist s = x" and xs: "flist (mem s) (load64 (mem s) x) xs" "x \<notin> set xs"
    and pg: "\<forall>y \<in> set xs. page_aligned y \<and> y \<noteq> x" "page_aligned x"
    using assms by (auto simp: kmem_inv_def kpage_def)
  have "\<not> on_page x a \<Longrightarrow> mem (allocated s) a = mem s a" for a
    using allocated_frame [of s a] x by simp
  then have "flist (mem (allocated s)) (load64 (mem s) x) xs"
    by (rule flist_frame [OF xs(1) pg])
  then show ?thesis using assms x by (simp add: kmem_inv_def allocated_def)
qed

lemma freemem_loop_flist:
  "flist m r xs \<Longrightarrow> 0 \<notin> set xs \<Longrightarrow> freemem_loop m r a = Some (a + PGSIZE * of_nat (length xs))"
proof (induction xs arbitrary: r a)
  case Nil
  then show ?case by (simp add: freemem_loop.simps)
next
  case (Cons x xs)
  then have "freemem_loop m r a = freemem_loop m (load64 m x) (a + PGSIZE)"
    by (subst freemem_loop.simps) simp
  then show ?case using Cons by (simp add: algebra_simps)
qed

subsection \<open>Boot: every page above the kernel becomes free\<close>

fun page_run :: "uint64 \<Rightarrow> nat \<Rightarrow> uint64 list" where
  "page_run p 0 = []"
| "page_run p (Suc n) = p # page_run (p + PGSIZE) n"

lemma unat_next_page: "unat p + 4096 < 2 ^ 64 \<Longrightarrow> unat (p + PGSIZE) = unat p + 4096"
  by (subst unat_add_lem [THEN iffD1]) simp_all

lemma page_aligned_next: "page_aligned p \<Longrightarrow> page_aligned (p + PGSIZE)"
  by (rule page_aligned_add) (simp_all add: page_aligned_def)

lemma page_run_bounds:
  assumes "unat p + 4096 * n \<le> unat PHYSTOP" "page_aligned p" "e \<le> p"
  shows "\<forall>x \<in> set (page_run p n). kpage e x \<and> p \<le> x"
  using assms
proof (induction n arbitrary: p)
  case (Suc n)
  have next_page: "unat (p + PGSIZE) = unat p + 4096" using Suc.prems(1) by (intro unat_next_page) simp
  have le: "p \<le> p + PGSIZE" by (simp add: word_le_nat_alt next_page)
  have "\<forall>x \<in> set (page_run (p + PGSIZE) n). kpage e x \<and> p + PGSIZE \<le> x"
    using Suc.prems next_page le by (intro Suc.IH) (auto intro: page_aligned_next)
  moreover have "kpage e p" using Suc.prems by (simp add: kpage_def word_less_nat_alt)
  ultimately show ?case using le by auto
qed simp

lemma freerange_loop_run:
  assumes "unat p + 4096 * n \<le> unat PHYSTOP" "unat PHYSTOP < unat p + 4096 * Suc n"
    and "page_aligned p" "kend s \<le> p" "kmem_inv xs s" "\<forall>x \<in> set xs. x < p" "kmem_lock \<notin> set (held s)"
  shows "\<exists>t. freerange_loop p PHYSTOP s = Ok t \<and> kmem_inv (rev (page_run p n) @ xs) t \<and>
    held t = held s \<and> kend t = kend s"
  using assms
proof (induction n arbitrary: p s xs)
  case 0
  then have "\<not> p + PGSIZE \<le> PHYSTOP"
    using unat_next_page [of p] by (simp add: word_le_nat_alt)
  then show ?case using 0 by (subst freerange_loop.simps) simp
next
  case (Suc n)
  have next_page: "unat (p + PGSIZE) = unat p + 4096" using Suc.prems(1) by (intro unat_next_page) simp
  have pg: "kpage (kend s) p" using Suc.prems(1,3,4) by (simp add: kpage_def word_less_nat_alt)
  have fr: "kfree p s = Ok (freed p s)" by (rule kfree_eq [OF pg Suc.prems(7)])
  have inv: "kmem_inv (p # xs) (freed p s)"
    using Suc.prems(5,6) by (intro freed_inv pg) auto
  have "\<exists>t. freerange_loop (p + PGSIZE) PHYSTOP (freed p s) = Ok t \<and>
      kmem_inv (rev (page_run (p + PGSIZE) n) @ p # xs) t \<and>
      held t = held (freed p s) \<and> kend t = kend (freed p s)"
    using Suc.prems next_page inv
    by (intro Suc.IH) (auto simp: freed_def word_less_nat_alt word_le_nat_alt intro: page_aligned_next)
  moreover have "p + PGSIZE \<le> PHYSTOP" using Suc.prems(1) next_page by (simp add: word_le_nat_alt)
  ultimately show ?case
    by (subst freerange_loop.simps) (auto simp: fr freed_def)
qed

subsection \<open>The allocator as an interface\<close>

text \<open>
  What the clients of \<^verbatim>\<open>kalloc\<close> and \<^verbatim>\<open>kfree\<close> rely on, with the free pages as a list.
\<close>

fun alloc_n :: "('s \<Rightarrow> (uint64 \<times> 's) res) \<Rightarrow> nat \<Rightarrow> 's \<Rightarrow> (uint64 list \<times> 's) res" where
  "alloc_n f 0 s = Ok ([], s)"
| "alloc_n f (Suc n) s =
     bindR (f s) (\<lambda>(p, s). bindR (alloc_n f n s) (\<lambda>(ps, s). Ok (p # ps, s)))"

locale page_allocator =
  fixes alloc :: "'s \<Rightarrow> (uint64 \<times> 's) res"
    and dealloc :: "uint64 \<Rightarrow> 's \<Rightarrow> 's res"
    and inv :: "uint64 list \<Rightarrow> 's \<Rightarrow> bool"
  assumes alloc_Cons: "inv (x # xs) s \<Longrightarrow> \<exists>t. alloc s = Ok (x, t) \<and> inv xs t"
    and alloc_Nil: "inv [] s \<Longrightarrow> alloc s = Ok (0, s)"
    and dealloc_back: "inv (x # xs) s \<Longrightarrow> alloc s = Ok (x, t) \<Longrightarrow> \<exists>u. dealloc x t = Ok u \<and> inv (x # xs) u"
    and inv_distinct: "inv xs s \<Longrightarrow> distinct xs \<and> 0 \<notin> set xs"
begin

text \<open>Allocating \<open>n\<close> times takes the first \<open>n\<close> pages in order; once there is none, the answer is null.\<close>

lemma alloc_many:
  "inv xs s \<Longrightarrow> \<exists>t. alloc_n alloc n s = Ok (take n xs @ replicate (n - length xs) 0, t) \<and> inv (drop n xs) t"
proof (induction n arbitrary: xs s)
  case (Suc n)
  then show ?case
  proof (cases xs)
    case Nil
    then show ?thesis using alloc_Nil [of s] Suc.IH [of "[]" s] Suc.prems by auto
  next
    case (Cons x ys)
    then show ?thesis using alloc_Cons [of x ys s] Suc.IH [of ys] Suc.prems by fastforce
  qed
qed simp

end

definition kalloc_ready :: "uint64 list \<Rightarrow> 'a kmem_scheme \<Rightarrow> bool" where
  "kalloc_ready xs s \<longleftrightarrow> kmem_inv xs s \<and> kmem_lock \<notin> set (held s)"

lemma kmem_inv_nz: "kmem_inv xs s \<Longrightarrow> 0 \<notin> set xs"
  using kpage_nz by (auto simp: kmem_inv_def)

lemma kalloc_Cons:
  assumes "kalloc_ready (x # xs) s"
  shows "kalloc s = Ok (x, allocated s)" "kalloc_ready xs (allocated s)"
  using assms allocated_inv [of x xs s] kmem_inv_nz [of "x # xs" s]
  by (auto simp: kalloc_ready_def kalloc_eq kmem_inv_def allocated_def)

interpretation kalloc_pages: page_allocator kalloc kfree kalloc_ready
proof
  fix x :: uint64 and xs and s t :: "'a kmem_scheme"
  assume rdy: "kalloc_ready (x # xs) s"
  show "\<exists>t. kalloc s = Ok (x, t) \<and> kalloc_ready xs t" using kalloc_Cons [OF rdy] by blast
  assume t: "kalloc s = Ok (x, t)"
  have "kmem_inv xs t" "kpage (kend t) x" "x \<notin> set xs" "kmem_lock \<notin> set (held t)"
    using kalloc_Cons [OF rdy] t rdy
    by (auto simp: kalloc_ready_def kmem_inv_def allocated_def)
  then show "\<exists>u. kfree x t = Ok u \<and> kalloc_ready (x # xs) u"
    using kfree_eq [of t x] freed_inv [of xs t x] by (simp add: kalloc_ready_def freed_def)
next
  fix s :: "'a kmem_scheme"
  assume "kalloc_ready [] s"
  then show "kalloc s = Ok (0, s)" by (simp add: kalloc_ready_def kalloc_eq kmem_inv_def)
next
  fix xs and s :: "'a kmem_scheme"
  assume "kalloc_ready xs s"
  then show "distinct xs \<and> 0 \<notin> set xs"
    using kmem_inv_nz by (auto simp: kalloc_ready_def kmem_inv_def)
qed

subsection \<open>Properties\<close>

definition bss_kmem :: "uint64 \<Rightarrow> kmem" where
  "bss_kmem e = kproc.extend bss_kproc \<lparr>mem = \<lambda>_. 0, freelist = 0, kend = e\<rparr>"

lemma bss_kmem_simps [simp]:
  "held (bss_kmem e) = []" "mem (bss_kmem e) = (\<lambda>_. 0)" "freelist (bss_kmem e) = 0" "kend (bss_kmem e) = e"
  by (simp_all add: bss_kmem_def kproc.extend_def bss_kproc_def)

lemma bss_kmem_inv: "0 < e \<Longrightarrow> kmem_inv [] (bss_kmem e)"
  by (simp add: kmem_inv_def)

lemma some_free_pages:
  assumes "distinct ps" "\<forall>p \<in> set ps. kpage e p" "0 < e"
  shows "\<exists>s :: kmem. kalloc_ready ps s \<and> kend s = e"
  using assms
proof (induction ps)
  case Nil
  then show ?case using bss_kmem_inv by (intro exI [of _ "bss_kmem e"]) (simp add: kalloc_ready_def)
next
  case (Cons p ps)
  then obtain s :: kmem where s: "kalloc_ready ps s" "kend s = e" by auto
  then have "kalloc_ready (p # ps) (freed p s)"
    using Cons.prems freed_inv [of ps s p] by (simp add: kalloc_ready_def freed_def)
  then show ?case using s(2) by (intro exI [of _ "freed p s"]) (simp add: freed_def)
qed

lemma two_free_pages: "\<exists>s :: kmem. kalloc_ready [0x80022000, 0x80021000] s"
  using some_free_pages [of "[0x80022000, 0x80021000]" "0x80020000"]
  by (auto simp: kpage_def page_aligned_def)

lemma alloc_n_mem:
  fixes s :: "'a kmem_scheme"
  assumes "kalloc_ready xs s" "alloc_n kalloc n s = Ok (ps, t)"
  shows "mem t a = (if PGROUNDDOWN a \<in> set (take n xs) then 5 else mem s a) \<and> kend t = kend s \<and> held t = held s"
  using assms
proof (induction n arbitrary: xs s ps)
  case (Suc n)
  show ?case
  proof (cases xs)
    case Nil
    then have "kalloc s = Ok (0, s)" using Suc.prems(1) by (simp add: kalloc_pages.alloc_Nil)
    then obtain qs where "alloc_n kalloc n s = Ok (qs, t)" using Suc.prems(2) by (auto simp: bindR_eq_Ok)
    then show ?thesis using Suc.IH [OF Suc.prems(1)] Nil by simp
  next
    case (Cons x ys)
    note k = kalloc_Cons [OF Suc.prems(1) [unfolded Cons]]
    obtain qs where "alloc_n kalloc n (allocated s) = Ok (qs, t)" using Suc.prems(2) k(1) by (auto simp: bindR_eq_Ok)
    note IH = Suc.IH [OF k(2) this]
    have x: "freelist s = x" "page_aligned x" using Suc.prems(1) Cons by (auto simp: kalloc_ready_def kmem_inv_def kpage_def)
    have "mem (allocated s) a = (if PGROUNDDOWN a = x then 5 else mem s a)"
      using x on_page_iff [OF x(2), of a] by (simp add: allocated_def memset_page)
    then show ?thesis using IH Cons by (auto simp: allocated_def)
  qed
qed simp

text \<open>
  C18: \<^verbatim>\<open>kalloc\<close> hands out every free page once, and then null.  Called \<open>n\<close> times, it returns
  the first \<open>n\<close> pages of the free list in order, and 0 for every call after the last page; the pages
  are distinct, aligned, above the kernel and in RAM, the free list keeps exactly the other pages, the pages returned are
  filled with junk (byte 5), no other byte of memory changes, and the lock is free again.
\<close>

theorem kalloc_fresh_pages:
  assumes "kalloc_ready xs s"
  shows "\<exists>t. alloc_n kalloc n s = Ok (take n xs @ replicate (n - length xs) 0, t) \<and> kalloc_ready (drop n xs) t \<and>
    distinct xs \<and> (\<forall>p\<in>set (take n xs). page_aligned p \<and> kend s \<le> p \<and> p < PHYSTOP \<and> p \<notin> set (drop n xs)) \<and>
    (\<forall>a. mem t a = (if PGROUNDDOWN a \<in> set (take n xs) then 5 else mem s a)) \<and> held t = held s"
proof -
  obtain t where t: "alloc_n kalloc n s = Ok (take n xs @ replicate (n - length xs) 0, t)" "kalloc_ready (drop n xs) t"
    using kalloc_pages.alloc_many [OF assms] by blast
  have "distinct xs" "\<forall>p\<in>set xs. kpage (kend s) p" using assms by (auto simp: kalloc_ready_def kmem_inv_def)
  then show ?thesis using t alloc_n_mem [OF assms t(1)] set_take_disj_set_drop_if_distinct [of xs n n]
    by (intro exI [of _ t]) (auto simp: kpage_def dest: in_set_takeD)
qed

theorem kalloc_fresh_pages_witness:
  "\<exists>(s :: kmem) t. alloc_n kalloc 3 s = Ok ([0x80022000, 0x80021000, 0], t) \<and> mem t 0x80021008 = 5"
proof -
  obtain s :: kmem where "kalloc_ready [0x80022000, 0x80021000] s" using two_free_pages by blast
  from kalloc_fresh_pages [OF this, of 3] obtain t where
    "alloc_n kalloc 3 s = Ok ([0x80022000, 0x80021000, 0], t)" "\<forall>a. mem t a = (if PGROUNDDOWN a \<in> {0x80022000, 0x80021000} then 5 else mem s a)"
    by auto
  moreover have "PGROUNDDOWN 0x80021008 = 0x80021000" by (simp add: PGROUNDDOWN_def)
  ultimately show ?thesis by (intro exI [of _ s] exI [of _ t]) simp
qed

text \<open>
  C25: \<^verbatim>\<open>kfree\<close> puts a page back and disturbs nothing else: freeing a page of RAM above
  the kernel that is not already free succeeds, puts it at the head of the free list and
  changes no byte outside the page; any other address makes it panic.
\<close>

theorem kfree_adds_page:
  assumes "kmem_inv xs s" "kmem_lock \<notin> set (held s)" "pa \<notin> set xs"
  shows "if page_aligned pa \<and> kend s \<le> pa \<and> pa < PHYSTOP
    then \<exists>t. kfree pa s = Ok t \<and> kmem_inv (pa # xs) t \<and> held t = held s \<and>
           (\<forall>a. PGROUNDDOWN a = pa \<or> mem t a = mem s a)
    else kfree pa s = Panic ''kfree''"
proof (cases "kpage (kend s) pa")
  case True
  then have "page_aligned pa" by (simp add: kpage_def)
  then have "\<forall>a. PGROUNDDOWN a = pa \<or> mem (freed pa s) a = mem s a"
    using freed_frame [of pa _ s] on_page_iff by blast
  moreover have "held (freed pa s) = held s" by (simp add: freed_def)
  ultimately show ?thesis
    using True kfree_eq [OF True assms(2)] freed_inv [OF assms(1) True assms(3)]
    by (auto simp: kpage_def)
next
  case False
  then show ?thesis using kfree_panic by (auto simp: kpage_def)
qed

theorem kfree_adds_page_witness:
  "\<exists>t. kfree 0x80021000 (bss_kmem 0x80020000) = Ok t \<and> kmem_inv [0x80021000] t"
  using kfree_adds_page [of "[]" "bss_kmem 0x80020000" "0x80021000"] bss_kmem_inv [of "0x80020000"]
  by (simp add: page_aligned_def) blast

text \<open>
  C26: At boot \<^verbatim>\<open>kinit\<close> frees every whole page between the end of the kernel and
  \<^verbatim>\<open>PHYSTOP\<close>, each once.
\<close>

theorem kinit_frees_all:
  assumes "0 < kend s" "kend s \<le> PHYSTOP" "freelist s = 0" "kmem_lock \<notin> set (held s)"
  shows "\<exists>t. kinit s = Ok t \<and> held t = held s \<and>
    kmem_inv (rev (page_run (PGROUNDUP (kend s)) ((unat PHYSTOP - unat (PGROUNDUP (kend s))) div 4096))) t"
proof -
  let ?p = "PGROUNDUP (kend s)"
  have "unat ?p = (unat (kend s) + 4095) div 4096 * 4096"
    using assms(2) by (intro unat_PGROUNDUP) (simp add: word_le_nat_alt)
  moreover have "unat (kend s) \<le> 0x88000000" using assms(2) by (simp add: word_le_nat_alt)
  ultimately have p: "unat ?p \<le> unat PHYSTOP" "kend s \<le> ?p"
    by (simp_all add: word_le_nat_alt)
  let ?n = "(unat PHYSTOP - unat ?p) div 4096"
  have n: "unat ?p + 4096 * ?n \<le> unat PHYSTOP" "unat PHYSTOP < unat ?p + 4096 * Suc ?n"
    using p(1) div_mult_mod_eq [of "unat PHYSTOP - unat ?p" 4096]
      mod_less_divisor [of 4096 "unat PHYSTOP - unat ?p"]
    by (simp_all only: mult_Suc_right)
  have "kmem_inv [] s" using assms(1,3) by (simp add: kmem_inv_def)
  with n show ?thesis
    using freerange_loop_run [of ?p "(unat PHYSTOP - unat ?p) div 4096" s "[]"] p assms(4)
    by (auto simp: kinit_def freerange_def)
qed

theorem kinit_frees_all_witness:
  "\<exists>t. kinit (bss_kmem 0x87ffe800) = Ok t \<and> kmem_inv [0x87fff000] t"
proof -
  have "PGROUNDUP 0x87ffe800 = 0x87fff000" by (simp add: PGROUNDUP_def)
  then show ?thesis using kinit_frees_all [of "bss_kmem 0x87ffe800"] by auto
qed

text \<open>
  C24: \<^verbatim>\<open>freemem\<close> (the \<^verbatim>\<open>sysinfo\<close> counter) returns, and returns the size of a page
  times the number of free pages.
\<close>

theorem freemem_counts:
  assumes "kmem_inv xs s"
  shows "freemem s = Some (PGSIZE * of_nat (length xs))"
  using assms freemem_loop_flist [of "mem s" "freelist s" xs 0] kmem_inv_nz [OF assms]
  by (simp add: freemem_def kmem_inv_def)

theorem freemem_counts_witness:
  "\<exists>s :: kmem. freemem s = Some 0x2000"
  using two_free_pages freemem_counts by (fastforce simp: kalloc_ready_def)

end
