(* ===== verification/Vm.thy ===== *)
theory Vm
  imports Kalloc
begin

section \<open>Page tables and user memory: \<^verbatim>\<open>kernel/vm.c\<close>\<close>

text \<open>
  Page tables are pages of byte memory; a page table is the address of its root page and
  a null pointer is 0, as in the source.  Kernel buffers that are copied to or from user
  memory are byte lists.  The symbols \<^verbatim>\<open>etext\<close> and \<^verbatim>\<open>trampoline\<close> of the linker
  script are arguments.  A loop over virtual addresses ends at the latest at
  \<^verbatim>\<open>MAXVA\<close>, where \<^verbatim>\<open>walk\<close> panics.
\<close>

subsection \<open>Walking a page table\<close>

fun walk_loop :: "nat list \<Rightarrow> uint64 \<Rightarrow> uint64 \<Rightarrow> bool \<Rightarrow> 'a kmem_scheme \<Rightarrow> (uint64 option \<times> 'a kmem_scheme) res" where
  "walk_loop [] pagetable va alloc s = Ok (Some pagetable, s)"
| "walk_loop (level # ls) pagetable va alloc s =
     (let pte = slot pagetable (PX level va) in
      if load64 (mem s) pte AND PTE_V \<noteq> 0
      then walk_loop ls (PTE2PA (load64 (mem s) pte)) va alloc s
      else if \<not> alloc then Ok (None, s)
      else bindR (kalloc s) (\<lambda>(pg, s).
           if pg = 0 then Ok (None, s)
           else let s = s\<lparr>mem := memset (mem s) pg 0 4096\<rparr>;
                    s = s\<lparr>mem := store64 (mem s) pte (PA2PTE pg OR PTE_V)\<rparr>
                in walk_loop ls pg va alloc s))"

definition walk :: "uint64 \<Rightarrow> uint64 \<Rightarrow> bool \<Rightarrow> 'a kmem_scheme \<Rightarrow> (uint64 \<times> 'a kmem_scheme) res" where
  "walk pagetable va alloc s =
     (if va \<ge> MAXVA then Panic ''walk''
      else bindR (walk_loop [2, 1] pagetable va alloc s) (\<lambda>(r, s).
           case r of None \<Rightarrow> Ok (0, s) | Some pt \<Rightarrow> Ok (slot pt (PX 0 va), s)))"

definition walkaddr :: "uint64 \<Rightarrow> uint64 \<Rightarrow> 'a kmem_scheme \<Rightarrow> uint64 res" where
  "walkaddr pagetable va s =
     (if va \<ge> MAXVA then Ok 0
      else bindR (walk pagetable va False s) (\<lambda>(pte, s).
           if pte = 0 then Ok 0
           else if load64 (mem s) pte AND PTE_V = 0 then Ok 0
           else if load64 (mem s) pte AND PTE_U = 0 then Ok 0
           else Ok (PTE2PA (load64 (mem s) pte))))"

lemma walk_Ok_less: "walk pt va a s = Ok r \<Longrightarrow> va < MAXVA"
  by (auto simp: walk_def not_le split: if_splits)

subsection \<open>Mapping and unmapping\<close>

text \<open>The termination measure of the loops over virtual pages.\<close>

definition va_measure :: "uint64 \<Rightarrow> nat" where
  "va_measure a = unat MAXVA - unat a"

lemma va_measure_next: "a < MAXVA \<Longrightarrow> va_measure (a + PGSIZE) < va_measure a"
proof -
  assume "a < MAXVA"
  then have "unat a < 0x4000000000" by (simp add: word_less_nat_alt)
  moreover have "unat (a + PGSIZE) = unat a + 4096"
    using calculation by (intro unat_next_page) simp
  ultimately show ?thesis by (simp add: va_measure_def)
qed

function mappages_loop :: "uint64 \<Rightarrow> uint64 \<Rightarrow> uint64 \<Rightarrow> uint64 \<Rightarrow> uint64 \<Rightarrow> 'a kmem_scheme \<Rightarrow> (int \<times> 'a kmem_scheme) res" where
  "mappages_loop pagetable a last_page pa perm s =
     bindR (walk pagetable a True s) (\<lambda>(pte, s).
     if pte = 0 then Ok (-1, s)
     else if load64 (mem s) pte AND PTE_V \<noteq> 0 then Panic ''mappages: remap''
     else let s = s\<lparr>mem := store64 (mem s) pte (PA2PTE pa OR perm OR PTE_V)\<rparr>
          in if a = last_page then Ok (0, s)
             else mappages_loop pagetable (a + PGSIZE) last_page (pa + PGSIZE) perm s)"
  by auto

termination
  by (relation "measure (\<lambda>(_, a, _). va_measure a)")
    (auto dest: walk_Ok_less intro: va_measure_next)

declare mappages_loop.simps [simp del]

definition mappages :: "uint64 \<Rightarrow> uint64 \<Rightarrow> uint64 \<Rightarrow> uint64 \<Rightarrow> uint64 \<Rightarrow> 'a kmem_scheme \<Rightarrow> (int \<times> 'a kmem_scheme) res" where
  "mappages pagetable va sz pa perm s =
     (if sz = 0 then Panic ''mappages: size''
      else mappages_loop pagetable (PGROUNDDOWN va) (PGROUNDDOWN (va + sz - 1)) pa perm s)"

definition kvmmap :: "uint64 \<Rightarrow> uint64 \<Rightarrow> uint64 \<Rightarrow> uint64 \<Rightarrow> uint64 \<Rightarrow> 'a kmem_scheme \<Rightarrow> 'a kmem_scheme res" where
  "kvmmap kpgtbl va pa sz perm s =
     bindR (mappages kpgtbl va sz pa perm s) (\<lambda>(r, s). if r \<noteq> 0 then Panic ''kvmmap'' else Ok s)"

function uvmunmap_loop :: "uint64 \<Rightarrow> uint64 \<Rightarrow> uint64 \<Rightarrow> bool \<Rightarrow> 'a kmem_scheme \<Rightarrow> 'a kmem_scheme res" where
  "uvmunmap_loop pagetable a va_end do_free s =
     (if a < va_end
      then bindR (walk pagetable a False s) (\<lambda>(pte, s).
           if pte = 0 then Panic ''uvmunmap: walk''
           else if load64 (mem s) pte AND PTE_V = 0 then Panic ''uvmunmap: not mapped''
           else if PTE_FLAGS (load64 (mem s) pte) = PTE_V then Panic ''uvmunmap: not a leaf''
           else bindR (if do_free then kfree (PTE2PA (load64 (mem s) pte)) s else Ok s) (\<lambda>s.
                uvmunmap_loop pagetable (a + PGSIZE) va_end do_free (s\<lparr>mem := store64 (mem s) pte 0\<rparr>)))
      else Ok s)"
  by auto

termination
  by (relation "measure (\<lambda>(_, a, _). va_measure a)")
    (auto dest: walk_Ok_less intro: va_measure_next)

declare uvmunmap_loop.simps [simp del]

definition uvmunmap :: "uint64 \<Rightarrow> uint64 \<Rightarrow> uint64 \<Rightarrow> bool \<Rightarrow> 'a kmem_scheme \<Rightarrow> 'a kmem_scheme res" where
  "uvmunmap pagetable va npages do_free s =
     (if va mod PGSIZE \<noteq> 0 then Panic ''uvmunmap: not aligned''
      else uvmunmap_loop pagetable va (va + npages * PGSIZE) do_free s)"

subsection \<open>The kernel page table\<close>

definition proc_mapstacks_at :: "uint64 \<Rightarrow> nat \<Rightarrow> 'a kmem_scheme \<Rightarrow> 'a kmem_scheme res" where
  "proc_mapstacks_at kpgtbl i s =
     bindR (kalloc s) (\<lambda>(pa, s).
     if pa = 0 then Panic ''kalloc''
     else kvmmap kpgtbl (KSTACK i) pa PGSIZE (PTE_R OR PTE_W) s)"

definition proc_mapstacks :: "uint64 \<Rightarrow> 'a kmem_scheme \<Rightarrow> 'a kmem_scheme res" where
  "proc_mapstacks kpgtbl s = foreach (proc_mapstacks_at kpgtbl) 0 NPROC s"

definition kvmmake :: "uint64 \<Rightarrow> uint64 \<Rightarrow> 'a kmem_scheme \<Rightarrow> (uint64 \<times> 'a kmem_scheme) res" where
  "kvmmake etext trampoline s =
     bindR (kalloc s) (\<lambda>(kpgtbl, s).
     let s = s\<lparr>mem := memset (mem s) kpgtbl 0 4096\<rparr> in
     bindR (kvmmap kpgtbl UART0 UART0 PGSIZE (PTE_R OR PTE_W) s) (\<lambda>s.
     bindR (kvmmap kpgtbl VIRTIO0 VIRTIO0 PGSIZE (PTE_R OR PTE_W) s) (\<lambda>s.
     bindR (kvmmap kpgtbl PLIC PLIC 0x400000 (PTE_R OR PTE_W) s) (\<lambda>s.
     bindR (kvmmap kpgtbl KERNBASE KERNBASE (etext - KERNBASE) (PTE_R OR PTE_X) s) (\<lambda>s.
     bindR (kvmmap kpgtbl etext etext (PHYSTOP - etext) (PTE_R OR PTE_W) s) (\<lambda>s.
     bindR (kvmmap kpgtbl TRAMPOLINE trampoline PGSIZE (PTE_R OR PTE_X) s) (\<lambda>s.
     bindR (proc_mapstacks kpgtbl s) (\<lambda>s.
     Ok (kpgtbl, s)))))))))"

subsection \<open>User address spaces\<close>

definition uvmcreate :: "'a kmem_scheme \<Rightarrow> (uint64 \<times> 'a kmem_scheme) res" where
  "uvmcreate s = bindR (kalloc s) (\<lambda>(pagetable, s).
     if pagetable = 0 then Ok (0, s)
     else Ok (pagetable, s\<lparr>mem := memset (mem s) pagetable 0 4096\<rparr>))"

definition uvminit :: "uint64 \<Rightarrow> uint8 list \<Rightarrow> 'a kmem_scheme \<Rightarrow> 'a kmem_scheme res" where
  "uvminit pagetable src s =
     (if length src \<ge> 4096 then Panic ''inituvm: more than a page''
      else bindR (kalloc s) (\<lambda>(pg, s).
           let s = s\<lparr>mem := memset (mem s) pg 0 4096\<rparr> in
           bindR (mappages pagetable 0 PGSIZE pg (PTE_W OR PTE_R OR PTE_X OR PTE_U) s) (\<lambda>(_, s).
           Ok (s\<lparr>mem := mem_put (mem s) pg src\<rparr>))))"

text \<open>The page count is an \<^verbatim>\<open>int\<close>: 32 bits, extended with its sign for the call.\<close>

definition uvmdealloc :: "uint64 \<Rightarrow> uint64 \<Rightarrow> uint64 \<Rightarrow> 'a kmem_scheme \<Rightarrow> (uint64 \<times> 'a kmem_scheme) res" where
  "uvmdealloc pagetable oldsz newsz s =
     (if newsz \<ge> oldsz then Ok (oldsz, s)
      else bindR (if PGROUNDUP newsz < PGROUNDUP oldsz
                  then let npages = ucast ((PGROUNDUP oldsz - PGROUNDUP newsz) div PGSIZE) :: 32 word
                       in uvmunmap pagetable (PGROUNDUP newsz) (scast npages) True s
                  else Ok s) (\<lambda>s. Ok (newsz, s)))"

lemma mappages_Ok_less: "mappages pt va PGSIZE pa perm s = Ok r \<Longrightarrow> va < MAXVA"
proof -
  assume "mappages pt va PGSIZE pa perm s = Ok r"
  then have "PGROUNDDOWN va < MAXVA"
    by (auto simp: mappages_def mappages_loop.simps [of pt "PGROUNDDOWN va"] dest: walk_Ok_less split: if_splits)
  then show ?thesis using PGROUNDDOWN_less_iff [OF MAXVA_aligned] by blast
qed

function uvmalloc_loop :: "uint64 \<Rightarrow> uint64 \<Rightarrow> uint64 \<Rightarrow> uint64 \<Rightarrow> 'a kmem_scheme \<Rightarrow> (uint64 \<times> 'a kmem_scheme) res" where
  "uvmalloc_loop pagetable a oldsz newsz s =
     (if a < newsz
      then bindR (kalloc s) (\<lambda>(pg, s).
           if pg = 0
           then bindR (uvmdealloc pagetable a oldsz s) (\<lambda>(_, s). Ok (0, s))
           else let s = s\<lparr>mem := memset (mem s) pg 0 4096\<rparr> in
                bindR (mappages pagetable a PGSIZE pg (PTE_W OR PTE_X OR PTE_R OR PTE_U) s) (\<lambda>(r, s).
                if r \<noteq> 0
                then bindR (kfree pg s) (\<lambda>s.
                     bindR (uvmdealloc pagetable a oldsz s) (\<lambda>(_, s). Ok (0, s)))
                else uvmalloc_loop pagetable (a + PGSIZE) oldsz newsz s))
      else Ok (newsz, s))"
  by auto

termination
  by (relation "measure (\<lambda>(_, a, _). va_measure a)")
    (auto dest: mappages_Ok_less intro: va_measure_next)

declare uvmalloc_loop.simps [simp del]

definition uvmalloc :: "uint64 \<Rightarrow> uint64 \<Rightarrow> uint64 \<Rightarrow> 'a kmem_scheme \<Rightarrow> (uint64 \<times> 'a kmem_scheme) res" where
  "uvmalloc pagetable oldsz newsz s =
     (if newsz < oldsz then Ok (oldsz, s)
      else uvmalloc_loop pagetable (PGROUNDUP oldsz) (PGROUNDUP oldsz) newsz s)"

text \<open>
  \<^verbatim>\<open>freewalk\<close> calls itself for every table a table points to; its first argument bounds the depth of
  the recursion.  A recursion deeper than the number of pages of RAM is inside a table it has already
  entered, and never ends.
\<close>

fun freewalk :: "nat \<Rightarrow> uint64 \<Rightarrow> 'a kmem_scheme \<Rightarrow> 'a kmem_scheme res" where
  "freewalk 0 pagetable s = Loop"
| "freewalk (Suc d) pagetable s =
     bindR (foreach (\<lambda>i s.
       let pte = load64 (mem s) (slot pagetable (of_nat i)) in
       if pte AND PTE_V \<noteq> 0 \<and> pte AND (PTE_R OR PTE_W OR PTE_X) = 0
       then bindR (freewalk d (PTE2PA pte) s)
              (\<lambda>s. Ok (s\<lparr>mem := store64 (mem s) (slot pagetable (of_nat i)) 0\<rparr>))
       else if pte AND PTE_V \<noteq> 0 then Panic ''freewalk: leaf''
       else Ok s) 0 512 s) (kfree pagetable)"

abbreviation (input) RAM_PAGES :: nat where "RAM_PAGES \<equiv> 32768"

definition uvmfree :: "uint64 \<Rightarrow> uint64 \<Rightarrow> 'a kmem_scheme \<Rightarrow> 'a kmem_scheme res" where
  "uvmfree pagetable sz s =
     bindR (if sz > 0 then uvmunmap pagetable 0 (PGROUNDUP sz div PGSIZE) True s else Ok s)
       (freewalk RAM_PAGES pagetable)"

function uvmcopy_loop :: "uint64 \<Rightarrow> uint64 \<Rightarrow> uint64 \<Rightarrow> uint64 \<Rightarrow> 'a kmem_scheme \<Rightarrow> (int \<times> 'a kmem_scheme) res" where
  "uvmcopy_loop old new i sz s =
     (if i < sz
      then bindR (walk old i False s) (\<lambda>(pte, s).
           if pte = 0 then Panic ''uvmcopy: pte should exist''
           else if load64 (mem s) pte AND PTE_V = 0 then Panic ''uvmcopy: page not present''
           else let pa = PTE2PA (load64 (mem s) pte); flags = PTE_FLAGS (load64 (mem s) pte) in
                bindR (kalloc s) (\<lambda>(pg, s).
                if pg = 0
                then bindR (uvmunmap new 0 (i div PGSIZE) True s) (\<lambda>s. Ok (-1, s))
                else let s = s\<lparr>mem := memmove (mem s) pg pa 4096\<rparr> in
                     bindR (mappages new i PGSIZE pg flags s) (\<lambda>(r, s).
                     if r \<noteq> 0
                     then bindR (kfree pg s) (\<lambda>s.
                          bindR (uvmunmap new 0 (i div PGSIZE) True s) (\<lambda>s. Ok (-1, s)))
                     else uvmcopy_loop old new (i + PGSIZE) sz s)))
      else Ok (0, s))"
  by auto

termination
  by (relation "measure (\<lambda>(_, _, a, _). va_measure a)")
    (auto dest: walk_Ok_less intro: va_measure_next)

declare uvmcopy_loop.simps [simp del]

definition uvmcopy :: "uint64 \<Rightarrow> uint64 \<Rightarrow> uint64 \<Rightarrow> 'a kmem_scheme \<Rightarrow> (int \<times> 'a kmem_scheme) res" where
  "uvmcopy old new sz s = uvmcopy_loop old new 0 sz s"

definition uvmclear :: "uint64 \<Rightarrow> uint64 \<Rightarrow> 'a kmem_scheme \<Rightarrow> 'a kmem_scheme res" where
  "uvmclear pagetable va s =
     bindR (walk pagetable va False s) (\<lambda>(pte, s).
     if pte = 0 then Panic ''uvmclear''
     else Ok (s\<lparr>mem := store64 (mem s) pte (load64 (mem s) pte AND NOT PTE_U)\<rparr>))"

subsection \<open>Copying between kernel and user\<close>

text \<open>The bytes from \<open>va\<close> to the end of its page.\<close>

definition page_rest :: "uint64 \<Rightarrow> nat" where
  "page_rest va = unat (PGSIZE - (va - PGROUNDDOWN va))"

lemma page_rest_pos: "0 < page_rest va"
proof -
  have "on_page (PGROUNDDOWN va) va" by (simp add: on_page_iff)
  then have "va - PGROUNDDOWN va \<noteq> PGSIZE" by (auto simp: on_page_def)
  then show ?thesis by (simp add: page_rest_def unat_gt_0)
qed

function copyout :: "uint64 \<Rightarrow> uint64 \<Rightarrow> uint8 list \<Rightarrow> 'a kmem_scheme \<Rightarrow> (int \<times> 'a kmem_scheme) res" where
  "copyout pagetable dstva src s =
     (if src = [] then Ok (0, s)
      else let va0 = PGROUNDDOWN dstva in
           bindR (walkaddr pagetable va0 s) (\<lambda>pa0.
           if pa0 = 0 then Ok (-1, s)
           else let n = min (page_rest dstva) (length src);
                    s = s\<lparr>mem := mem_put (mem s) (pa0 + (dstva - va0)) (take n src)\<rparr>
                in copyout pagetable (va0 + PGSIZE) (drop n src) s))"
  by auto

termination
  using page_rest_pos by (relation "measure (\<lambda>(_, _, src, _). length src)") auto

declare copyout.simps [simp del]

text \<open>The second component is what the kernel buffer has received, also on failure.\<close>

function copyin :: "uint64 \<Rightarrow> uint64 \<Rightarrow> nat \<Rightarrow> 'a kmem_scheme \<Rightarrow> (int \<times> uint8 list) res" where
  "copyin pagetable srcva len s =
     (if len = 0 then Ok (0, [])
      else let va0 = PGROUNDDOWN srcva in
           bindR (walkaddr pagetable va0 s) (\<lambda>pa0.
           if pa0 = 0 then Ok (-1, [])
           else let n = min (page_rest srcva) len in
                bindR (copyin pagetable (va0 + PGSIZE) (len - n) s) (\<lambda>(r, bs).
                Ok (r, mem_get (mem s) (pa0 + (srcva - va0)) n @ bs))))"
  by auto

termination
  using page_rest_pos by (relation "measure (\<lambda>(_, _, len, _). len)") auto

declare copyin.simps [simp del]

fun copyinstr_page :: "mem \<Rightarrow> uint64 \<Rightarrow> nat \<Rightarrow> bool \<times> uint8 list" where
  "copyinstr_page m p 0 = (False, [])"
| "copyinstr_page m p (Suc n) =
     (if m p = 0 then (True, [0])
      else let (got_null, bs) = copyinstr_page m (p + 1) n in (got_null, m p # bs))"

function copyinstr :: "uint64 \<Rightarrow> uint64 \<Rightarrow> nat \<Rightarrow> 'a kmem_scheme \<Rightarrow> (int \<times> uint8 list) res" where
  "copyinstr pagetable srcva max_len s =
     (if max_len = 0 then Ok (-1, [])
      else let va0 = PGROUNDDOWN srcva in
           bindR (walkaddr pagetable va0 s) (\<lambda>pa0.
           if pa0 = 0 then Ok (-1, [])
           else let n = min (page_rest srcva) max_len;
                    (got_null, bs) = copyinstr_page (mem s) (pa0 + (srcva - va0)) n
                in if got_null then Ok (0, bs)
                   else bindR (copyinstr pagetable (va0 + PGSIZE) (max_len - n) s) (\<lambda>(r, cs).
                        Ok (r, bs @ cs))))"
  by auto

termination
  using page_rest_pos by (relation "measure (\<lambda>(_, _, len, _). len)") auto

declare copyinstr.simps [simp del]

end
