(* ===== verification/Pagetable.thy ===== *)
theory Pagetable
  imports Vm
begin

section \<open>A page table as a map from pages to entries\<close>

text \<open>
  The tree of page-table pages below a root, the entry it gives a virtual address, and
  the invariant that the pages of the tree are pages of RAM, each in one place of the
  tree and none of them free.  Under it the operations of \<^verbatim>\<open>vm.c\<close> act on the tree
  like operations on a finite map from virtual pages to entries.
\<close>

subsection \<open>The tree\<close>

definition ent :: "mem \<Rightarrow> uint64 \<Rightarrow> uint64 \<Rightarrow> uint64" where
  "ent m p k = load64 m (slot p k)"

definition valid :: "uint64 \<Rightarrow> bool" where
  "valid pte \<longleftrightarrow> pte AND PTE_V \<noteq> 0"

fun node :: "mem \<Rightarrow> uint64 \<Rightarrow> uint64 list \<Rightarrow> uint64 option" where
  "node m p [] = Some p"
| "node m p (k # ks) = (if valid (ent m p k) then node m (PTE2PA (ent m p k)) ks else None)"

definition pathok :: "uint64 list \<Rightarrow> bool" where
  "pathok ks \<longleftrightarrow> length ks \<le> 2 \<and> (\<forall>k \<in> set ks. k < 512)"

definition va_path :: "uint64 \<Rightarrow> uint64 list" where
  "va_path va = [PX 2 va, PX 1 va]"

definition leaf :: "mem \<Rightarrow> uint64 \<Rightarrow> uint64 \<Rightarrow> uint64" where
  "leaf m root va = (case node m root (va_path va) of None \<Rightarrow> 0 | Some p \<Rightarrow> ent m p (PX 0 va))"

definition tables :: "mem \<Rightarrow> uint64 \<Rightarrow> uint64 set" where
  "tables m root = {p. \<exists>ks. pathok ks \<and> node m root ks = Some p}"

definition pt_inv :: "uint64 \<Rightarrow> mem \<Rightarrow> uint64 \<Rightarrow> bool" where
  "pt_inv e m root \<longleftrightarrow> (\<forall>p \<in> tables m root. kpage e p) \<and>
     (\<forall>ks ks' p. pathok ks \<longrightarrow> pathok ks' \<longrightarrow> node m root ks = Some p \<longrightarrow> node m root ks' = Some p \<longrightarrow> ks = ks')"

lemma pathok_va [simp]: "pathok (va_path va)" "pathok []"
  by (simp_all add: pathok_def va_path_def PX_less)

lemma pathok_append: "pathok (ks @ qs) \<Longrightarrow> pathok ks"
  by (simp add: pathok_def)

lemma node_append: "node m p (ks @ qs) = Option.bind (node m p ks) (\<lambda>q. node m q qs)"
  by (induction ks arbitrary: p) auto

lemma tablesI: "pathok ks \<Longrightarrow> node m root ks = Some p \<Longrightarrow> p \<in> tables m root"
  by (auto simp: tables_def)

lemma root_tables [simp]: "root \<in> tables m root"
  by (rule tablesI [of "[]"]) simp_all

lemma pt_inv_kpage: "pt_inv e m root \<Longrightarrow> pathok ks \<Longrightarrow> node m root ks = Some p \<Longrightarrow> kpage e p"
  by (auto simp: pt_inv_def intro: tablesI)

lemma pt_inv_inj:
  "pt_inv e m root \<Longrightarrow> pathok ks \<Longrightarrow> pathok ks' \<Longrightarrow> node m root ks = Some p \<Longrightarrow>
     node m root ks' = Some p \<Longrightarrow> ks = ks'"
  unfolding pt_inv_def by blast

lemma kpage_aligned: "kpage e p \<Longrightarrow> page_aligned p"
  by (simp add: kpage_def)

lemma valid_0 [simp]: "\<not> valid 0"
  by (simp add: valid_def)

lemma valid_mapped [simp]: "valid (PA2PTE pa OR f OR PTE_V)"
proof -
  have "bit ((PA2PTE pa OR f OR PTE_V) AND PTE_V) 0" by (simp add: bit_simps)
  then show ?thesis unfolding valid_def by (metis bit_0_eq bot_apply bot_bool_def)
qed

lemma valid_table [simp]: "valid (PA2PTE pa OR PTE_V)"
  using valid_mapped [of pa 0] by simp

subsection \<open>Stores that keep the tree\<close>

lemma node_frame:
  assumes "\<And>qs k rest q. ks = qs @ k # rest \<Longrightarrow> node m p qs = Some q \<Longrightarrow> ent m' q k = ent m q k"
  shows "node m' p ks = node m p ks"
  using assms
proof (induction ks arbitrary: p)
  case (Cons k ks)
  have e: "ent m' p k = ent m p k" using Cons.prems [of "[]" k ks p] by simp
  show ?case
  proof (cases "valid (ent m p k)")
    case True
    have "node m' (PTE2PA (ent m p k)) ks = node m (PTE2PA (ent m p k)) ks"
      by (rule Cons.IH) (use Cons.prems True in \<open>fastforce simp: append_Cons [symmetric] simp del: append_Cons\<close>)
    then show ?thesis using True e by simp
  qed (simp add: e)
qed simp

lemma ent_store:
  "page_aligned p \<Longrightarrow> page_aligned q \<Longrightarrow> k < 512 \<Longrightarrow> j < 512 \<Longrightarrow>
     ent (store64 m (slot p k) w) q j = (if p = q \<and> k = j then w else ent m q j)"
  by (simp add: ent_def load64_store64_slot)

lemma ent_frame:
  assumes "page_aligned q" "page_aligned x" "q \<noteq> x" "k < 512" "\<And>a. \<not> on_page x a \<Longrightarrow> m' a = m a"
  shows "ent m' q k = ent m q k"
  using load64_off_page [OF assms(1,2,4,3,5)] by (simp add: ent_def)

text \<open>Changes outside the tree's pages.\<close>

lemma outside_tables:
  assumes "pt_inv e m root" "page_aligned x" "x \<notin> tables m root" "\<And>a. \<not> on_page x a \<Longrightarrow> m' a = m a"
  shows "pathok ks \<Longrightarrow> node m' root ks = node m root ks"
    and "tables m' root = tables m root" and "pt_inv e m' root" and "leaf m' root va = leaf m root va"
proof -
  have same: "ent m' q k = ent m q k" if "q \<in> tables m root" "k < 512" for q k
    using that assms by (intro ent_frame [of q x]) (auto simp: pt_inv_def kpage_def)
  have nd: "node m' root ks = node m root ks" if "pathok ks" for ks
  proof (rule node_frame)
    fix qs k rest q
    assume ks: "ks = qs @ k # rest" and q: "node m root qs = Some q"
    have "pathok qs" "k < 512" using that ks by (auto simp: pathok_def)
    then show "ent m' q k = ent m q k" using q by (intro same) (auto intro: tablesI)
  qed
  then show "pathok ks \<Longrightarrow> node m' root ks = node m root ks" .
  show tb: "tables m' root = tables m root" using nd by (auto simp: tables_def)
  show "pt_inv e m' root" using assms(1) nd unfolding pt_inv_def tb by metis
  show "leaf m' root va = leaf m root va"
    using nd [of "va_path va"] tablesI [of "va_path va" m root]
    by (auto simp: leaf_def PX_less same split: option.split)
qed

text \<open>Storing an entry of a last-level table.\<close>

lemma store_leaf:
  fixes m root ks p k w
  defines "m' \<equiv> store64 m (slot p k) w"
  assumes inv: "pt_inv e m root" and p: "node m root ks = Some p" "pathok ks" "length ks = 2" and k: "k < 512"
  shows "pathok qs \<Longrightarrow> node m' root qs = node m root qs"
    and "tables m' root = tables m root" and "pt_inv e m' root"
    and "leaf m' root va = (if va_path va = ks \<and> PX 0 va = k then w else leaf m root va)"
proof -
  have al: "page_aligned q" if "node m root qs = Some q" "pathok qs" for q qs
    using pt_inv_kpage [OF inv that(2,1)] by (rule kpage_aligned)
  have nd: "node m' root qs = node m root qs" if "pathok qs" for qs
  proof (rule node_frame)
    fix as j rest q
    assume qs: "qs = as @ j # rest" and q: "node m root as = Some q"
    have as: "pathok as" "length as < 2" "j < 512" using that qs by (auto simp: pathok_def)
    then have "q \<noteq> p" using pt_inv_inj [OF inv as(1) p(2) q] p by auto
    then show "ent m' q j = ent m q j"
      using al [OF q as(1)] al [OF p(1,2)] as(3) k by (simp add: m'_def ent_store)
  qed
  then show "pathok qs \<Longrightarrow> node m' root qs = node m root qs" .
  show tb: "tables m' root = tables m root" using nd by (auto simp: tables_def)
  show "pt_inv e m' root" using inv nd unfolding pt_inv_def tb by metis
  show "leaf m' root va = (if va_path va = ks \<and> PX 0 va = k then w else leaf m root va)"
  proof (cases "node m root (va_path va)")
    case None
    then show ?thesis using p nd [of "va_path va"] by (auto simp: leaf_def)
  next
    case (Some q)
    have "q = p \<longleftrightarrow> va_path va = ks" using pt_inv_inj [OF inv _ p(2) Some] Some p(1) by auto
    then show ?thesis
      using Some nd [of "va_path va"] al [OF Some] al [OF p(1,2)] k
      by (auto simp: leaf_def m'_def ent_store PX_less)
  qed
qed

text \<open>Hanging a fresh zeroed page into the tree.\<close>

lemma store_table:
  fixes m root ks p k x m1
  defines "m' \<equiv> store64 m1 (slot p k) (PA2PTE x OR PTE_V)"
  assumes inv: "pt_inv e m root" and p: "node m root ks = Some p" "pathok (ks @ [k])"
    and free: "\<not> valid (ent m p k)" and x: "kpage e x" "x \<notin> tables m root"
    and m1: "\<forall>a. \<not> on_page x a \<longrightarrow> m1 a = m a" "\<forall>j<512. ent m1 x j = 0"
  shows "pathok qs \<Longrightarrow> node m' root qs = (if qs = ks @ [k] then Some x else node m root qs)"
    and "tables m' root = insert x (tables m root)" and "pt_inv e m' root"
    and "leaf m' root va = leaf m root va"
proof -
  have ks: "pathok ks" "length ks \<le> 1" "k < 512" using p(2) by (auto simp: pathok_def)
  have pt: "p \<in> tables m root" using tablesI [OF ks(1) p(1)] .
  then have px: "p \<noteq> x" using x(2) by auto
  have al: "page_aligned q" if "q \<in> insert x (tables m root)" for q
    using that inv x(1) by (auto simp: pt_inv_def kpage_def)
  have old: "ent m' q j = ent m q j" if "q \<in> tables m root" "j < 512" "q \<noteq> p \<or> j \<noteq> k" for q j
  proof -
    have "q \<noteq> x" using that(1) x(2) by auto
    then have "ent m1 q j = ent m q j" using that al m1(1) by (intro ent_frame [of q x]) auto
    then show ?thesis using that al pt ks(3) by (auto simp: m'_def ent_store)
  qed
  have new: "ent m' p k = PA2PTE x OR PTE_V" "\<And>j. j < 512 \<Longrightarrow> ent m' x j = 0"
    using al pt px ks(3) m1(2) by (auto simp: m'_def ent_store)
  have keep: "node m' root qs = node m root qs" if "pathok qs" "\<nexists>rest. qs = ks @ k # rest" for qs
  proof (rule node_frame)
    fix as j rest q
    assume qs: "qs = as @ j # rest" and q: "node m root as = Some q"
    have as: "pathok as" "j < 512" using that(1) qs by (auto simp: pathok_def)
    have "q = p \<Longrightarrow> as = ks" using pt_inv_inj [OF inv as(1) ks(1) q] p(1) by simp
    then show "ent m' q j = ent m q j" using that(2) qs as q by (intro old) (auto intro: tablesI)
  qed
  have below: "node m' root (ks @ k # rest) = (if rest = [] then Some x else None)" if "pathok (ks @ k # rest)" for rest
  proof -
    have "node m' root ks = Some p" using keep [OF ks(1)] p(1) by simp
    moreover have "PTE2PA (PA2PTE x OR PTE_V) = x" using x(1) by (intro PTE2PA_PA2PTE) (simp_all add: kpage_def)
    ultimately show ?thesis using new that by (cases rest) (auto simp: node_append pathok_def)
  qed
  have none: "node m root (ks @ k # rest) = None" for rest using p(1) free by (simp add: node_append)
  show nd: "node m' root qs = (if qs = ks @ [k] then Some x else node m root qs)" if "pathok qs" for qs
    using keep [OF that] below that none
    by (cases "\<exists>rest. qs = ks @ k # rest") (auto split: if_splits)
  have oldp: "qs \<noteq> ks @ [k]" if "node m root qs = Some q" for qs q
    using none [of "[]"] that by auto
  show tb: "tables m' root = insert x (tables m root)"
  proof (intro equalityI subsetI)
    fix q assume "q \<in> tables m' root"
    then obtain qs where "pathok qs" "node m' root qs = Some q" by (auto simp: tables_def)
    then show "q \<in> insert x (tables m root)"
      using nd [of qs] by (auto split: if_splits intro: tablesI)
  next
    fix q assume "q \<in> insert x (tables m root)"
    then consider "q = x" | qs where "pathok qs" "node m root qs = Some q" by (auto simp: tables_def)
    then show "q \<in> tables m' root"
    proof cases
      case 1
      then show ?thesis using tablesI [OF p(2)] nd [OF p(2)] by simp
    next
      case 2
      then show ?thesis using tablesI [OF 2(1)] nd [OF 2(1)] oldp by simp
    qed
  qed
  have inj: "qs = rs" if "pathok qs" "pathok rs" "node m' root qs = Some q" "node m' root rs = Some q" for qs rs q
    using that nd [OF that(1)] nd [OF that(2)] pt_inv_inj [OF inv that(1,2), of q] x(2)
    by (auto split: if_splits intro: tablesI)
  show "pt_inv e m' root"
    unfolding pt_inv_def tb using inv x(1) inj by (auto simp: pt_inv_def)
  show "leaf m' root va = leaf m root va"
  proof (cases "va_path va = ks @ [k]")
    case True
    then show ?thesis using nd [OF p(2)] none [of "[]"] new(2) by (simp add: leaf_def PX_less)
  next
    case False
    have "q \<noteq> p" if "node m root (va_path va) = Some q" for q
      using pt_inv_inj [OF inv pathok_va(1) ks(1) that] p(1) ks(2) by (auto simp: va_path_def)
    then show ?thesis using False nd [of "va_path va"] tablesI [of "va_path va" m root]
      by (auto simp: leaf_def PX_less old split: option.split)
  qed
qed

subsection \<open>Walking\<close>

definition vm_inv :: "uint64 list \<Rightarrow> uint64 \<Rightarrow> 'a kmem_scheme \<Rightarrow> bool" where
  "vm_inv xs root s \<longleftrightarrow> kalloc_ready xs s \<and> pt_inv (kend s) (mem s) root \<and>
     set xs \<inter> tables (mem s) root = {}"

text \<open>Only memory and the free list differ.\<close>

definition kmem_same :: "'a kmem_scheme \<Rightarrow> 'a kmem_scheme \<Rightarrow> bool" where
  "kmem_same s t \<longleftrightarrow> t = s\<lparr>mem := mem t, freelist := freelist t\<rparr>"

lemma kmem_same_refl [simp]: "kmem_same s s"
  by (simp add: kmem_same_def)

lemma kmem_same_trans: "kmem_same s t \<Longrightarrow> kmem_same t u \<Longrightarrow> kmem_same s u"
  by (cases s; cases t; cases u) (simp add: kmem_same_def)

lemma kmem_same_mem [simp]: "kmem_same s (t\<lparr>mem := m\<rparr>) = kmem_same s t"
  "kmem_same s (t\<lparr>freelist := r\<rparr>) = kmem_same s t"
  by (cases s; cases t; simp add: kmem_same_def)+

lemma kmem_same_kend: "kmem_same s t \<Longrightarrow> kend t = kend s"
  by (cases s; cases t) (simp add: kmem_same_def)

lemma kmem_same_held: "kmem_same s t \<Longrightarrow> held t = held s"
  by (cases s; cases t) (simp add: kmem_same_def)

text \<open>
  From \<open>s\<close> to \<open>t\<close> some free pages have become tables; nothing outside the tables
  has changed.
\<close>

definition vm_grow :: "uint64 \<Rightarrow> uint64 list \<Rightarrow> 'a kmem_scheme \<Rightarrow> uint64 list \<Rightarrow> 'a kmem_scheme \<Rightarrow> bool" where
  "vm_grow root xs s xs' t \<longleftrightarrow> (\<exists>ys. xs = ys @ xs' \<and> tables (mem t) root = tables (mem s) root \<union> set ys) \<and>
     vm_inv xs' root t \<and> kmem_same s t \<and>
     (\<forall>a. (\<forall>p \<in> tables (mem t) root. \<not> on_page p a) \<longrightarrow> mem t a = mem s a)"

lemma vm_grow_refl: "vm_inv xs root s \<Longrightarrow> vm_grow root xs s xs s"
  by (simp add: vm_grow_def)

lemma vm_growD: "vm_grow root xs s xs' t \<Longrightarrow> vm_inv xs' root t"
  unfolding vm_grow_def by blast

lemma vm_grow_trans:
  assumes "vm_grow root xs s ys t" "vm_grow root ys t zs u"
  shows "vm_grow root xs s zs u"
proof -
  obtain as bs where *: "xs = as @ ys" "tables (mem t) root = tables (mem s) root \<union> set as"
    "ys = bs @ zs" "tables (mem u) root = tables (mem t) root \<union> set bs"
    using assms unfolding vm_grow_def by blast
  have "kmem_same s u" using assms kmem_same_trans unfolding vm_grow_def by blast
  moreover have "\<exists>cs. xs = cs @ zs \<and> tables (mem u) root = tables (mem s) root \<union> set cs"
    using * by (intro exI [of _ "as @ bs"]) auto
  ultimately show ?thesis using assms * unfolding vm_grow_def by auto
qed

text \<open>A page is taken from the free list, zeroed and put into the tree.\<close>

lemma vm_grow_table:
  fixes s :: "'a kmem_scheme"
  assumes inv: "vm_inv (x # xs) root s" and p: "node (mem s) root ks = Some p" "pathok (ks @ [k])"
    and free: "\<not> valid (ent (mem s) p k)"
  defines "t \<equiv> allocated s\<lparr>mem := store64 (memset (mem (allocated s)) x 0 4096) (slot p k) (PA2PTE x OR PTE_V)\<rparr>"
  shows "kalloc s = Ok (x, allocated s)" "x \<noteq> 0" "vm_grow root (x # xs) s xs t"
    "node (mem t) root (ks @ [k]) = Some x" "leaf (mem t) root va = leaf (mem s) root va"
proof -
  have rdy: "kalloc_ready (x # xs) s" and pt: "pt_inv (kend s) (mem s) root"
    and disj: "set (x # xs) \<inter> tables (mem s) root = {}"
    using inv by (simp_all add: vm_inv_def)
  note al = kalloc_Cons [OF rdy]
  show "kalloc s = Ok (x, allocated s)" by (rule al(1))
  show "x \<noteq> 0" using rdy kmem_inv_nz [of "x # xs" s] by (simp add: kalloc_ready_def)
  have x: "kpage (kend s) x" "freelist s = x" "x \<notin> set xs" "x \<notin> tables (mem s) root"
    using rdy disj by (auto simp: kalloc_ready_def kmem_inv_def)
  have xa: "page_aligned x" using x(1) by (rule kpage_aligned)
  let ?m1 = "memset (mem (allocated s)) x 0 4096"
  have m1: "\<forall>a. \<not> on_page x a \<longrightarrow> ?m1 a = mem s a"
    using allocated_frame [of s] x(2) by (simp add: memset_page)
  have z: "\<forall>j<512. ent ?m1 x j = 0" using load64_memset_page [OF xa xa] by (simp add: ent_def)
  have mt: "mem t = store64 ?m1 (slot p k) (PA2PTE x OR PTE_V)" by (simp add: t_def)
  note st = store_table [OF pt p free x(1,4) m1 z, folded mt]
  show "node (mem t) root (ks @ [k]) = Some x" using st(1) [OF p(2)] by simp
  show "leaf (mem t) root va = leaf (mem s) root va" by (rule st(4))
  have k: "k < 512" "pathok ks" using p(2) by (auto simp: pathok_def)
  have pp: "p \<in> tables (mem s) root" "page_aligned p"
    using tablesI [OF k(2) p(1)] kpage_aligned [OF pt_inv_kpage [OF pt k(2) p(1)]] by auto
  have "kmem_inv xs (allocated s)" using al(2) by (simp add: kalloc_ready_def)
  then have "kmem_inv xs (allocated s\<lparr>mem := ?m1\<rparr>)"
    using x(3) xa by (intro kmem_inv_frame [of xs _ x]) (simp_all add: memset_page)
  from kmem_inv_frame [OF this pp(2), of "mem t"]
  have "kmem_inv xs t"
    using pp disj store64_off_page [OF pp(2) k(1)] by (auto simp: mt t_def)
  then have "kalloc_ready xs t" using al(2) by (simp add: kalloc_ready_def t_def)
  moreover have "kend t = kend s" by (simp add: t_def allocated_def)
  ultimately have "vm_inv xs root t" using st(2,3) disj x(3) by (auto simp: vm_inv_def)
  moreover have "mem t a = mem s a" if "\<forall>p \<in> tables (mem t) root. \<not> on_page p a" for a
  proof -
    have "\<not> on_page p a" "\<not> on_page x a" using that pp(1) st(2) by auto
    then show ?thesis using store64_off_page [OF pp(2) k(1)] m1 by (simp add: mt)
  qed
  moreover have "kmem_same s t" by (simp add: t_def allocated_def)
  ultimately show "vm_grow root (x # xs) s xs t"
    unfolding vm_grow_def using st(2) by (auto intro: exI [of _ "[x]"])
qed

lemma walk_loop_spec:
  assumes "vm_inv xs root s" "node (mem s) root ks = Some pt" "ks @ map (\<lambda>l. PX l va) ls = va_path va"
  shows "\<exists>r t xs'. walk_loop ls pt va alloc s = Ok (r, t) \<and> vm_grow root xs s xs' t \<and>
    (\<forall>va. leaf (mem t) root va = leaf (mem s) root va) \<and>
    node (mem t) root (va_path va) = r \<and> (alloc \<and> r = None \<longrightarrow> xs' = []) \<and>
    (\<not> alloc \<longrightarrow> t = s \<and> xs' = xs) \<and> length xs \<le> length xs' + length ls"
  using assms
proof (induction ls arbitrary: ks pt s xs)
  case Nil
  then show ?case using vm_grow_refl [of xs root s] by auto
next
  case (Cons l ls)
  let ?k = "PX l va"
  have path: "va_path va = (ks @ [?k]) @ map (\<lambda>l. PX l va) ls" using Cons.prems(3) by simp
  then have ok: "pathok (ks @ [?k])" using pathok_append pathok_va(1) by metis
  show ?case
  proof (cases "valid (ent (mem s) pt ?k)")
    case True
    then have "node (mem s) root (ks @ [?k]) = Some (PTE2PA (ent (mem s) pt ?k))"
      using Cons.prems(2) by (simp add: node_append)
    from Cons.IH [OF Cons.prems(1) this path [symmetric]]
    show ?thesis using True by (fastforce simp: ent_def valid_def)
  next
    case False
    then have none: "node (mem s) root (va_path va) = None"
      using Cons.prems(2) unfolding path by (simp add: node_append)
    show ?thesis
    proof (cases alloc)
      case na: False
      then show ?thesis using False none vm_grow_refl [OF Cons.prems(1)]
        by (auto simp: ent_def valid_def)
    next
      case True
      show ?thesis
      proof (cases xs)
        case Nil
        then have "kalloc s = Ok (0, s)"
          using Cons.prems(1) by (intro kalloc_pages.alloc_Nil) (simp add: vm_inv_def)
        then show ?thesis using Nil True False none vm_grow_refl [OF Cons.prems(1)]
          by (auto simp: ent_def valid_def)
      next
        case (Cons x ys)
        define u where "u = allocated s\<lparr>mem := store64 (memset (mem (allocated s)) x 0 4096)
          (slot pt ?k) (PA2PTE x OR PTE_V)\<rparr>"
        note g = vm_grow_table [OF Cons.prems(1) [unfolded Cons] Cons.prems(2) ok False, folded u_def]
        from Cons.IH [OF vm_growD [OF g(3)] g(4) path [symmetric]]
        obtain r t xs' where IH: "walk_loop ls x va alloc u = Ok (r, t)" "vm_grow root ys u xs' t"
          "\<forall>va. leaf (mem t) root va = leaf (mem u) root va"
          "node (mem t) root (va_path va) = r" "alloc \<and> r = None \<longrightarrow> xs' = []"
          "length ys \<le> length xs' + length ls"
          by (elim exE conjE) (rule that, assumption+)
        have "walk_loop (l # ls) pt va alloc s = Ok (r, t)"
          using IH(1) g(1,2) False True by (simp add: ent_def valid_def u_def)
        then show ?thesis
          using IH(3-6) g(5) True vm_grow_trans [OF g(3) IH(2)] Cons by auto
      qed
    qed
  qed
qed

lemma slot_nz:
  assumes "kpage e p" "0 < e" "k < 512"
  shows "slot p k \<noteq> 0"
proof -
  have "8 * k < PGSIZE" using slot_off_less [OF assms(3), of 0] by simp
  then have "unat (slot p k) = unat p + unat (8 * k)"
    using assms(1) by (intro unat_page_off) (simp_all add: kpage_def)
  moreover have "0 < unat p" using kpage_nz [OF assms(1,2)] by (simp add: unat_gt_0)
  ultimately show ?thesis by (metis add_is_0 less_irrefl unsigned_0)
qed

lemma vm_inv_kpage: "vm_inv xs root s \<Longrightarrow> node (mem s) root (va_path va) = Some p \<Longrightarrow> kpage (kend s) p"
  using pt_inv_kpage [OF _ pathok_va(1)] by (auto simp: vm_inv_def)

lemma vm_inv_kend: "vm_inv xs root s \<Longrightarrow> 0 < kend s"
  by (simp add: vm_inv_def kalloc_ready_def kmem_inv_def)

lemma vm_grow_kend: "vm_grow root xs s xs' t \<Longrightarrow> kend t = kend s"
  by (simp add: vm_grow_def kmem_same_kend)

text \<open>The entry of a virtual address in the page table, when there is a last-level table for it.\<close>

definition pte_at :: "uint64 \<Rightarrow> uint64 \<Rightarrow> 'a kmem_scheme \<Rightarrow> uint64 \<Rightarrow> bool" where
  "pte_at root va s pte \<longleftrightarrow> (\<exists>p. node (mem s) root (va_path va) = Some p \<and> pte = slot p (PX 0 va))"

lemma pte_at_leaf: "pte_at root va s pte \<Longrightarrow> load64 (mem s) pte = leaf (mem s) root va"
  by (auto simp: pte_at_def leaf_def ent_def)

lemma walk_spec:
  assumes inv: "vm_inv xs root s" and va: "va < MAXVA"
  shows "\<exists>pte t xs'. walk root va alloc s = Ok (pte, t) \<and> vm_grow root xs s xs' t \<and>
    (\<forall>v. leaf (mem t) root v = leaf (mem s) root v) \<and>
    (pte = 0 \<longrightarrow> leaf (mem s) root va = 0 \<and> (alloc \<longrightarrow> xs' = [])) \<and>
    (pte \<noteq> 0 \<longrightarrow> pte_at root va t pte) \<and> (\<not> alloc \<longrightarrow> t = s \<and> xs' = xs) \<and> length xs \<le> length xs' + 2"
proof -
  obtain r t xs' where r: "walk_loop [2, 1] root va alloc s = Ok (r, t)" "vm_grow root xs s xs' t"
    "\<forall>v. leaf (mem t) root v = leaf (mem s) root v" "node (mem t) root (va_path va) = r"
    "alloc \<and> r = None \<longrightarrow> xs' = []" "\<not> alloc \<longrightarrow> t = s \<and> xs' = xs" "length xs \<le> length xs' + 2"
    using walk_loop_spec [OF inv, of "[]" root va "[2, 1]" alloc]
    by (auto simp: va_path_def)
  have lf: "r = None \<Longrightarrow> leaf (mem s) root va = 0"
    using r(3) [rule_format, of va] r(4) by (simp add: leaf_def [of "mem t"])
  show ?thesis
  proof (cases r)
    case None
    then show ?thesis using r va lf by (auto simp: walk_def)
  next
    case (Some p)
    have "kpage (kend s) p" using vm_inv_kpage [OF vm_growD [OF r(2)]] r(4) Some vm_grow_kend [OF r(2)] by simp
    then have "slot p (PX 0 va) \<noteq> 0" using vm_inv_kend [OF inv] by (intro slot_nz PX_less)
    then show ?thesis using r va Some by (auto simp: walk_def pte_at_def not_le)
  qed
qed

subsection \<open>Storing an entry\<close>

lemma PX_PGROUNDDOWN: "PX l (PGROUNDDOWN va) = PX l va"
  by (rule bit_eqI) (auto simp: bit_PX PGROUNDDOWN_bits bit_simps add.assoc dest: bit_imp_le_length)

lemma PGROUNDDOWN_less_MAXVA: "va < MAXVA \<Longrightarrow> PGROUNDDOWN va < MAXVA"
  using PGROUNDDOWN_less_iff [OF MAXVA_aligned] by blast

lemma same_page_iff:
  assumes "va < MAXVA" "vb < MAXVA"
  shows "va_path va = va_path vb \<and> PX 0 va = PX 0 vb \<longleftrightarrow> PGROUNDDOWN va = PGROUNDDOWN vb"
proof
  assume "va_path va = va_path vb \<and> PX 0 va = PX 0 vb"
  then have "PX l (PGROUNDDOWN va) = PX l (PGROUNDDOWN vb)" if "l \<in> {0, 1, 2}" for l
    using that by (auto simp: va_path_def PX_PGROUNDDOWN)
  then show "PGROUNDDOWN va = PGROUNDDOWN vb"
    by (intro PX_inject [OF PGROUNDDOWN_less_MAXVA [OF assms(1)] PGROUNDDOWN_less_MAXVA [OF assms(2)]]) simp_all
next
  assume *: "PGROUNDDOWN va = PGROUNDDOWN vb"
  have "PX l va = PX l vb" for l
    using PX_PGROUNDDOWN [of l va] PX_PGROUNDDOWN [of l vb] unfolding * by simp
  then show "va_path va = va_path vb \<and> PX 0 va = PX 0 vb" by (simp add: va_path_def)
qed

lemma set_entry:
  assumes "vm_grow root xs s xs' t" "pte_at root va t pte" "va < MAXVA"
  shows "vm_grow root xs s xs' (t\<lparr>mem := store64 (mem t) pte w\<rparr>)"
    and "v < MAXVA \<Longrightarrow> leaf (store64 (mem t) pte w) root v =
      (if PGROUNDDOWN v = PGROUNDDOWN va then w else leaf (mem t) root v)"
proof -
  obtain p where p: "node (mem t) root (va_path va) = Some p" and pte: "pte = slot p (PX 0 va)"
    using assms(2) by (auto simp: pte_at_def)
  have inv: "vm_inv xs' root t" by (rule vm_growD [OF assms(1)])
  then have pt: "pt_inv (kend t) (mem t) root" by (simp add: vm_inv_def)
  note st = store_leaf [OF pt p pathok_va(1) _ PX_less [of 0 va], folded pte]
  have pp: "p \<in> tables (mem t) root" "page_aligned p"
    using tablesI [OF _ p] kpage_aligned [OF vm_inv_kpage [OF inv p]] by simp_all
  have off: "\<not> on_page p a \<Longrightarrow> store64 (mem t) pte w a = mem t a" for a
    unfolding pte by (rule store64_off_page [OF pp(2) PX_less])
  have "kmem_inv xs' (t\<lparr>mem := store64 (mem t) pte w\<rparr>)"
    using inv pp off by (intro kmem_inv_frame [of xs' t p]) (auto simp: vm_inv_def kalloc_ready_def)
  then have "vm_inv xs' root (t\<lparr>mem := store64 (mem t) pte w\<rparr>)"
    using inv st(2,3) by (simp add: vm_inv_def kalloc_ready_def va_path_def)
  moreover have "\<exists>ys. xs = ys @ xs' \<and> tables (store64 (mem t) pte w) root = tables (mem s) root \<union> set ys"
    using assms(1) st(2) by (auto simp: vm_grow_def va_path_def)
  moreover have "kmem_same s (t\<lparr>mem := store64 (mem t) pte w\<rparr>)" using assms(1) by (simp add: vm_grow_def)
  moreover have "store64 (mem t) pte w a = mem s a" if "\<forall>q \<in> tables (mem t) root. \<not> on_page q a" for a
    using that off [of a] pp(1) assms(1) by (auto simp: vm_grow_def)
  ultimately show "vm_grow root xs s xs' (t\<lparr>mem := store64 (mem t) pte w\<rparr>)"
    unfolding vm_grow_def using st(2) by (simp add: va_path_def)
  show "leaf (store64 (mem t) pte w) root v =
      (if PGROUNDDOWN v = PGROUNDDOWN va then w else leaf (mem t) root v)" if "v < MAXVA"
    using st(4) [of w v] same_page_iff [OF that assms(3)] by (simp add: va_path_def)
qed

subsection \<open>Mapping a range\<close>

text \<open>The specification: the map updated page by page.\<close>

fun map_run :: "(uint64 \<Rightarrow> uint64) \<Rightarrow> uint64 \<Rightarrow> uint64 \<Rightarrow> uint64 \<Rightarrow> nat \<Rightarrow> uint64 \<Rightarrow> uint64" where
  "map_run f a pa perm 0 = f"
| "map_run f a pa perm (Suc n) =
     map_run (\<lambda>v. if PGROUNDDOWN v = a then PA2PTE pa OR perm OR PTE_V else f v) (a + PGSIZE) (pa + PGSIZE) perm n"

lemma map_run_cong:
  "(\<And>v. v < MAXVA \<Longrightarrow> f v = g v) \<Longrightarrow> v < MAXVA \<Longrightarrow> map_run f a pa perm n v = map_run g a pa perm n v"
proof (induction n arbitrary: f g a pa)
  case (Suc n)
  show ?case unfolding map_run.simps by (rule Suc.IH) (use Suc.prems in simp_all)
qed simp

lemma page_aligned_off: "page_aligned a \<Longrightarrow> page_aligned (a + PGSIZE * of_nat i)"
proof (induction i)
  case (Suc i)
  then show ?case using page_aligned_next [of "a + PGSIZE * of_nat i"] by (simp add: algebra_simps)
qed simp

lemma unat_page_n:
  assumes "unat a + 4096 * i < 2 ^ 64"
  shows "unat (a + PGSIZE * of_nat i) = unat a + 4096 * i"
proof -
  have eq: "a + PGSIZE * of_nat i = of_nat (unat a + 4096 * i)" by simp
  show ?thesis unfolding eq by (rule unat_of_nat_64 [OF assms])
qed

lemma walk_and_set:
  assumes "vm_inv xs root s" "page_aligned a" "a < MAXVA"
  obtains (full) t where "walk root a True s = Ok (0, t)" "vm_grow root xs s [] t" "length xs \<le> 2"
      "\<And>v. leaf (mem t) root v = leaf (mem s) root v"
  | (found) pte t xs' where "walk root a True s = Ok (pte, t)" "pte \<noteq> 0"
      "load64 (mem t) pte = leaf (mem s) root a" "vm_grow root xs s xs' (t\<lparr>mem := store64 (mem t) pte w\<rparr>)"
      "length xs \<le> length xs' + 2"
      "\<And>v. v < MAXVA \<Longrightarrow> leaf (store64 (mem t) pte w) root v = (if PGROUNDDOWN v = a then w else leaf (mem s) root v)"
proof -
  obtain pte t xs' where w: "walk root a True s = Ok (pte, t)" "vm_grow root xs s xs' t"
    "\<forall>v. leaf (mem t) root v = leaf (mem s) root v" "pte = 0 \<longrightarrow> xs' = []" "pte \<noteq> 0 \<longrightarrow> pte_at root a t pte"
    "length xs \<le> length xs' + 2"
    using walk_spec [OF assms(1,3), of True] by blast
  show ?thesis
  proof (cases "pte = 0")
    case True
    then show ?thesis using full w by simp
  next
    case False
    then have at: "pte_at root a t pte" using w(5) by simp
    show ?thesis
      using found [OF w(1) False _ set_entry(1) [OF w(2) at assms(3)] w(6)] set_entry(2) [OF w(2) at assms(3)]
        pte_at_leaf [OF at] w(3) assms(2) by (simp add: PGROUNDDOWN_id)
  qed
qed

lemma later_page:
  assumes "unat a + 4096 * Suc n < unat MAXVA" "i \<le> n"
  shows "a + PGSIZE * of_nat (Suc i) < MAXVA" "a + PGSIZE * of_nat (Suc i) \<noteq> a"
proof -
  have un: "unat (a + PGSIZE * of_nat (Suc i)) = unat a + 4096 * Suc i"
    using assms by (intro unat_page_n) simp
  show "a + PGSIZE * of_nat (Suc i) < MAXVA" unfolding word_less_nat_alt un using assms by simp
  show "a + PGSIZE * of_nat (Suc i) \<noteq> a" using un by (auto simp del: of_nat_Suc)
qed

lemma next_page_run: "a + PGSIZE + PGSIZE * of_nat i = a + PGSIZE * of_nat (Suc i)" for a :: uint64
  by (simp add: algebra_simps)

lemma mappages_loop_spec:
  assumes "vm_inv xs root s" "page_aligned a" "unat a + 4096 * n < unat MAXVA"
    and "\<forall>i\<le>n. \<not> valid (leaf (mem s) root (a + PGSIZE * of_nat i))"
  shows "\<exists>r t xs' k. mappages_loop root a (a + PGSIZE * of_nat n) pa perm s = Ok (r, t) \<and>
    vm_grow root xs s xs' t \<and> (r = 0 \<and> k = Suc n \<or> r = -1 \<and> k \<le> n \<and> xs' = []) \<and>
    (\<forall>v<MAXVA. leaf (mem t) root v = map_run (leaf (mem s) root) a pa perm k v) \<and>
    length xs \<le> length xs' + 2 * Suc k"
  using assms
proof (induction n arbitrary: a pa s xs)
  case (0 a pa s xs)
  have a: "a < MAXVA" using 0(3) by (simp add: word_less_nat_alt)
  show ?case
  proof (cases rule: walk_and_set [OF 0(1,2) a, where w = "PA2PTE pa OR perm OR PTE_V", case_names full found])
    case (full t)
    then show ?thesis by (intro exI [of _ "-1"] exI [of _ t] exI [of _ "[]"] exI [of _ 0]) (simp add: mappages_loop.simps)
  next
    case (found pte t xs')
    then show ?thesis using 0(4)
      by (intro exI [of _ 0] exI [of _ "t\<lparr>mem := store64 (mem t) pte (PA2PTE pa OR perm OR PTE_V)\<rparr>"]
          exI [of _ xs'] exI [of _ 1]) (simp add: mappages_loop.simps valid_def)
  qed
next
  case (Suc n a pa s xs)
  have a: "a < MAXVA" using Suc.prems(3) by (simp add: word_less_nat_alt)
  show ?case
  proof (cases rule: walk_and_set [OF Suc.prems(1,2) a, where w = "PA2PTE pa OR perm OR PTE_V", case_names full found])
    case (full t)
    then show ?thesis by (intro exI [of _ "-1"] exI [of _ t] exI [of _ "[]"] exI [of _ 0]) (simp add: mappages_loop.simps)
  next
    case (found pte t xs')
    define u where "u = t\<lparr>mem := store64 (mem t) pte (PA2PTE pa OR perm OR PTE_V)\<rparr>"
    have g: "vm_grow root xs s xs' u" and mu: "mem u = store64 (mem t) pte (PA2PTE pa OR perm OR PTE_V)"
      using found(4) by (simp_all add: u_def)
    have "\<forall>i\<le>n. \<not> valid (leaf (mem u) root (a + PGSIZE + PGSIZE * of_nat i))"
      unfolding next_page_run mu using found(6) later_page [OF Suc.prems(3)] Suc.prems(2,4) page_aligned_off
      by (simp add: PGROUNDDOWN_id del: of_nat_Suc MAXVA_val)
    moreover have "unat (a + PGSIZE) + 4096 * n < unat MAXVA"
      using unat_next_page [of a] Suc.prems(3) by simp
    ultimately obtain r t' xs'' k where IH:
      "mappages_loop root (a + PGSIZE) (a + PGSIZE * of_nat (Suc n)) (pa + PGSIZE) perm u = Ok (r, t')"
      "vm_grow root xs' u xs'' t'" "r = 0 \<and> k = Suc n \<or> r = -1 \<and> k \<le> n \<and> xs'' = []"
      "\<forall>v<MAXVA. leaf (mem t') root v = map_run (leaf (mem u) root) (a + PGSIZE) (pa + PGSIZE) perm k v"
      "length xs' \<le> length xs'' + 2 * Suc k"
      using Suc.IH [OF vm_growD [OF g] page_aligned_next [OF Suc.prems(2)], of "pa + PGSIZE"]
      unfolding next_page_run by blast
    have "mappages_loop root a (a + PGSIZE * of_nat (Suc n)) pa perm s = Ok (r, t')"
      using found(1-3) Suc.prems(4) [rule_format, of 0] later_page(2) [OF Suc.prems(3), of n] IH(1)
      by (subst mappages_loop.simps) (simp add: valid_def u_def eq_commute [of a] del: of_nat_Suc)
    moreover have "leaf (mem t') root v = map_run (leaf (mem s) root) a pa perm (Suc k) v" if "v < MAXVA" for v
      using IH(4) that map_run_cong [of "leaf (mem u) root", OF found(6) [folded mu] that] by simp
    ultimately show ?thesis using vm_grow_trans [OF g IH(2)] IH(3,5) found(5)
      by (intro exI [of _ r] exI [of _ t'] exI [of _ xs''] exI [of _ "Suc k"]) auto
  qed
qed

subsection \<open>Looking up, unmapping\<close>

lemma walkaddr_spec:
  assumes "vm_inv xs root s"
  shows "walkaddr root va s =
    Ok (if va < MAXVA \<and> valid (leaf (mem s) root va) \<and> leaf (mem s) root va AND PTE_U \<noteq> 0
        then PTE2PA (leaf (mem s) root va) else 0)"
proof (cases "va < MAXVA")
  case True
  obtain pte where "walk root va False s = Ok (pte, s)" "pte = 0 \<longrightarrow> leaf (mem s) root va = 0"
    "pte \<noteq> 0 \<longrightarrow> pte_at root va s pte"
    using walk_spec [OF assms True, of False] by auto
  then show ?thesis using True pte_at_leaf [of root va s pte]
    by (auto simp: walkaddr_def valid_def not_le)
qed (auto simp: walkaddr_def not_less)

text \<open>What an operation on the address space may change: the map and the free list, not other pages.\<close>

definition vm_keeps :: "uint64 \<Rightarrow> uint64 set \<Rightarrow> 'a kmem_scheme \<Rightarrow> 'a kmem_scheme \<Rightarrow> bool" where
  "vm_keeps root P s t \<longleftrightarrow> kmem_same s t \<and> tables (mem t) root = tables (mem s) root \<and>
     (\<forall>a. (\<forall>p \<in> tables (mem s) root \<union> P. \<not> on_page p a) \<longrightarrow> mem t a = mem s a)"

lemma vm_keeps_trans:
  assumes "vm_keeps root P s t" "vm_keeps root Q t u"
  shows "vm_keeps root (P \<union> Q) s u"
  using assms kmem_same_trans [of s t u] unfolding vm_keeps_def by (simp add: ball_Un)

lemma set_entry_inv:
  assumes inv: "vm_inv xs root s" and at: "pte_at root va s pte" "va < MAXVA"
  shows "vm_inv xs root (s\<lparr>mem := store64 (mem s) pte w\<rparr>)"
    and "vm_keeps root {} s (s\<lparr>mem := store64 (mem s) pte w\<rparr>)"
    and "v < MAXVA \<Longrightarrow> leaf (store64 (mem s) pte w) root v =
      (if PGROUNDDOWN v = PGROUNDDOWN va then w else leaf (mem s) root v)"
  using set_entry [OF vm_grow_refl [OF inv] at] by (auto simp: vm_grow_def vm_keeps_def)

lemma freed_vm:
  assumes inv: "vm_inv xs root s" and pa: "kpage (kend s) pa" "pa \<notin> set xs" "pa \<notin> tables (mem s) root"
  shows "kfree pa s = Ok (freed pa s)" "vm_inv (pa # xs) root (freed pa s)"
    "vm_keeps root {pa} s (freed pa s)" "leaf (mem (freed pa s)) root v = leaf (mem s) root v"
    "pte_at root v (freed pa s) pte = pte_at root v s pte"
proof -
  have rdy: "kmem_inv xs s" "kmem_lock \<notin> set (held s)" and pt: "pt_inv (kend s) (mem s) root"
    and disj: "set xs \<inter> tables (mem s) root = {}"
    using inv by (simp_all add: vm_inv_def kalloc_ready_def)
  show "kfree pa s = Ok (freed pa s)" by (rule kfree_eq [OF pa(1) rdy(2)])
  have al: "page_aligned pa" using pa(1) by (rule kpage_aligned)
  have fr: "\<not> on_page pa a \<Longrightarrow> mem (freed pa s) a = mem s a" for a using freed_frame [OF al] .
  note out = outside_tables [OF pt al pa(3), of "mem (freed pa s)", OF fr]
  have same: "kend (freed pa s) = kend s" "held (freed pa s) = held s" "kmem_same s (freed pa s)"
    by (simp_all add: freed_def)
  show "vm_inv (pa # xs) root (freed pa s)"
    using freed_inv [OF rdy(1) pa(1,2)] rdy(2) out(2,3) disj pa(3) by (simp add: vm_inv_def kalloc_ready_def same)
  show "vm_keeps root {pa} s (freed pa s)" using out(2) fr same(3) by (auto simp: vm_keeps_def)
  show "leaf (mem (freed pa s)) root v = leaf (mem s) root v" by (rule out(4))
  show "pte_at root v (freed pa s) pte = pte_at root v s pte" using out(1) [of "va_path v"] by (simp add: pte_at_def)
qed

lemma walk_valid:
  assumes "vm_inv xs root s" "va < MAXVA" "valid (leaf (mem s) root va)"
  obtains pte where "walk root va False s = Ok (pte, s)" "pte \<noteq> 0" "pte_at root va s pte"
    "load64 (mem s) pte = leaf (mem s) root va"
proof -
  obtain pte where w: "walk root va False s = Ok (pte, s)" "pte = 0 \<longrightarrow> leaf (mem s) root va = 0"
    "pte \<noteq> 0 \<longrightarrow> pte_at root va s pte"
    using walk_spec [OF assms(1,2), of False] by auto
  moreover have "pte \<noteq> 0" using w(2) assms(3) by auto
  ultimately show ?thesis using that pte_at_leaf by blast
qed

text \<open>One round of \<^verbatim>\<open>uvmunmap\<close>.\<close>

definition unmappable :: "uint64 list \<Rightarrow> uint64 \<Rightarrow> 'a kmem_scheme \<Rightarrow> bool \<Rightarrow> uint64 \<Rightarrow> bool" where
  "unmappable xs root s do_free va \<longleftrightarrow> valid (leaf (mem s) root va) \<and> PTE_FLAGS (leaf (mem s) root va) \<noteq> PTE_V \<and>
     (do_free \<longrightarrow> kpage (kend s) (PTE2PA (leaf (mem s) root va)) \<and>
        PTE2PA (leaf (mem s) root va) \<notin> set xs \<union> tables (mem s) root)"

lemma unmap_step:
  assumes inv: "vm_inv xs root s" and a: "page_aligned a" "a < MAXVA" and u: "unmappable xs root s do_free a"
  defines "pas \<equiv> if do_free then [PTE2PA (leaf (mem s) root a)] else []"
  shows "\<exists>t. vm_inv (pas @ xs) root t \<and> vm_keeps root (set pas) s t \<and>
    (\<forall>v<MAXVA. leaf (mem t) root v = (if PGROUNDDOWN v = a then 0 else leaf (mem s) root v)) \<and>
    (\<forall>b. a < b \<longrightarrow> uvmunmap_loop root a b do_free s = uvmunmap_loop root (a + PGSIZE) b do_free t)"
proof -
  let ?e = "leaf (mem s) root a"
  obtain pte where w: "walk root a False s = Ok (pte, s)" "pte \<noteq> 0" "pte_at root a s pte" "load64 (mem s) pte = ?e"
    using walk_valid [OF inv a(2)] u by (auto simp: unmappable_def)
  define s1 where "s1 = (if do_free then freed (PTE2PA ?e) s else s)"
  have s1: "(if do_free then kfree (PTE2PA ?e) s else Ok s) = Ok s1" "vm_inv (pas @ xs) root s1"
    "vm_keeps root (set pas) s s1" "leaf (mem s1) root v = leaf (mem s) root v" "pte_at root a s1 pte" for v
    using freed_vm [OF inv, of "PTE2PA ?e"] u w(3) inv
    by (auto simp: s1_def pas_def unmappable_def vm_keeps_def)
  let ?t = "s1\<lparr>mem := store64 (mem s1) pte 0\<rparr>"
  note t = set_entry_inv [OF s1(2,5) a(2), where w = 0]
  have "uvmunmap_loop root a b do_free s = uvmunmap_loop root (a + PGSIZE) b do_free ?t" if "a < b" for b
    using that w s1(1) u by (subst uvmunmap_loop.simps) (cases do_free; simp add: unmappable_def valid_def)
  moreover have "vm_keeps root (set pas) s ?t" using vm_keeps_trans [OF s1(3) t(2)] by simp
  ultimately show ?thesis using t(1,3) s1(4) a(1) by (intro exI [of _ ?t]) (simp add: PGROUNDDOWN_id)
qed

definition in_run :: "uint64 \<Rightarrow> nat \<Rightarrow> uint64 \<Rightarrow> bool" where
  "in_run a n v \<longleftrightarrow> (\<exists>i<n. PGROUNDDOWN v = a + PGSIZE * of_nat i)"

lemma in_run_Suc: "in_run a (Suc n) v \<longleftrightarrow> PGROUNDDOWN v = a \<or> in_run (a + PGSIZE) n v"
  unfolding in_run_def next_page_run
  by (auto simp: less_Suc_eq_0_disj simp del: of_nat_Suc)

definition run_pages :: "mem \<Rightarrow> uint64 \<Rightarrow> uint64 \<Rightarrow> nat \<Rightarrow> uint64 list" where
  "run_pages m root a n = map (\<lambda>i. PTE2PA (leaf m root (a + PGSIZE * of_nat i))) [0..<n]"

lemma run_pages_Suc:
  "run_pages m root a (Suc n) = PTE2PA (leaf m root a) # run_pages m root (a + PGSIZE) n"
  unfolding run_pages_def next_page_run by (simp add: upt_conv_Cons map_Suc_upt [symmetric] comp_def del: upt_Suc of_nat_Suc)

lemma uvmunmap_loop_spec:
  assumes "vm_inv xs root s" "page_aligned a" "unat a + 4096 * n \<le> unat MAXVA"
    and "\<forall>i<n. unmappable xs root s do_free (a + PGSIZE * of_nat i)"
    and "do_free \<longrightarrow> distinct (run_pages (mem s) root a n)"
  shows "\<exists>t. uvmunmap_loop root a (a + PGSIZE * of_nat n) do_free s = Ok t \<and>
    vm_inv ((if do_free then rev (run_pages (mem s) root a n) else []) @ xs) root t \<and>
    vm_keeps root (if do_free then set (run_pages (mem s) root a n) else {}) s t \<and>
    (\<forall>v<MAXVA. leaf (mem t) root v = (if in_run a n v then 0 else leaf (mem s) root v))"
  using assms
proof (induction n arbitrary: a s xs)
  case (0 a s xs)
  then show ?case by (simp add: uvmunmap_loop.simps vm_keeps_def in_run_def run_pages_def)
next
  case (Suc n a s xs)
  let ?pas = "if do_free then [PTE2PA (leaf (mem s) root a)] else []"
  have a: "a < MAXVA" using Suc.prems(3) by (simp add: word_less_nat_alt)
  have u0: "unmappable xs root s do_free a" using Suc.prems(4) [rule_format, of 0] by simp
  obtain u where u: "vm_inv (?pas @ xs) root u" "vm_keeps root (set ?pas) s u"
    "\<forall>v<MAXVA. leaf (mem u) root v = (if PGROUNDDOWN v = a then 0 else leaf (mem s) root v)"
    "\<forall>b. a < b \<longrightarrow> uvmunmap_loop root a b do_free s = uvmunmap_loop root (a + PGSIZE) b do_free u"
    using unmap_step [OF Suc.prems(1,2) a u0] by blast
  have later: "leaf (mem u) root (a + PGSIZE * of_nat (Suc i)) = leaf (mem s) root (a + PGSIZE * of_nat (Suc i))"
    if "i < n" for i
    using u(3) later_page [of a "n - 1" i] page_aligned_off [OF Suc.prems(2), of "Suc i"] that Suc.prems(3)
    by (simp add: PGROUNDDOWN_id del: of_nat_Suc)
  have runs: "run_pages (mem u) root (a + PGSIZE) n = run_pages (mem s) root (a + PGSIZE) n"
    unfolding run_pages_def next_page_run using later by (simp del: of_nat_Suc)
  have tb: "tables (mem u) root = tables (mem s) root" "kend u = kend s"
    using u(2) kmem_same_kend by (auto simp: vm_keeps_def)
  have fresh: "PTE2PA (leaf (mem s) root (a + PGSIZE * of_nat (Suc i))) \<noteq> PTE2PA (leaf (mem s) root a)"
    if "do_free" "i < n" for i
    using Suc.prems(5) that unfolding run_pages_Suc unfolding run_pages_def next_page_run
    by (force simp del: of_nat_Suc)
  have "\<forall>i<n. unmappable (?pas @ xs) root u do_free (a + PGSIZE + PGSIZE * of_nat i)"
    unfolding next_page_run unmappable_def tb
    using later Suc.prems(4) fresh unfolding unmappable_def by (auto simp del: of_nat_Suc)
  moreover have "unat (a + PGSIZE) + 4096 * n \<le> unat MAXVA"
    using unat_next_page [of a] Suc.prems(3) by simp
  ultimately obtain t where t: "uvmunmap_loop root (a + PGSIZE) (a + PGSIZE * of_nat (Suc n)) do_free u = Ok t"
    "vm_inv ((if do_free then rev (run_pages (mem s) root (a + PGSIZE) n) else []) @ ?pas @ xs) root t"
    "vm_keeps root (if do_free then set (run_pages (mem s) root (a + PGSIZE) n) else {}) u t"
    "\<forall>v<MAXVA. leaf (mem t) root v = (if in_run (a + PGSIZE) n v then 0 else leaf (mem u) root v)"
    using Suc.IH [OF u(1) page_aligned_next [OF Suc.prems(2)]] Suc.prems(5)
    unfolding runs next_page_run run_pages_Suc by auto
  have "a < a + PGSIZE * of_nat (Suc n)"
    unfolding word_less_nat_alt using unat_page_n [of a "Suc n"] Suc.prems(3) by (simp del: of_nat_Suc)
  then have "uvmunmap_loop root a (a + PGSIZE * of_nat (Suc n)) do_free s = Ok t" using u(4) t(1) by simp
  then show ?case using t(2,4) u(3) vm_keeps_trans [OF u(2) t(3)]
    by (intro exI [of _ t]) (auto simp: run_pages_Suc in_run_Suc simp del: of_nat_Suc)
qed

lemma mappages_spec:
  assumes "vm_inv xs root s" "0 < n" "PGROUNDDOWN (va + sz - 1) = PGROUNDDOWN va + PGSIZE * of_nat (n - 1)" "sz \<noteq> 0"
    and "unat (PGROUNDDOWN va) + 4096 * n \<le> unat MAXVA"
    and "\<forall>i<n. \<not> valid (leaf (mem s) root (PGROUNDDOWN va + PGSIZE * of_nat i))"
  shows "\<exists>r t xs' k. mappages root va sz pa perm s = Ok (r, t) \<and> vm_grow root xs s xs' t \<and>
    (r = 0 \<and> k = n \<or> r = -1 \<and> k < n \<and> xs' = [] \<and> length xs \<le> 2 * n) \<and>
    (\<forall>v<MAXVA. leaf (mem t) root v = map_run (leaf (mem s) root) (PGROUNDDOWN va) pa perm k v)"
proof -
  have b: "unat (PGROUNDDOWN va) + 4096 * (n - 1) < unat MAXVA" using assms(2,5) by simp
  have f: "\<forall>i\<le>n - 1. \<not> valid (leaf (mem s) root (PGROUNDDOWN va + PGSIZE * of_nat i))" using assms(2,6) by auto
  obtain r t xs' k where m: "mappages_loop root (PGROUNDDOWN va) (PGROUNDDOWN va + PGSIZE * of_nat (n - 1)) pa perm s = Ok (r, t)"
    "vm_grow root xs s xs' t" "r = 0 \<and> k = Suc (n - 1) \<or> r = -1 \<and> k \<le> n - 1 \<and> xs' = []"
    "\<forall>v<MAXVA. leaf (mem t) root v = map_run (leaf (mem s) root) (PGROUNDDOWN va) pa perm k v"
    "length xs \<le> length xs' + 2 * Suc k"
    using mappages_loop_spec [OF assms(1) PGROUNDDOWN_aligned b f, of pa perm] by blast
  then have "mappages root va sz pa perm s = Ok (r, t)" using assms(3,4) by (simp add: mappages_def)
  moreover have "r = 0 \<and> k = n \<or> r = -1 \<and> k < n \<and> xs' = [] \<and> length xs \<le> 2 * n" using m(3,5) assms(2) by auto
  ultimately show ?thesis using m(2,4) by blast
qed

subsection \<open>A new page table\<close>

lemma node_empty: "\<forall>j<512. ent m x j = 0 \<Longrightarrow> pathok ks \<Longrightarrow> node m x ks = (if ks = [] then Some x else None)"
  by (cases ks) (auto simp: pathok_def)

lemma uvmcreate_spec:
  assumes "kalloc_ready (x # xs) s"
  shows "\<exists>t. uvmcreate s = Ok (x, t) \<and> vm_inv xs x t \<and> (\<forall>v. leaf (mem t) x v = 0) \<and> kmem_same s t \<and>
    tables (mem t) x = {x}"
proof -
  let ?m = "memset (mem (allocated s)) x 0 4096"
  let ?t = "allocated s\<lparr>mem := ?m\<rparr>"
  note al = kalloc_Cons [OF assms]
  have x: "x \<noteq> 0" "kpage (kend s) x" "x \<notin> set xs"
    using assms kmem_inv_nz [of "x # xs" s] by (auto simp: kalloc_ready_def kmem_inv_def)
  have xa: "page_aligned x" using x(2) by (rule kpage_aligned)
  have z: "\<forall>j<512. ent ?m x j = 0"
    using load64_memset_page [OF xa xa] by (simp add: ent_def)
  note nd = node_empty [OF z]
  have tb: "tables ?m x = {x}"
    using nd root_tables [of x ?m] by (auto simp: tables_def split: if_splits)
  have "pt_inv (kend s) ?m x" unfolding pt_inv_def tb using nd x(2) by (auto split: if_splits)
  moreover have "kalloc_ready xs ?t"
    using al(2) kmem_inv_frame [of xs "allocated s" x ?m] xa x(3) by (simp add: kalloc_ready_def memset_page)
  moreover have "kend (allocated s) = kend s" by (simp add: allocated_def)
  ultimately have "vm_inv xs x ?t" using x(3) by (simp add: vm_inv_def tb)
  moreover have "leaf ?m x v = 0" for v
    using nd [OF pathok_va(1), of v] by (simp add: leaf_def) (simp add: va_path_def)
  moreover have "uvmcreate s = Ok (x, ?t)" using al(1) x(1) by (simp add: uvmcreate_def)
  moreover have "kmem_same s ?t" by (simp add: allocated_def)
  ultimately show ?thesis using tb by (intro exI [of _ ?t]) simp
qed

lemma fresh_page_table: "\<exists>(s :: kmem) root. vm_inv [0x80022000, 0x80023000, 0x80024000] root s \<and>
    (\<forall>v. leaf (mem s) root v = 0) \<and> tables (mem s) root = {root} \<and> root = 0x80021000 \<and> kend s = 0x80020000"
proof -
  obtain s :: kmem where s: "kalloc_ready [0x80021000, 0x80022000, 0x80023000, 0x80024000] s" "kend s = 0x80020000"
    using some_free_pages [of "[0x80021000, 0x80022000, 0x80023000, 0x80024000]" "0x80020000"]
    by (auto simp: kpage_def page_aligned_def)
  obtain t where "vm_inv [0x80022000, 0x80023000, 0x80024000] 0x80021000 t" "\<forall>v. leaf (mem t) 0x80021000 v = 0" "kmem_same s t"
    "tables (mem t) 0x80021000 = {0x80021000}"
    using uvmcreate_spec [OF s(1)] by blast
  then show ?thesis using s(2) kmem_same_kend [of s t] by auto
qed

text \<open>A table with one page mapped, for the examples.\<close>

lemma one_mapped_page:
  "\<exists>(s :: kmem) root xs. vm_inv xs root s \<and> kend s = 0x80020000 \<and>
     set xs \<union> tables (mem s) root \<subseteq> {0x80021000, 0x80022000, 0x80023000, 0x80024000} \<and>
     (\<forall>v<MAXVA. leaf (mem s) root v =
        (if PGROUNDDOWN v = 0x1000 then PA2PTE 0x80030000 OR (PTE_R OR PTE_U) OR PTE_V else 0))"
proof -
  obtain s :: kmem and root where s: "vm_inv [0x80022000, 0x80023000, 0x80024000] root s" "\<forall>v. leaf (mem s) root v = 0"
    "tables (mem s) root = {root}" "root = 0x80021000" "kend s = 0x80020000"
    using fresh_page_table by blast
  have p: "PGROUNDDOWN 0x1000 = 0x1000" "PGROUNDDOWN (0x1000 + 0x1000 - 1) = 0x1000"
    by (simp_all add: PGROUNDDOWN_def)
  obtain r t xs' k where t: "vm_grow root [0x80022000, 0x80023000, 0x80024000] s xs' t" "k = 1"
    "\<forall>v<MAXVA. leaf (mem t) root v = map_run (leaf (mem s) root) 0x1000 0x80030000 (PTE_R OR PTE_U) k v"
    using mappages_spec [OF s(1), of 1 "0x1000" "0x1000" "0x80030000" "PTE_R OR PTE_U"] s(2) p by fastforce
  have "set xs' \<union> tables (mem t) root \<subseteq> {0x80021000, 0x80022000, 0x80023000, 0x80024000}"
  proof -
    obtain ys where "[0x80022000, 0x80023000, 0x80024000] = ys @ xs'" "tables (mem t) root = {root} \<union> set ys"
      using t(1) s(3) unfolding vm_grow_def by blast
    then have "set xs' \<union> tables (mem t) root = {root} \<union> set [0x80022000, 0x80023000, 0x80024000]" by auto
    then show ?thesis using s(4) by auto
  qed
  moreover have "\<forall>v<MAXVA. leaf (mem t) root v =
      (if PGROUNDDOWN v = 0x1000 then PA2PTE 0x80030000 OR (PTE_R OR PTE_U) OR PTE_V else 0)"
    using t(2,3) s(2) by simp
  moreover have "kend t = 0x80020000" using vm_grow_kend [OF t(1)] s(5) by simp
  ultimately show ?thesis using vm_growD [OF t(1)] by blast
qed

subsection \<open>Properties\<close>

text \<open>
  C13: \<^verbatim>\<open>mappages\<close> implements the update of a map from virtual pages to entries.  On a
  well-formed page table, for a range of \<open>n\<close> pages below \<^verbatim>\<open>MAXVA\<close> none of which is
  mapped, it returns; it maps the first \<open>k\<close> pages of the range, in order, to
  consecutive physical pages with the given permissions and changes no other entry;
  \<open>k = n\<close> exactly when it returns 0, and it returns -1 only when the free pages run
  out, which takes fewer than two of them per page of the range.  Pages it takes for new tables come from the free list, and no memory but the page
  tables changes.
\<close>

theorem mappages_refines_map:
  assumes "vm_inv xs root s" "0 < n" "PGROUNDDOWN (va + sz - 1) = PGROUNDDOWN va + PGSIZE * of_nat (n - 1)" "sz \<noteq> 0"
    and "unat (PGROUNDDOWN va) + 4096 * n \<le> unat MAXVA"
    and "\<forall>i<n. \<not> valid (leaf (mem s) root (PGROUNDDOWN va + PGSIZE * of_nat i))"
  shows "\<exists>r t xs' k. mappages root va sz pa perm s = Ok (r, t) \<and> vm_grow root xs s xs' t \<and>
    (r = 0 \<and> k = n \<or> r = -1 \<and> k < n \<and> xs' = [] \<and> length xs \<le> 2 * n) \<and>
    (\<forall>v<MAXVA. leaf (mem t) root v = map_run (leaf (mem s) root) (PGROUNDDOWN va) pa perm k v)"
  by (rule mappages_spec [OF assms])

theorem mappages_refines_map_witness:
  "\<exists>(s :: kmem) root t. vm_inv [0x80022000, 0x80023000, 0x80024000] root s \<and>
     mappages root 0x1000 0x1000 0x80030000 (PTE_R OR PTE_U) s = Ok (0, t) \<and>
     leaf (mem t) root 0x1000 = PA2PTE 0x80030000 OR (PTE_R OR PTE_U) OR PTE_V"
proof -
  obtain s :: kmem and root where s: "vm_inv [0x80022000, 0x80023000, 0x80024000] root s" "\<forall>v. leaf (mem s) root v = 0"
    using fresh_page_table by blast
  have "PGROUNDDOWN 0x1000 = 0x1000" "PGROUNDDOWN (0x1000 + 0x1000 - 1) = 0x1000"
    by (simp_all add: PGROUNDDOWN_def)
  then show ?thesis
    using mappages_refines_map [OF s(1), of 1 "0x1000" "0x1000" "0x80030000" "PTE_R OR PTE_U"] s by fastforce
qed

text \<open>
  C14: \<^verbatim>\<open>uvmunmap\<close> removes exactly the mappings of its range: when every page of the
  range is mapped by a leaf entry it succeeds, the entries of the range become 0 and no
  other entry changes; with \<^verbatim>\<open>do_free\<close> the physical pages (different pages of RAM that
  are neither free nor page tables) go back to the free list, each once.
\<close>

theorem uvmunmap_removes:
  assumes "vm_inv xs root s" "page_aligned va" "unat va + 4096 * n \<le> unat MAXVA"
    and "\<forall>i<n. unmappable xs root s do_free (va + PGSIZE * of_nat i)"
    and "do_free \<longrightarrow> distinct (run_pages (mem s) root va n)"
  shows "\<exists>t. uvmunmap root va (of_nat n) do_free s = Ok t \<and>
    vm_inv ((if do_free then rev (run_pages (mem s) root va n) else []) @ xs) root t \<and>
    (\<forall>v<MAXVA. leaf (mem t) root v = (if in_run va n v then 0 else leaf (mem s) root v))"
proof -
  have "va mod PGSIZE = 0" using assms(2) by (simp add: page_aligned_def)
  then show ?thesis using uvmunmap_loop_spec [OF assms]
    by (auto simp: uvmunmap_def mult.commute)
qed

theorem uvmunmap_removes_witness:
  "\<exists>(s :: kmem) root xs t. valid (leaf (mem s) root 0x1000) \<and> uvmunmap root 0x1000 1 True s = Ok t \<and>
     vm_inv (0x80030000 # xs) root t \<and> leaf (mem t) root 0x1000 = 0"
proof -
  obtain s :: kmem and root xs where s: "vm_inv xs root s" "kend s = 0x80020000"
    "set xs \<union> tables (mem s) root \<subseteq> {0x80021000, 0x80022000, 0x80023000, 0x80024000}"
    "\<forall>v<MAXVA. leaf (mem s) root v = (if PGROUNDDOWN v = 0x1000 then PA2PTE 0x80030000 OR (PTE_R OR PTE_U) OR PTE_V else 0)"
    using one_mapped_page by blast
  have p: "PGROUNDDOWN 0x1000 = 0x1000" by (simp add: PGROUNDDOWN_def)
  then have l: "leaf (mem s) root 0x1000 = PA2PTE 0x80030000 OR (PTE_R OR PTE_U) OR PTE_V" using s(4) by simp
  have pa: "PTE2PA (leaf (mem s) root 0x1000) = 0x80030000" "PTE_FLAGS (leaf (mem s) root 0x1000) = 19"
    unfolding l by (simp_all add: PTE2PA_def PA2PTE_def PTE_FLAGS_def)
  have v: "valid (leaf (mem s) root 0x1000)" unfolding l by (rule valid_mapped)
  have "unmappable xs root s True 0x1000"
    using s(2,3) v pa by (auto simp: unmappable_def kpage_def page_aligned_def)
  moreover have "run_pages (mem s) root 0x1000 1 = [0x80030000]" using pa by (simp add: run_pages_def)
  moreover have "in_run 0x1000 1 0x1000" using p by (simp add: in_run_def)
  ultimately obtain t where "uvmunmap root 0x1000 1 True s = Ok t" "vm_inv (0x80030000 # xs) root t"
    "leaf (mem t) root 0x1000 = 0"
    using uvmunmap_removes [OF s(1), of "0x1000" 1 True] by (auto simp: page_aligned_def)
  then show ?thesis using v by blast
qed

end
