(* ===== verification/Usercopy.thy ===== *)
theory Usercopy
  imports Pagetable
begin

section \<open>Copying between kernel and user memory\<close>

text \<open>
  A process's memory as the map from virtual addresses to bytes that its page table
  gives, the invariant of a user page table (user pages are pages of RAM, mapped once,
  neither free nor page tables), and what \<^verbatim>\<open>copyout\<close>, \<^verbatim>\<open>copyin\<close> and
  \<^verbatim>\<open>copyinstr\<close> do to that map.
\<close>

subsection \<open>User memory\<close>

definition upage :: "mem \<Rightarrow> uint64 \<Rightarrow> uint64 \<Rightarrow> bool" where
  "upage m root va \<longleftrightarrow> va < MAXVA \<and> valid (leaf m root va) \<and> leaf m root va AND PTE_U \<noteq> 0"

definition upa :: "mem \<Rightarrow> uint64 \<Rightarrow> uint64 \<Rightarrow> uint64" where
  "upa m root va = PTE2PA (leaf m root va)"

definition umem :: "mem \<Rightarrow> uint64 \<Rightarrow> uint64 \<Rightarrow> uint8 option" where
  "umem m root va = (if upage m root va then Some (m (upa m root va + (va - PGROUNDDOWN va))) else None)"

definition user_pages :: "uint64 \<Rightarrow> uint64 set \<Rightarrow> (uint64 \<Rightarrow> bool) \<Rightarrow> (uint64 \<Rightarrow> uint64) \<Rightarrow> bool" where
  "user_pages e X U A \<longleftrightarrow> (\<forall>v. U v \<longrightarrow> kpage e (A v) \<and> A v \<notin> X \<and>
     (\<forall>w. U w \<longrightarrow> A w = A v \<longrightarrow> PGROUNDDOWN w = PGROUNDDOWN v))"

definition user_inv :: "uint64 list \<Rightarrow> uint64 \<Rightarrow> 'a kmem_scheme \<Rightarrow> bool" where
  "user_inv xs root s \<longleftrightarrow> vm_inv xs root s \<and>
     user_pages (kend s) (set xs \<union> tables (mem s) root) (upage (mem s) root) (upa (mem s) root)"

lemma leaf_PGROUNDDOWN: "leaf m root (PGROUNDDOWN va) = leaf m root va"
  by (simp add: leaf_def va_path_def PX_PGROUNDDOWN)

lemma MAXVA_PGROUNDDOWN: "PGROUNDDOWN va < MAXVA \<longleftrightarrow> va < MAXVA"
  by (rule PGROUNDDOWN_less_iff [OF MAXVA_aligned])

lemma upage_PGROUNDDOWN: "upage m root (PGROUNDDOWN va) = upage m root va"
  by (simp add: upage_def leaf_PGROUNDDOWN MAXVA_PGROUNDDOWN [simplified])

lemma user_walkaddr:
  assumes "user_inv xs root s"
  shows "walkaddr root (PGROUNDDOWN va) s = Ok (if upage (mem s) root va then upa (mem s) root va else 0)"
    and "upage (mem s) root va \<Longrightarrow> upa (mem s) root va \<noteq> 0"
proof -
  have inv: "vm_inv xs root s" using assms by (simp add: user_inv_def)
  show "walkaddr root (PGROUNDDOWN va) s = Ok (if upage (mem s) root va then upa (mem s) root va else 0)"
    using walkaddr_spec [OF inv, of "PGROUNDDOWN va"]
    by (simp add: upage_def upa_def leaf_PGROUNDDOWN MAXVA_PGROUNDDOWN [simplified])
  show "upage (mem s) root va \<Longrightarrow> upa (mem s) root va \<noteq> 0"
    using assms vm_inv_kend [OF inv] kpage_nz unfolding user_inv_def user_pages_def by blast
qed

subsection \<open>The bytes from an address to the end of its page\<close>

lemma chunk:
  assumes "i < page_rest va"
  shows "PGROUNDDOWN (va + of_nat i) = PGROUNDDOWN va" "va - PGROUNDDOWN va + of_nat i < PGSIZE"
proof -
  have on: "va - PGROUNDDOWN va < PGSIZE" using on_page_iff [of "PGROUNDDOWN va" va] by (simp add: on_page_def)
  have r: "unat (va - PGROUNDDOWN va) + i < 4096"
    using assms on by (simp add: page_rest_def unat_sub_if' word_less_nat_alt split: if_splits)
  have "unat (va - PGROUNDDOWN va + of_nat i) = unat (va - PGROUNDDOWN va) + i"
  proof -
    have "va - PGROUNDDOWN va + of_nat i = of_nat (unat (va - PGROUNDDOWN va) + i)" by simp
    then show ?thesis using r unat_of_nat_64 [of "unat (va - PGROUNDDOWN va) + i"] by simp
  qed
  then show less: "va - PGROUNDDOWN va + of_nat i < PGSIZE" using r by (simp add: word_less_nat_alt)
  have "on_page (PGROUNDDOWN va) (va + of_nat i)"
    using less by (simp add: on_page_def algebra_simps)
  then show "PGROUNDDOWN (va + of_nat i) = PGROUNDDOWN va" by (simp add: on_page_iff)
qed

lemma next_chunk: "PGROUNDDOWN va + PGSIZE = va + of_nat (page_rest va)"
  by (simp add: page_rest_def)

lemma umem_chunk:
  assumes "i < page_rest va"
  shows "umem m root (va + of_nat i) =
    (if upage m root va then Some (m (upa m root va + (va - PGROUNDDOWN va) + of_nat i)) else None)"
proof -
  note c = chunk(1) [OF assms]
  have "upage m root (va + of_nat i) = upage m root va"
    using upage_PGROUNDDOWN [of m root va] upage_PGROUNDDOWN [of m root "va + of_nat i"] c by simp
  moreover have "upa m root (va + of_nat i) = upa m root va"
    using leaf_PGROUNDDOWN [of m root va] leaf_PGROUNDDOWN [of m root "va + of_nat i"] c by (simp add: upa_def)
  ultimately show ?thesis by (simp add: umem_def c algebra_simps)
qed

text \<open>What is at \<open>n\<close> consecutive user addresses.\<close>

definition umem_get :: "mem \<Rightarrow> uint64 \<Rightarrow> uint64 \<Rightarrow> nat \<Rightarrow> uint8 option list" where
  "umem_get m root va n = map (\<lambda>i. umem m root (va + of_nat i)) [0..<n]"

lemma umem_get_0 [simp]: "umem_get m root va 0 = []"
  by (simp add: umem_get_def)

lemma umem_get_split:
  assumes "k \<le> n"
  shows "umem_get m root va n = umem_get m root va k @ umem_get m root (va + of_nat k) (n - k)"
proof -
  have "[0..<n] = [0..<k] @ map (\<lambda>i. k + i) [0..<n - k]"
    using assms upt_add_eq_append [of 0 k "n - k"] by (simp add: map_add_upt add.commute)
  then show ?thesis by (simp add: umem_get_def comp_def add.assoc)
qed

lemma umem_get_chunk:
  assumes "n \<le> page_rest va"
  shows "umem_get m root va n = (if upage m root va
    then map Some (mem_get m (upa m root va + (va - PGROUNDDOWN va)) n) else replicate n None)"
  using assms by (intro nth_equalityI) (auto simp: umem_get_def umem_chunk)

subsection \<open>Reading user memory\<close>

lemma copyin_spec:
  assumes inv: "user_inv xs root s"
  shows "\<exists>r bs. copyin root va n s = Ok (r, bs) \<and>
    (r = 0 \<longleftrightarrow> None \<notin> set (umem_get (mem s) root va n)) \<and>
    (r = 0 \<longrightarrow> map Some bs = umem_get (mem s) root va n) \<and> (r = 0 \<or> r = -1)"
  using inv
proof (induction root va n s rule: copyin.induct)
  case (1 root va n s)
  show ?case
  proof (cases "n = 0")
    case True
    then show ?thesis by (simp add: copyin.simps)
  next
    case n: False
    define k where "k = min (page_rest va) n"
    have k: "0 < k" "k \<le> n" "k \<le> page_rest va" using n page_rest_pos [of va] by (auto simp: k_def)
    note split = umem_get_split [OF k(2), of "mem s" root va] umem_get_chunk [OF k(3), of "mem s" root]
    note w = user_walkaddr [OF 1(2), of va]
    show ?thesis
    proof (cases "upage (mem s) root va")
      case False
      then have "None \<in> set (umem_get (mem s) root va n)" using split k(1) by simp
      then show ?thesis using w n False by (subst copyin.simps) auto
    next
      case True
      have "\<exists>r bs. copyin root (PGROUNDDOWN va + PGSIZE) (n - k) s = Ok (r, bs) \<and>
          (r = 0 \<longleftrightarrow> None \<notin> set (umem_get (mem s) root (PGROUNDDOWN va + PGSIZE) (n - k))) \<and>
          (r = 0 \<longrightarrow> map Some bs = umem_get (mem s) root (PGROUNDDOWN va + PGSIZE) (n - k)) \<and> (r = 0 \<or> r = -1)"
        using 1(1) [OF n refl w(1) _ k_def 1(2)] w(2) True by simp
      moreover have "umem_get (mem s) root (PGROUNDDOWN va + PGSIZE) (n - k) = umem_get (mem s) root (va + of_nat k) (n - k)"
        by (cases "n - k = 0") (auto simp: next_chunk k_def min_def split: if_splits)
      ultimately obtain r bs where IH: "copyin root (PGROUNDDOWN va + PGSIZE) (n - k) s = Ok (r, bs)"
        "r = 0 \<longleftrightarrow> None \<notin> set (umem_get (mem s) root (va + of_nat k) (n - k))"
        "r = 0 \<longrightarrow> map Some bs = umem_get (mem s) root (va + of_nat k) (n - k)" "r = 0 \<or> r = -1" by auto
      have "copyin root va n s =
          Ok (r, mem_get (mem s) (upa (mem s) root va + (va - PGROUNDDOWN va)) k @ bs)"
        using w True n IH(1) by (subst copyin.simps) (simp add: k_def Let_def)
      then show ?thesis using IH(2-4) split True by auto
    qed
  qed
qed

subsection \<open>Storing into user memory\<close>

text \<open>One chunk is stored through the mapping of its page.\<close>

lemma user_put:
  assumes inv: "user_inv xs root s" and va: "upage (mem s) root va" and bs: "length bs \<le> page_rest va"
  defines "m' \<equiv> mem_put (mem s) (upa (mem s) root va + (va - PGROUNDDOWN va)) bs"
  shows "user_inv xs root (s\<lparr>mem := m'\<rparr>)"
    and "umem m' root v = (if unat (v - va) < length bs then Some (bs ! unat (v - va)) else umem (mem s) root v)"
    and "leaf m' root v = leaf (mem s) root v"
proof -
  let ?pa = "upa (mem s) root va" and ?off = "va - PGROUNDDOWN va"
  have vm: "vm_inv xs root s" and pa: "kpage (kend s) ?pa" "?pa \<notin> set xs" "?pa \<notin> tables (mem s) root"
    and inj: "\<And>w. upage (mem s) root w \<Longrightarrow> upa (mem s) root w = ?pa \<Longrightarrow> PGROUNDDOWN w = PGROUNDDOWN va"
    using inv va unfolding user_inv_def user_pages_def by blast+
  have al: "page_aligned ?pa" using pa(1) by (rule kpage_aligned)
  have off: "m' a = mem s a" if "\<not> on_page ?pa a" for a
  proof -
    have "\<not> unat (a - (?pa + ?off)) < length bs"
    proof
      assume d: "unat (a - (?pa + ?off)) < length bs"
      have "?off + of_nat (unat (a - (?pa + ?off))) < PGSIZE" by (rule chunk(2) [OF less_le_trans [OF d bs]])
      then have "a - ?pa < PGSIZE" by simp
      with that show False by (simp add: on_page_def)
    qed
    then show ?thesis by (simp add: m'_def mem_put_def)
  qed
  have pt: "pt_inv (kend s) (mem s) root" using vm by (simp add: vm_inv_def)
  note out = outside_tables [OF pt al pa(3), of m', OF off]
  show lf: "leaf m' root v = leaf (mem s) root v" for v by (rule out(4))
  have up: "upage m' root = upage (mem s) root" "upa m' root = upa (mem s) root"
    by (simp_all add: upage_def upa_def lf fun_eq_iff)
  have "kmem_inv xs (s\<lparr>mem := m'\<rparr>)"
    using vm pa(2) al off by (intro kmem_inv_frame [of xs s ?pa]) (auto simp: vm_inv_def kalloc_ready_def)
  then have "vm_inv xs root (s\<lparr>mem := m'\<rparr>)"
    using vm out(2,3) by (simp add: vm_inv_def kalloc_ready_def)
  then show "user_inv xs root (s\<lparr>mem := m'\<rparr>)" using inv out(2) by (simp add: user_inv_def up)
  show "umem m' root v = (if unat (v - va) < length bs then Some (bs ! unat (v - va)) else umem (mem s) root v)"
  proof (cases "upage (mem s) root v \<and> upa (mem s) root v = ?pa")
    case True
    then have eq: "?pa + (v - PGROUNDDOWN v) = ?pa + ?off + (v - va)" using inj [of v] by simp
    have "umem m' root v = Some (m' (?pa + ?off + (v - va)))" "umem (mem s) root v = Some (mem s (?pa + ?off + (v - va)))"
      using True unfolding eq [symmetric] by (simp_all add: umem_def up)
    then show ?thesis by (simp add: m'_def mem_put_def)
  next
    case False
    have nr: "\<not> unat (v - va) < length bs"
    proof
      assume "unat (v - va) < length bs"
      then have "unat (v - va) < page_rest va" using bs by simp
      then have "PGROUNDDOWN v = PGROUNDDOWN va" using chunk(1) [of "unat (v - va)" va] by simp
      then show False using False va upage_PGROUNDDOWN [of "mem s" root v] upage_PGROUNDDOWN [of "mem s" root va]
          leaf_PGROUNDDOWN [of "mem s" root v] leaf_PGROUNDDOWN [of "mem s" root va] by (simp add: upa_def)
    qed
    have "m' (upa (mem s) root v + (v - PGROUNDDOWN v)) = mem s (upa (mem s) root v + (v - PGROUNDDOWN v))"
      if "upage (mem s) root v"
    proof (rule off)
      have "on_page (upa (mem s) root v) (upa (mem s) root v + (v - PGROUNDDOWN v))"
        using on_page_iff [of "PGROUNDDOWN v" v] by (simp add: on_page_def)
      moreover have "page_aligned (upa (mem s) root v)" by (simp add: upa_def)
      ultimately show "\<not> on_page ?pa (upa (mem s) root v + (v - PGROUNDDOWN v))"
        using False that al on_page_unique by blast
    qed
    then show ?thesis using nr by (simp add: umem_def up)
  qed
qed

text \<open>Distances from a start address that do not wrap around.\<close>

lemma unat_add_dist: "k + unat (v - (va + of_nat k) :: uint64) < 2 ^ 64 \<Longrightarrow> unat (v - va) = k + unat (v - (va + of_nat k))"
proof -
  assume a: "k + unat (v - (va + of_nat k)) < 2 ^ 64"
  have "v - va = of_nat (k + unat (v - (va + of_nat k)))" by simp
  then show ?thesis by (rule trans [OF arg_cong [of _ _ unat] unat_of_nat_64 [OF a]])
qed

lemma unat_sub_dist: "k \<le> unat (v - va :: uint64) \<Longrightarrow> unat (v - (va + of_nat k)) = unat (v - va) - k"
proof -
  assume k: "k \<le> unat (v - va)"
  have "v - (va + of_nat k) = of_nat (unat (v - va) - k)" using k by (simp add: of_nat_diff)
  moreover have "unat (v - va) - k < 2 ^ 64"
    by (rule le_less_trans [OF diff_le_self]) (rule unsigned_less [THEN less_le_trans], simp)
  ultimately show ?thesis by (rule trans [OF arg_cong [of _ _ unat] unat_of_nat_64])
qed

text \<open>User memory after \<open>bs\<close> has been stored from \<open>va\<close> on.\<close>

definition umem_put :: "(uint64 \<Rightarrow> uint8 option) \<Rightarrow> uint64 \<Rightarrow> uint8 list \<Rightarrow> uint64 \<Rightarrow> uint8 option" where
  "umem_put f va bs v = (if unat (v - va) < length bs then Some (bs ! unat (v - va)) else f v)"

lemma umem_put_Nil [simp]: "umem_put f va [] = f"
  by (simp add: umem_put_def fun_eq_iff)

lemma umem_put_append:
  assumes "length as + length bs < 2 ^ 64"
  shows "umem_put (umem_put f va as) (va + of_nat (length as)) bs = umem_put f va (as @ bs)"
proof
  fix v
  show "umem_put (umem_put f va as) (va + of_nat (length as)) bs v = umem_put f va (as @ bs) v"
  proof (cases "unat (v - (va + of_nat (length as))) < length bs")
    case True
    then have "unat (v - va) = length as + unat (v - (va + of_nat (length as)))"
      using assms by (intro unat_add_dist) simp
    then show ?thesis using True by (simp add: umem_put_def nth_append)
  next
    case False
    then have "unat (v - va) < length as + length bs \<longleftrightarrow> unat (v - va) < length as"
      using unat_sub_dist [of "length as" v va] by (cases "length as \<le> unat (v - va)") auto
    then show ?thesis using False by (auto simp: umem_put_def nth_append)
  qed
qed

lemma umem_put_later:
  assumes "length bs + i < 2 ^ 64"
  shows "umem_put f va bs (va + of_nat (length bs) + of_nat i) = f (va + of_nat (length bs) + of_nat i)"
proof -
  have "va + of_nat (length bs) + of_nat i - va = of_nat (length bs + i)" by simp
  then show ?thesis using unat_of_nat_64 [OF assms] by (simp add: umem_put_def)
qed

text \<open>What \<^verbatim>\<open>copyout\<close> does: it copies a prefix of \<open>k\<close> bytes, all of them unless a page is missing.\<close>

definition copied :: "uint64 list \<Rightarrow> uint64 \<Rightarrow> uint64 \<Rightarrow> uint8 list \<Rightarrow> 'a kmem_scheme \<Rightarrow> int \<Rightarrow> 'a kmem_scheme \<Rightarrow> nat \<Rightarrow> bool" where
  "copied xs root va src s r t k \<longleftrightarrow> user_inv xs root t \<and> kmem_same s t \<and>
     (\<forall>v. leaf (mem t) root v = leaf (mem s) root v) \<and>
     umem (mem t) root = umem_put (umem (mem s) root) va (take k src) \<and>
     (r = 0 \<and> k = length src \<and> None \<notin> set (umem_get (mem s) root va (length src)) \<or>
      r = -1 \<and> k < length src \<and> None \<in> set (umem_get (mem s) root va (length src)))"

lemma copied_Nil: "copied xs root va [] s r t k = copied xs root vb [] s r t k"
  by (simp add: copied_def)

lemma copied_chunk:
  assumes inv: "user_inv xs root s" and va: "upage (mem s) root va"
    and n: "n \<le> length src" "n \<le> page_rest va" and len: "length src < 2 ^ 64"
  defines "u \<equiv> s\<lparr>mem := mem_put (mem s) (upa (mem s) root va + (va - PGROUNDDOWN va)) (take n src)\<rparr>"
  assumes rest: "copied xs root (va + of_nat n) (drop n src) u r t k"
  shows "copied xs root va src s r t (n + k)"
proof -
  have u: "user_inv xs root u" "umem (mem u) root = umem_put (umem (mem s) root) va (take n src)"
    "leaf (mem u) root v = leaf (mem s) root v" for v
    using user_put [OF inv va, of "take n src"] n by (simp_all add: u_def umem_put_def fun_eq_iff)
  have same: "umem_get (mem u) root (va + of_nat n) (length src - n) = umem_get (mem s) root (va + of_nat n) (length src - n)"
    unfolding umem_get_def u(2)
    by (rule map_cong [OF refl]) (use umem_put_later [of "take n src"] n len in simp)
  have "umem_put (umem_put (umem (mem s) root) va (take n src)) (va + of_nat n) (take k (drop n src)) =
      umem_put (umem (mem s) root) va (take (n + k) src)"
  proof -
    have "length (take n src) = n" "length (take n src) + length (take k (drop n src)) < 2 ^ 64"
      using n len by (auto simp: min_def)
    then show ?thesis
      using umem_put_append [of "take n src" "take k (drop n src)" "umem (mem s) root" va] by (simp add: take_add)
  qed
  moreover have "None \<in> set (umem_get (mem s) root va (length src)) \<longleftrightarrow>
      None \<in> set (umem_get (mem s) root (va + of_nat n) (length src - n))"
    using umem_get_split [OF n(1), of "mem s" root va] umem_get_chunk [OF n(2), of "mem s" root] va by auto
  moreover have "kmem_same s t" using rest kmem_same_trans [of s u t] by (simp add: copied_def u_def)
  ultimately show ?thesis using rest n(1) unfolding copied_def u same by (auto simp: same u(2))
qed

lemma copyout_spec:
  assumes "user_inv xs root s" "length src < 2 ^ 64"
  shows "\<exists>r t k. copyout root va src s = Ok (r, t) \<and> copied xs root va src s r t k"
  using assms
proof (induction root va src s rule: copyout.induct)
  case (1 root va src s)
  note w = user_walkaddr [OF 1(2), of va]
  define n where "n = min (page_rest va) (length src)"
  have n: "n \<le> length src" "n \<le> page_rest va" by (simp_all add: n_def)
  consider "src = []" | "src \<noteq> []" "\<not> upage (mem s) root va" | "src \<noteq> []" "upage (mem s) root va" by blast
  then show ?case
  proof cases
    case 1
    then show ?thesis using \<open>user_inv xs root s\<close> by (simp add: copyout.simps copied_def)
  next
    case 2
    then have "None \<in> set (umem_get (mem s) root va n)" "length src \<noteq> 0"
      using umem_get_chunk [OF n(2), of "mem s" root] page_rest_pos [of va] by (auto simp: n_def)
    then have "copied xs root va src s (-1) s 0"
      using umem_get_split [OF n(1), of "mem s" root va] \<open>user_inv xs root s\<close> by (simp add: copied_def)
    then show ?thesis using w 2 by (subst copyout.simps) auto
  next
    case 3
    define u where "u = s\<lparr>mem := mem_put (mem s) (upa (mem s) root va + (va - PGROUNDDOWN va)) (take n src)\<rparr>"
    have "user_inv xs root u" using user_put(1) [OF 1(2) 3(2), of "take n src"] n by (simp add: u_def)
    moreover have "length (drop n src) < 2 ^ 64" using 1(3) by simp
    ultimately have "\<exists>r t k. copyout root (PGROUNDDOWN va + PGSIZE) (drop n src) u = Ok (r, t) \<and>
        copied xs root (PGROUNDDOWN va + PGSIZE) (drop n src) u r t k"
      using 1(1) [OF 3(1) refl w(1) _ n_def, of u] w(2) 3(2) by (simp add: u_def)
    then obtain r t k where IH: "copyout root (PGROUNDDOWN va + PGSIZE) (drop n src) u = Ok (r, t)"
      "copied xs root (PGROUNDDOWN va + PGSIZE) (drop n src) u r t k" by blast
    have "copied xs root (va + of_nat n) (drop n src) u r t k"
      using IH(2) copied_Nil [of xs root _ u r t k "va + of_nat n"]
      by (cases "drop n src = []") (auto simp: next_chunk n_def min_def split: if_splits)
    moreover have "copyout root va src s = Ok (r, t)"
      using w 3 IH(1) by (subst copyout.simps) (simp add: n_def u_def Let_def)
    ultimately show ?thesis using copied_chunk [OF 1(2) 3(2) n 1(3)] by (auto simp: u_def)
  qed
qed

subsection \<open>Reading strings\<close>

text \<open>The string at the start of a stretch of user memory, with its NUL, if it is there.\<close>

fun ustr :: "uint8 option list \<Rightarrow> uint8 list option" where
  "ustr [] = None"
| "ustr (None # bs) = None"
| "ustr (Some c # bs) = (if c = 0 then Some [0] else map_option ((#) c) (ustr bs))"

lemma ustr_append:
  "0 \<notin> set as \<Longrightarrow> ustr (map Some as @ bs) = map_option ((@) as) (ustr bs)"
  by (induction as; cases "ustr bs") (auto simp: option.map_comp comp_def option.map_ident)

lemma ustr_found: "0 \<in> set as \<Longrightarrow> ustr (map Some as @ bs) = ustr (map Some as)"
  by (induction as) auto

lemma copyinstr_page_spec:
  "copyinstr_page m p n = (case ustr (map Some (mem_get m p n)) of
     Some bs \<Rightarrow> (True, bs) | None \<Rightarrow> (False, mem_get m p n)) \<and>
   (ustr (map Some (mem_get m p n)) = None \<longleftrightarrow> 0 \<notin> set (mem_get m p n))"
proof (induction n arbitrary: p)
  case (Suc n)
  have "mem_get m p (Suc n) = m p # mem_get m (p + 1) n"
    by (simp add: mem_get_def upt_conv_Cons map_Suc_upt [symmetric] comp_def add.assoc del: upt_Suc)
  then show ?case using Suc.IH [of "p + 1"] by (auto split: option.splits)
qed (simp add: mem_get_def)

lemma copyinstr_spec:
  assumes "user_inv xs root s"
  shows "\<exists>r bs. copyinstr root va n s = Ok (r, bs) \<and>
    (case ustr (umem_get (mem s) root va n) of Some str \<Rightarrow> r = 0 \<and> bs = str | None \<Rightarrow> r = -1)"
  using assms
proof (induction root va n s rule: copyinstr.induct)
  case (1 root va n s)
  note w = user_walkaddr [OF 1(2), of va]
  define k where "k = min (page_rest va) n"
  have k: "k \<le> n" "k \<le> page_rest va" by (simp_all add: k_def)
  note split = umem_get_split [OF k(1), of "mem s" root va] umem_get_chunk [OF k(2), of "mem s" root]
  let ?p = "upa (mem s) root va + (va - PGROUNDDOWN va)"
  note pg = copyinstr_page_spec [of "mem s" ?p k]
  consider "n = 0" | "n \<noteq> 0" "\<not> upage (mem s) root va" | "n \<noteq> 0" "upage (mem s) root va" by blast
  then show ?case
  proof cases
    case 1
    then show ?thesis by (simp add: copyinstr.simps)
  next
    case 2
    then have "0 < k" using page_rest_pos [of va] by (simp add: k_def)
    then have "ustr (umem_get (mem s) root va n) = None" using split 2 by (cases k) auto
    then show ?thesis using w 2 by (subst copyinstr.simps) auto
  next
    case up: 3
    show ?thesis
    proof (cases "0 \<in> set (mem_get (mem s) ?p k)")
      case True
      then obtain bs where bs: "ustr (map Some (mem_get (mem s) ?p k)) = Some bs" using pg by auto
      then have "copyinstr root va n s = Ok (0, bs)"
        using w up pg by (subst copyinstr.simps) (simp add: k_def Let_def)
      then show ?thesis using split up bs ustr_found [OF True] by simp
    next
      case False
      then have page: "copyinstr_page (mem s) ?p k = (False, mem_get (mem s) ?p k)" using pg by auto
      have "\<exists>r bs. copyinstr root (PGROUNDDOWN va + PGSIZE) (n - k) s = Ok (r, bs) \<and>
          (case ustr (umem_get (mem s) root (PGROUNDDOWN va + PGSIZE) (n - k)) of
             Some str \<Rightarrow> r = 0 \<and> bs = str | None \<Rightarrow> r = -1)"
        using 1(1) [OF up(1) refl, of "upa (mem s) root va" k "copyinstr_page (mem s) ?p k" False] 1(2) w up page
        by (simp add: k_def)
      moreover have "umem_get (mem s) root (PGROUNDDOWN va + PGSIZE) (n - k) = umem_get (mem s) root (va + of_nat k) (n - k)"
        by (cases "n - k = 0") (auto simp: next_chunk k_def min_def split: if_splits)
      ultimately obtain r bs where IH: "copyinstr root (PGROUNDDOWN va + PGSIZE) (n - k) s = Ok (r, bs)"
        "case ustr (umem_get (mem s) root (va + of_nat k) (n - k)) of Some str \<Rightarrow> r = 0 \<and> bs = str | None \<Rightarrow> r = -1"
        by auto
      have "copyinstr root va n s = Ok (r, mem_get (mem s) ?p k @ bs)"
        using w up IH(1) page by (subst copyinstr.simps) (simp add: k_def Let_def)
      then show ?thesis using IH(2) split up ustr_append [OF False] by (auto split: option.splits)
    qed
  qed
qed

subsection \<open>Properties\<close>

text \<open>
  C12: What the kernel copies out to a process it can copy back in.  For a mapped range of
  user memory, \<^verbatim>\<open>copyout\<close> returns 0 and \<^verbatim>\<open>copyin\<close> then returns exactly the bytes copied,
  across page boundaries; all other bytes of the process's memory, its page table and the
  free list are as before.  When some byte of the range is not mapped user memory
  \<^verbatim>\<open>copyout\<close> returns -1 and has stored a prefix.
\<close>

theorem copyout_copyin_roundtrip:
  assumes "user_inv xs root s" "length src < 2 ^ 64"
  shows "\<exists>r t. copyout root va src s = Ok (r, t) \<and> user_inv xs root t \<and>
    (\<forall>v. leaf (mem t) root v = leaf (mem s) root v) \<and>
    (if None \<in> set (umem_get (mem s) root va (length src))
     then r = -1 \<and> (\<exists>k<length src. umem (mem t) root = umem_put (umem (mem s) root) va (take k src))
     else r = 0 \<and> copyin root va (length src) t = Ok (0, src) \<and>
       umem (mem t) root = umem_put (umem (mem s) root) va src)"
proof -
  obtain r t k where c: "copyout root va src s = Ok (r, t)" "copied xs root va src s r t k"
    using copyout_spec [OF assms] by blast
  have inv: "user_inv xs root t" using c(2) by (simp add: copied_def)
  have "umem_get (mem t) root va (length src) = map Some src" if "k = length src"
  proof -
    have "umem (mem t) root (va + of_nat i) = Some (src ! i)" if "i < length src" for i
      using c(2) that \<open>k = length src\<close> assms(2) unat_of_nat_64 [of i] by (simp add: copied_def umem_put_def)
    then show ?thesis by (intro nth_equalityI) (simp_all add: umem_get_def)
  qed
  moreover have "inj (Some :: uint8 \<Rightarrow> _)" by simp
  ultimately have "copyin root va (length src) t = Ok (0, src)" if "k = length src"
    using copyin_spec [OF inv, of va "length src"] that by (auto dest: map_injective)
  then show ?thesis using c by (auto simp: copied_def)
qed

lemma one_user_page:
  "\<exists>(s :: kmem) root xs. user_inv xs root s \<and> upage (mem s) root 0x1000 \<and>
    mem s (upa (mem s) root 0x1000) = 0"
proof -
  obtain s :: kmem and root xs where s: "vm_inv xs root s" "kend s = 0x80020000"
    "set xs \<union> tables (mem s) root \<subseteq> {0x80021000, 0x80022000, 0x80023000, 0x80024000}"
    "\<forall>v<MAXVA. leaf (mem s) root v = (if PGROUNDDOWN v = 0x1000 then PA2PTE 0x80030000 OR (PTE_R OR PTE_U) OR PTE_V else 0)"
    using one_mapped_page by blast
  define t where "t = s\<lparr>mem := (mem s)(0x80030000 := 0)\<rparr>"
  have e: "PTE2PA (PA2PTE 0x80030000 OR (PTE_R OR PTE_U) OR PTE_V) = 0x80030000"
    "(PA2PTE 0x80030000 OR (PTE_R OR PTE_U) OR PTE_V) AND PTE_U \<noteq> 0"
    "valid (PA2PTE 0x80030000 OR (PTE_R OR PTE_U) OR PTE_V)" "\<not> valid 0"
    by (simp_all add: PTE2PA_def PA2PTE_def valid_def)
  have kp: "kpage (kend s) 0x80030000" "0x80030000 \<notin> set xs" "0x80030000 \<notin> tables (mem s) root"
    using s(2,3) by (auto simp: kpage_def page_aligned_def)
  have pt: "pt_inv (kend s) (mem s) root" using s(1) by (simp add: vm_inv_def)
  have fr: "mem t a = mem s a" if "\<not> on_page 0x80030000 a" for a
    using that by (auto simp: t_def on_page_def)
  note out = outside_tables [OF pt kpage_aligned [OF kp(1)] kp(3), of "mem t", OF fr]
  have "kmem_inv xs t"
    using s(1) kp kmem_inv_frame [of xs s "0x80030000" "mem t"] fr
    by (simp add: vm_inv_def kalloc_ready_def kpage_def t_def)
  then have vm: "vm_inv xs root t" using s(1) out(2,3) by (simp add: vm_inv_def kalloc_ready_def t_def)
  have up: "upage (mem t) root v \<longleftrightarrow> v < MAXVA \<and> PGROUNDDOWN v = 0x1000" for v
    using s(4) e(2-) by (cases "PGROUNDDOWN v = 0x1000") (auto simp: upage_def out(4))
  have upa: "upa (mem t) root v = 0x80030000" if "upage (mem t) root v" for v
    using that s(4) up [of v] e(1) by (simp add: upa_def out(4))
  have "user_inv xs root t"
    unfolding user_inv_def user_pages_def using vm up upa kp out(2) by (simp add: t_def)
  moreover have "upage (mem t) root 0x1000" using up by (simp add: PGROUNDDOWN_def)
  moreover from this have "mem t (upa (mem t) root 0x1000) = 0" using upa by (simp add: t_def)
  ultimately show ?thesis by blast
qed

theorem copyout_copyin_roundtrip_witness:
  "\<exists>(s :: kmem) root t. copyout root 0x1000 [1, 2] s = Ok (0, t) \<and> copyin root 0x1000 2 t = Ok (0, [1, 2])"
proof -
  obtain s :: kmem and root xs where s: "user_inv xs root s" "upage (mem s) root 0x1000" using one_user_page by blast
  have "2 \<le> page_rest 0x1000" by (simp add: page_rest_def PGROUNDDOWN_def)
  then have "None \<notin> set (umem_get (mem s) root 0x1000 2)" using s(2) by (simp add: umem_get_chunk)
  moreover have "length [1, 2 :: uint8] = 2" by simp
  ultimately obtain t where "copyout root 0x1000 [1, 2] s = Ok (0, t) \<and> copyin root 0x1000 2 t = Ok (0, [1, 2])"
    using copyout_copyin_roundtrip [OF s(1), of "[1, 2]" "0x1000", unfolded \<open>length [1, 2 :: uint8] = 2\<close>] by auto
  then show ?thesis by blast
qed

text \<open>
  C27: \<^verbatim>\<open>copyinstr\<close> reads a NUL-terminated string: it returns 0 with the bytes of the
  string up to and including the first NUL when that NUL lies within the first \<open>n\<close>
  bytes and all bytes before it are mapped user memory, and -1 otherwise.
\<close>

theorem copyinstr_reads_string:
  assumes "user_inv xs root s"
  shows "\<exists>r bs. copyinstr root va n s = Ok (r, bs) \<and>
    (case ustr (umem_get (mem s) root va n) of Some str \<Rightarrow> r = 0 \<and> bs = str | None \<Rightarrow> r = -1)"
  by (rule copyinstr_spec [OF assms])

theorem copyinstr_reads_string_witness:
  "\<exists>(s :: kmem) root. copyinstr root 0x1000 1 s = Ok (0, [0])"
proof -
  obtain s :: kmem and root xs where s: "user_inv xs root s" "upage (mem s) root 0x1000" "mem s (upa (mem s) root 0x1000) = 0"
    using one_user_page by blast
  have "1 \<le> page_rest 0x1000" by (simp add: page_rest_def PGROUNDDOWN_def)
  then have "umem_get (mem s) root 0x1000 1 = [Some (mem s (upa (mem s) root 0x1000))]"
    using s(2) by (simp add: umem_get_chunk PGROUNDDOWN_def mem_get_def)
  then have "ustr (umem_get (mem s) root 0x1000 1) = Some [0]" using s(3) by simp
  then show ?thesis using copyinstr_reads_string [OF s(1), of "0x1000" 1] by auto
qed

end
