(* ===== verification/Sleeplock.thy ===== *)
theory Sleeplock
  imports Sched
begin

section \<open>Sleep locks: \<^verbatim>\<open>kernel/sleeplock.c\<close>\<close>

text \<open>
  A sleep lock is a flag and an owner's pid under a spin lock of its own.  The operations
  get the identity of the lock (the name of its spin lock and the channel that is its
  address), the lock itself and the kernel state, and return both updated.
\<close>

subsection \<open>Operations\<close>

record sleeplock =
  sl_locked :: bool
  sl_pid :: int

definition initsleeplock :: sleeplock where
  "initsleeplock = \<lparr>sl_locked = False, sl_pid = 0\<rparr>"

definition mypid :: "'a kproc_scheme \<Rightarrow> int res" where
  "mypid s = bindR (myproc s) (\<lambda>i. Ok (p_pid (procs s ! i)))"

definition acquiresleep ::
  "lockid \<Rightarrow> chan \<Rightarrow> sleeplock \<Rightarrow> 'a kproc_scheme \<Rightarrow> (sleeplock \<times> 'a kproc_scheme) res" where
  "acquiresleep l c lk s =
     bindR (acquire l s) (\<lambda>s.
     if sl_locked lk then Block c
     else bindR (mypid s) (\<lambda>pid.
          bindR (release l s) (\<lambda>s. Ok (lk\<lparr>sl_locked := True, sl_pid := pid\<rparr>, s))))"

definition releasesleep ::
  "lockid \<Rightarrow> chan \<Rightarrow> sleeplock \<Rightarrow> 'a kproc_scheme \<Rightarrow> (sleeplock \<times> 'a kproc_scheme) res" where
  "releasesleep l c lk s =
     bindR (acquire l s) (\<lambda>s.
     bindR (wakeup (Some c) s) (\<lambda>s.
     bindR (release l s) (\<lambda>s. Ok (lk\<lparr>sl_locked := False, sl_pid := 0\<rparr>, s))))"

definition holdingsleep :: "lockid \<Rightarrow> sleeplock \<Rightarrow> 'a kproc_scheme \<Rightarrow> (bool \<times> 'a kproc_scheme) res" where
  "holdingsleep l lk s =
     bindR (acquire l s) (\<lambda>s.
     bindR (if sl_locked lk then bindR (mypid s) (\<lambda>pid. Ok (sl_pid lk = pid)) else Ok False) (\<lambda>r.
     bindR (release l s) (\<lambda>s. Ok (r, s))))"

subsection \<open>What the operations compute\<close>

text \<open>
  The environment of code that runs for a process: a process is current and the CPU holds
  none of the locks of the process table.  Waking processes up keeps it.
\<close>

definition kenv :: "'a kproc_scheme \<Rightarrow> bool" where
  "kenv s \<longleftrightarrow> length (procs s) = NPROC \<and> (\<exists>i<NPROC. cur s = Some i) \<and> (\<forall>i. plock i \<notin> set (held s))"

definition my_pid :: "'a kproc_scheme \<Rightarrow> int" where
  "my_pid s = p_pid (procs s ! the (cur s))"

definition woken :: "proc list \<Rightarrow> proc list \<Rightarrow> bool" where
  "woken ps qs \<longleftrightarrow> length qs = length ps \<and>
     (\<forall>i<length ps. qs ! i = ps ! i \<or> (p_state (ps ! i) = SLEEPING \<and> qs ! i = (ps ! i)\<lparr>p_state := RUNNABLE\<rparr>))"

lemma woken_refl [simp]: "woken ps ps"
  by (simp add: woken_def)

lemma woken_trans: "woken ps qs \<Longrightarrow> woken qs rs \<Longrightarrow> woken ps rs"
  unfolding woken_def by (elim conjE, intro conjI allI impI, simp) (elim allE impE, simp, simp, auto)

lemma woken_wake_from [simp]: "woken ps (wake_from c me k ps)"
  by (auto simp: woken_def nth_wake_from wake_def)

lemma woken_pid: "woken ps qs \<Longrightarrow> i < length ps \<Longrightarrow> p_pid (qs ! i) = p_pid (ps ! i)"
  by (auto simp: woken_def)

lemma woken_length: "woken ps qs \<Longrightarrow> length qs = length ps"
  by (simp add: woken_def)

lemma mypid_eq: "kenv s \<Longrightarrow> mypid s = Ok (my_pid s)"
  by (auto simp: kenv_def mypid_def myproc_def my_pid_def)

lemma kenv_plocks: "kenv s \<Longrightarrow> plocks_free s"
  by (simp add: kenv_def plocks_free_def)

lemma kenv_held [simp]: "\<forall>i. l \<noteq> plock i \<Longrightarrow> kenv (s\<lparr>held := l # held s\<rparr>) = kenv s"
  by (auto simp: kenv_def)

lemma my_pid_held [simp]: "my_pid (held_update f s) = my_pid s"
  by (simp add: my_pid_def)

lemma acquiresleep_eq:
  assumes "kenv s" "l \<notin> set (held s)" "\<forall>i. l \<noteq> plock i"
  shows "acquiresleep l c lk s =
    (if sl_locked lk then Block c else Ok (\<lparr>sl_locked = True, sl_pid = my_pid s\<rparr>, s))"
  using assms by (cases lk) (simp add: acquiresleep_def lock_simps mypid_eq)

lemma releasesleep_eq:
  assumes "kenv s" "l \<notin> set (held s)" "\<forall>i. l \<noteq> plock i"
  shows "releasesleep l c lk s =
    Ok (initsleeplock, s\<lparr>procs := wake_from (Some c) (cur s) NPROC (procs s)\<rparr>)"
proof -
  have "kenv (s\<lparr>held := l # held s\<rparr>)" using assms by simp
  then have "wakeup (Some c) (s\<lparr>held := l # held s\<rparr>) =
    Ok (s\<lparr>held := l # held s, procs := wake_from (Some c) (cur s) NPROC (procs s)\<rparr>)"
    using wakeup_eq [OF kenv_plocks, of "s\<lparr>held := l # held s\<rparr>" "Some c"] by (simp add: kenv_def)
  then show ?thesis
    using assms(2) by (cases lk) (simp add: releasesleep_def lock_simps initsleeplock_def)
qed

lemma holdingsleep_eq:
  assumes "kenv s" "l \<notin> set (held s)" "\<forall>i. l \<noteq> plock i"
  shows "holdingsleep l lk s = Ok (sl_locked lk \<and> sl_pid lk = my_pid s, s)"
  using assms by (simp add: holdingsleep_def lock_simps mypid_eq)

lemma kenv_woken: "kenv s \<Longrightarrow> woken (procs s) ps \<Longrightarrow> kenv (s\<lparr>procs := ps\<rparr>)"
  by (simp add: kenv_def woken_def)

lemma my_pid_woken: "kenv s \<Longrightarrow> woken (procs s) ps \<Longrightarrow> my_pid (s\<lparr>procs := ps\<rparr>) = my_pid s"
  by (auto simp: kenv_def my_pid_def woken_pid)

end
