(* ===== verification/Bio.thy ===== *)
theory Bio
  imports Sleeplock Kalloc
begin

section \<open>The buffer cache: \<^verbatim>\<open>kernel/bio.c\<close>\<close>

text \<open>
  Buffers hold cached copies of disk blocks.  A pointer to a buffer is its index in
  \<open>bufs\<close>; index \<open>NBUF\<close> is \<^verbatim>\<open>bcache.head\<close>, the head of the doubly linked list
  that orders the buffers by last use.  The disk is a map from block numbers to contents;
  \<open>dwrites\<close> is the history of all block writes, from which the disk after a crash in the
  middle of an operation is reconstructed.
\<close>

abbreviation (input) NBUF :: nat where "NBUF \<equiv> 30"
abbreviation (input) BSIZE :: nat where "BSIZE \<equiv> 1024"
abbreviation (input) ROOTDEV :: uint32 where "ROOTDEV \<equiv> 1"

type_synonym block = "uint8 list"

subsection \<open>State\<close>

record buf =
  b_valid :: bool
  b_disk :: bool
  b_dev :: uint32
  b_blockno :: uint32
  b_lock :: sleeplock
  b_refcnt :: uint32
  b_prev :: nat
  b_next :: nat
  b_data :: block

record kbio = kmem +
  bufs :: "buf list"
  disk :: "uint32 \<Rightarrow> block"
  dwrites :: "(uint32 \<times> block) list"

abbreviation (input) bcache_lock :: lockid where "bcache_lock \<equiv> Lock ''bcache'' 0"
abbreviation (input) buf_lock :: "nat \<Rightarrow> lockid" where "buf_lock b \<equiv> Lock ''buffer'' b"
abbreviation (input) buf_chan :: "nat \<Rightarrow> chan" where "buf_chan b \<equiv> Chan ''buffer'' b"

definition upd_buf :: "nat \<Rightarrow> (buf \<Rightarrow> buf) \<Rightarrow> 'a kbio_scheme \<Rightarrow> 'a kbio_scheme" where
  "upd_buf b f s = s\<lparr>bufs := (bufs s)[b := f (bufs s ! b)]\<rparr>"

abbreviation bdata :: "nat \<Rightarrow> 'a kbio_scheme \<Rightarrow> block" where
  "bdata b s \<equiv> b_data (bufs s ! b)"

definition set_data :: "nat \<Rightarrow> block \<Rightarrow> 'a kbio_scheme \<Rightarrow> 'a kbio_scheme" where
  "set_data b d s = upd_buf b (\<lambda>x. x\<lparr>b_data := d\<rparr>) s"

subsection \<open>Operations\<close>

text \<open>
  Insertion at the front of the list and removal from it, as sequences of assignments in
  the order of the source.
\<close>

definition bcache_front :: "nat \<Rightarrow> 'a kbio_scheme \<Rightarrow> 'a kbio_scheme" where
  "bcache_front b s =
     (let s = upd_buf b (\<lambda>x. x\<lparr>b_next := b_next (bufs s ! NBUF)\<rparr>) s;
          s = upd_buf b (\<lambda>x. x\<lparr>b_prev := NBUF\<rparr>) s;
          s = upd_buf (b_next (bufs s ! NBUF)) (\<lambda>x. x\<lparr>b_prev := b\<rparr>) s
      in upd_buf NBUF (\<lambda>x. x\<lparr>b_next := b\<rparr>) s)"

definition bcache_unlink :: "nat \<Rightarrow> 'a kbio_scheme \<Rightarrow> 'a kbio_scheme" where
  "bcache_unlink b s =
     (let s = upd_buf (b_next (bufs s ! b)) (\<lambda>x. x\<lparr>b_prev := b_prev (bufs s ! b)\<rparr>) s
      in upd_buf (b_prev (bufs s ! b)) (\<lambda>x. x\<lparr>b_next := b_next (bufs s ! b)\<rparr>) s)"

definition binit :: "'a kbio_scheme \<Rightarrow> 'a kbio_scheme res" where
  "binit s =
     (let s = upd_buf NBUF (\<lambda>x. x\<lparr>b_prev := NBUF, b_next := NBUF\<rparr>) s
      in foreach (\<lambda>b s. Ok (bcache_front b (upd_buf b (\<lambda>x. x\<lparr>b_lock := initsleeplock\<rparr>) s))) 0 NBUF s)"

text \<open>
  The two scans of \<^verbatim>\<open>bget\<close>.  The list has at most \<open>NBUF\<close> elements before it comes back to
  the head; a walk that takes more steps has met some buffer twice and, as nothing changes
  along the way, never ends.
\<close>

fun bscan :: "(buf \<Rightarrow> nat) \<Rightarrow> (buf \<Rightarrow> bool) \<Rightarrow> buf list \<Rightarrow> nat \<Rightarrow> nat \<Rightarrow> nat option res" where
  "bscan step P bs 0 b = Loop"
| "bscan step P bs (Suc k) b =
     (if b = NBUF then Ok None
      else if P (bs ! b) then Ok (Some b)
      else bscan step P bs k (step (bs ! b)))"

definition bget_lock :: "nat \<Rightarrow> 'a kbio_scheme \<Rightarrow> (nat \<times> 'a kbio_scheme) res" where
  "bget_lock b s =
     bindR (acquiresleep (buf_lock b) (buf_chan b) (b_lock (bufs s ! b)) s) (\<lambda>(lk, s).
     Ok (b, upd_buf b (\<lambda>x. x\<lparr>b_lock := lk\<rparr>) s))"

definition bget :: "uint32 \<Rightarrow> uint32 \<Rightarrow> 'a kbio_scheme \<Rightarrow> (nat \<times> 'a kbio_scheme) res" where
  "bget dev blockno s =
     bindR (acquire bcache_lock s) (\<lambda>s.
     bindR (bscan b_next (\<lambda>x. b_dev x = dev \<and> b_blockno x = blockno) (bufs s) (Suc NBUF) (b_next (bufs s ! NBUF))) (\<lambda>r.
     case r of
       Some b \<Rightarrow>
         bindR (release bcache_lock (upd_buf b (\<lambda>x. x\<lparr>b_refcnt := b_refcnt x + 1\<rparr>) s)) (bget_lock b)
     | None \<Rightarrow>
         bindR (bscan b_prev (\<lambda>x. b_refcnt x = 0) (bufs s) (Suc NBUF) (b_prev (bufs s ! NBUF))) (\<lambda>r.
         case r of
           Some b \<Rightarrow>
             bindR (release bcache_lock (upd_buf b (\<lambda>x. x\<lparr>b_dev := dev, b_blockno := blockno,
                 b_valid := False, b_refcnt := 1\<rparr>) s)) (bget_lock b)
         | None \<Rightarrow> Panic ''bget: no buffers'')))"

text \<open>
  What a caller sees of \<^verbatim>\<open>virtio_disk_rw\<close>: one block moves between the buffer and the
  disk (the driver has a single disk and ignores the device number).
\<close>

definition disk_rw :: "nat \<Rightarrow> bool \<Rightarrow> 'a kbio_scheme \<Rightarrow> 'a kbio_scheme res" where
  "disk_rw b wr s =
     (let n = b_blockno (bufs s ! b) in
      Ok (if wr then s\<lparr>disk := (disk s)(n := bdata b s), dwrites := dwrites s @ [(n, bdata b s)]\<rparr>
          else set_data b (disk s n) s))"

definition bread :: "uint32 \<Rightarrow> uint32 \<Rightarrow> 'a kbio_scheme \<Rightarrow> (nat \<times> 'a kbio_scheme) res" where
  "bread dev blockno s =
     bindR (bget dev blockno s) (\<lambda>(b, s).
     if b_valid (bufs s ! b) then Ok (b, s)
     else bindR (disk_rw b False s) (\<lambda>s. Ok (b, upd_buf b (\<lambda>x. x\<lparr>b_valid := True\<rparr>) s)))"

definition bwrite :: "nat \<Rightarrow> 'a kbio_scheme \<Rightarrow> 'a kbio_scheme res" where
  "bwrite b s =
     bindR (holdingsleep (buf_lock b) (b_lock (bufs s ! b)) s) (\<lambda>(h, s).
     if \<not> h then Panic ''bwrite'' else disk_rw b True s)"

definition brelse :: "nat \<Rightarrow> 'a kbio_scheme \<Rightarrow> 'a kbio_scheme res" where
  "brelse b s =
     bindR (holdingsleep (buf_lock b) (b_lock (bufs s ! b)) s) (\<lambda>(h, s).
     if \<not> h then Panic ''brelse''
     else bindR (releasesleep (buf_lock b) (buf_chan b) (b_lock (bufs s ! b)) s) (\<lambda>(lk, s).
          bindR (acquire bcache_lock (upd_buf b (\<lambda>x. x\<lparr>b_lock := lk\<rparr>) s)) (\<lambda>s.
          let s = upd_buf b (\<lambda>x. x\<lparr>b_refcnt := b_refcnt x - 1\<rparr>) s in
          release bcache_lock
            (if b_refcnt (bufs s ! b) = 0 then bcache_front b (bcache_unlink b s) else s))))"

definition bpin :: "nat \<Rightarrow> 'a kbio_scheme \<Rightarrow> 'a kbio_scheme res" where
  "bpin b s =
     bindR (acquire bcache_lock s) (\<lambda>s.
     release bcache_lock (upd_buf b (\<lambda>x. x\<lparr>b_refcnt := b_refcnt x + 1\<rparr>) s))"

definition bunpin :: "nat \<Rightarrow> 'a kbio_scheme \<Rightarrow> 'a kbio_scheme res" where
  "bunpin b s =
     bindR (acquire bcache_lock s) (\<lambda>s.
     release bcache_lock (upd_buf b (\<lambda>x. x\<lparr>b_refcnt := b_refcnt x - 1\<rparr>) s))"

subsection \<open>The doubly linked list\<close>

text \<open>
  \<open>chain nx pv a xs b\<close>: following \<open>nx\<close> from \<open>a\<close> meets \<open>xs\<close> in order and then
  \<open>b\<close>, and \<open>pv\<close> leads back.
\<close>

fun chain :: "(nat \<Rightarrow> nat) \<Rightarrow> (nat \<Rightarrow> nat) \<Rightarrow> nat \<Rightarrow> nat list \<Rightarrow> nat \<Rightarrow> bool" where
  "chain nx pv a [] b \<longleftrightarrow> nx a = b \<and> pv b = a"
| "chain nx pv a (x # xs) b \<longleftrightarrow> nx a = x \<and> pv x = a \<and> chain nx pv x xs b"

lemma chain_append: "chain nx pv a (xs @ y # ys) b \<longleftrightarrow> chain nx pv a xs y \<and> chain nx pv y ys b"
  by (induction xs arbitrary: a) auto

lemma chain_rev: "chain nx pv a xs b \<longleftrightarrow> chain pv nx b (rev xs) a"
proof (induction xs arbitrary: a)
  case (Cons x xs)
  then show ?case by (auto simp: chain_append)
qed auto

lemma chain_cong:
  "(\<And>i. i \<in> insert a (set xs) \<Longrightarrow> nx i = nx' i) \<Longrightarrow> (\<And>i. i \<in> insert b (set xs) \<Longrightarrow> pv i = pv' i) \<Longrightarrow>
   chain nx pv a xs b = chain nx' pv' a xs b"
  by (induction xs arbitrary: a) auto

lemma chain_ends: "chain nx pv a xs b \<Longrightarrow> nx (last (a # xs)) = b \<and> pv b = last (a # xs)"
  by (induction xs arbitrary: a) auto

lemma chain_redirect:
  "chain nx pv a us y \<Longrightarrow> distinct (a # us) \<Longrightarrow> n \<notin> set us \<Longrightarrow>
   chain (nx(last (a # us) := n)) (pv(n := last (a # us))) a us n"
proof (induction us arbitrary: a)
  case (Cons x us)
  then have "last (x # us) \<noteq> a" using last_in_set [of "x # us"] by auto
  then show ?case using Cons by auto
qed auto

lemma chain_unlink:
  assumes "chain nx pv h (us @ y # vs) h" "distinct (h # us @ y # vs)"
  shows "chain (nx(pv y := nx y)) (pv(nx y := pv y)) h (us @ vs) h"
proof -
  have c: "chain nx pv h us y" "chain nx pv y vs h" using assms(1) by (simp_all add: chain_append)
  have p: "pv y = last (h # us)" using chain_ends [OF c(1)] by simp
  have pin: "pv y \<in> set (h # us)" unfolding p by (rule last_in_set) simp
  show ?thesis
  proof (cases vs)
    case Nil
    then show ?thesis using chain_redirect [OF c(1), of h] c(2) assms(2) p by simp
  next
    case (Cons n vs')
    then have n: "nx y = n" and c2: "chain nx pv n vs' h" using c(2) by simp_all
    have "chain (nx(pv y := n)) (pv(n := pv y)) h us n"
      using chain_redirect [OF c(1), of n] assms(2) p Cons by simp
    moreover have "chain (nx(pv y := n)) (pv(n := pv y)) n vs' h \<longleftrightarrow> chain nx pv n vs' h"
      using assms(2) Cons pin by (intro chain_cong) auto
    ultimately show ?thesis using Cons n c2 by (simp add: chain_append)
  qed
qed

lemma chain_front:
  assumes "chain nx pv h xs h" "distinct (b # h # xs)"
  shows "chain (nx(b := nx h, h := b)) (pv(b := h, nx h := b)) h (b # xs) h"
proof (cases xs)
  case Nil
  then show ?thesis using assms by simp
next
  case (Cons x xs')
  then have "chain nx pv x xs' h" using assms(1) by simp
  then have "chain (nx(b := nx h, h := b)) (pv(b := h, nx h := b)) x xs' h"
    using assms Cons by (subst chain_cong [of _ _ _ nx _ _ pv]) auto
  then show ?thesis using assms Cons by auto
qed

definition bchain :: "buf list \<Rightarrow> nat list \<Rightarrow> bool" where
  "bchain bs xs \<longleftrightarrow> chain (\<lambda>i. b_next (bs ! i)) (\<lambda>i. b_prev (bs ! i)) NBUF xs NBUF \<and> distinct (NBUF # xs)"

text \<open>The list of all buffers, most recently used first.\<close>

definition bdll :: "buf list \<Rightarrow> nat list \<Rightarrow> bool" where
  "bdll bs xs \<longleftrightarrow> bchain bs xs \<and> set xs = {..<NBUF}"

lemma bdll_length: "bdll bs xs \<Longrightarrow> length xs = NBUF"
  using distinct_card [of xs] by (simp add: bdll_def bchain_def)

lemma bscan_chain:
  "chain (\<lambda>i. step (bs ! i)) pv a xs NBUF \<Longrightarrow> NBUF \<notin> set xs \<Longrightarrow>
   bscan step P bs (Suc (length xs)) (step (bs ! a)) = Ok (find (\<lambda>i. P (bs ! i)) xs)"
  by (induction xs arbitrary: a) auto

lemma bscan_next:
  assumes "bdll bs xs"
  shows "bscan b_next P bs (Suc NBUF) (b_next (bs ! NBUF)) = Ok (find (\<lambda>i. P (bs ! i)) xs)"
  using bscan_chain [of b_next bs "\<lambda>i. b_prev (bs ! i)" NBUF xs P] bdll_length [OF assms] assms
  by (simp add: bdll_def bchain_def)

lemma bscan_prev:
  assumes "bdll bs xs"
  shows "bscan b_prev P bs (Suc NBUF) (b_prev (bs ! NBUF)) = Ok (find (\<lambda>i. P (bs ! i)) (rev xs))"
  using bscan_chain [of b_prev bs "\<lambda>i. b_next (bs ! i)" NBUF "rev xs" P] bdll_length [OF assms] assms
  by (simp add: bdll_def bchain_def chain_rev [of "\<lambda>i. b_next (bs ! i)"])

text \<open>An update that leaves the links alone.\<close>

definition same_links :: "buf \<Rightarrow> buf \<Rightarrow> bool" where
  "same_links x y \<longleftrightarrow> b_next x = b_next y \<and> b_prev x = b_prev y"

lemma links_update:
  assumes "same_links x (bs ! b)"
  shows "b_next (bs[b := x] ! i) = b_next (bs ! i)" "b_prev (bs[b := x] ! i) = b_prev (bs ! i)"
  using assms by (cases "b < length bs"; cases "i = b"; simp add: same_links_def list_update_beyond)+

lemma bchain_update [simp]: "same_links x (bs ! b) \<Longrightarrow> bchain (bs[b := x]) xs = bchain bs xs"
  by (simp add: bchain_def links_update)

lemma bdll_update [simp]: "same_links x (bs ! b) \<Longrightarrow> bdll (bs[b := x]) xs = bdll bs xs"
  by (simp add: bdll_def)

text \<open>The two list operations change links only, and change the order as expected.\<close>

definition unlinked :: "buf \<Rightarrow> buf" where
  "unlinked x = x\<lparr>b_next := 0, b_prev := 0\<rparr>"

definition link_only :: "buf list \<Rightarrow> buf list \<Rightarrow> bool" where
  "link_only bs bs' \<longleftrightarrow> map unlinked bs' = map unlinked bs"

lemma unlinked_sel [simp]:
  "b_valid (unlinked x) = b_valid x" "b_dev (unlinked x) = b_dev x" "b_blockno (unlinked x) = b_blockno x"
  "b_lock (unlinked x) = b_lock x" "b_refcnt (unlinked x) = b_refcnt x" "b_data (unlinked x) = b_data x"
  "unlinked (x\<lparr>b_next := n\<rparr>) = unlinked x" "unlinked (x\<lparr>b_prev := n\<rparr>) = unlinked x"
  by (simp_all add: unlinked_def)

lemma unlinked_eqD:
  "unlinked x = unlinked y \<Longrightarrow> b_valid x = b_valid y \<and> b_dev x = b_dev y \<and> b_blockno x = b_blockno y \<and>
    b_lock x = b_lock y \<and> b_refcnt x = b_refcnt y \<and> b_data x = b_data y"
  by (cases x; cases y) (simp add: unlinked_def)

lemma map_update_unlinked: "i < length bs \<Longrightarrow> unlinked x = unlinked (bs ! i) \<Longrightarrow>
    map unlinked (bs[i := x]) = map unlinked bs"
  by (metis map_update nth_map list_update_id)

lemma link_only_upd:
  "link_only bs bs' \<Longrightarrow> link_only bs (bs'[i := (bs' ! i)\<lparr>b_next := n\<rparr>])"
  "link_only bs bs' \<Longrightarrow> link_only bs (bs'[i := (bs' ! i)\<lparr>b_prev := n\<rparr>])"
  by (cases "i < length bs'"; simp add: link_only_def map_update_unlinked list_update_beyond)+

lemma link_only_length: "link_only bs bs' \<Longrightarrow> length bs' = length bs"
  by (metis link_only_def length_map)

lemma link_only_nth:
  assumes "link_only bs bs'" "i < length bs"
  shows "b_valid (bs' ! i) = b_valid (bs ! i)" "b_dev (bs' ! i) = b_dev (bs ! i)"
    "b_blockno (bs' ! i) = b_blockno (bs ! i)" "b_lock (bs' ! i) = b_lock (bs ! i)"
    "b_refcnt (bs' ! i) = b_refcnt (bs ! i)" "b_data (bs' ! i) = b_data (bs ! i)"
proof -
  have "map unlinked bs' ! i = map unlinked bs ! i" using assms(1) by (simp only: link_only_def)
  then have "unlinked (bs' ! i) = unlinked (bs ! i)" using assms(2) link_only_length [OF assms(1)] by simp
  from unlinked_eqD [OF this] show "b_valid (bs' ! i) = b_valid (bs ! i)" "b_dev (bs' ! i) = b_dev (bs ! i)"
    "b_blockno (bs' ! i) = b_blockno (bs ! i)" "b_lock (bs' ! i) = b_lock (bs ! i)"
    "b_refcnt (bs' ! i) = b_refcnt (bs ! i)" "b_data (bs' ! i) = b_data (bs ! i)"
    by blast+
qed

definition nexts :: "buf list \<Rightarrow> nat \<Rightarrow> nat" where "nexts bs i = b_next (bs ! i)"
definition prevs :: "buf list \<Rightarrow> nat \<Rightarrow> nat" where "prevs bs i = b_prev (bs ! i)"

lemma nexts_upd:
  "i < length bs \<Longrightarrow> nexts (bs[i := (bs ! i)\<lparr>b_next := n\<rparr>]) = (nexts bs)(i := n)"
  "i < length bs \<Longrightarrow> prevs (bs[i := (bs ! i)\<lparr>b_prev := n\<rparr>]) = (prevs bs)(i := n)"
  "nexts (bs[i := (bs ! i)\<lparr>b_prev := n\<rparr>]) = nexts bs"
  "prevs (bs[i := (bs ! i)\<lparr>b_next := n\<rparr>]) = prevs bs"
  by (cases "i < length bs"; auto simp: nexts_def prevs_def nth_list_update list_update_beyond intro!: ext)+

lemma bchain_iff: "bchain bs xs \<longleftrightarrow> chain (nexts bs) (prevs bs) NBUF xs NBUF \<and> distinct (NBUF # xs)"
  by (simp add: bchain_def nexts_def [abs_def] prevs_def [abs_def])

lemma chain_mem: "chain nx pv a xs b \<Longrightarrow> nx a \<in> insert b (set xs) \<and> pv b \<in> insert a (set xs)"
  by (induction xs arbitrary: a) auto

lemma bcache_front_spec:
  assumes "bchain (bufs s) xs" "b < NBUF" "b \<notin> set xs" "length (bufs s) = Suc NBUF" "set xs \<subseteq> {..<NBUF}"
  shows "\<exists>bs. bcache_front b s = s\<lparr>bufs := bs\<rparr> \<and> link_only (bufs s) bs \<and> bchain bs (b # xs)"
proof -
  define bs1 where "bs1 = (bufs s)[b := (bufs s ! b)\<lparr>b_next := b_next (bufs s ! NBUF)\<rparr>]"
  define bs2 where "bs2 = bs1[b := (bs1 ! b)\<lparr>b_prev := NBUF\<rparr>]"
  define f where "f = b_next (bs2 ! NBUF)"
  define bs3 where "bs3 = bs2[f := (bs2 ! f)\<lparr>b_prev := b\<rparr>]"
  define bs4 where "bs4 = bs3[NBUF := (bs3 ! NBUF)\<lparr>b_next := b\<rparr>]"
  have f: "f = nexts (bufs s) NBUF" using assms(2) by (simp add: f_def bs2_def bs1_def nexts_def)
  have "f \<in> insert NBUF (set xs)" using chain_mem [of _ _ NBUF xs NBUF] assms(1) unfolding f bchain_iff by blast
  then have fl: "f < Suc NBUF" using assms(5) by auto
  have eq: "bcache_front b s = s\<lparr>bufs := bs4\<rparr>"
    by (simp add: bcache_front_def upd_buf_def Let_def bs4_def bs3_def bs2_def bs1_def f_def)
  have lo: "link_only (bufs s) bs4"
    unfolding bs4_def bs3_def bs2_def bs1_def by (intro link_only_upd) (simp add: link_only_def)
  have "nexts bs4 = (nexts (bufs s))(b := nexts (bufs s) NBUF, NBUF := b)"
    "prevs bs4 = (prevs (bufs s))(b := NBUF, nexts (bufs s) NBUF := b)"
  proof -
    have l: "length bs1 = Suc NBUF" "length bs2 = Suc NBUF" "length bs3 = Suc NBUF"
      using assms(4) by (simp_all add: bs3_def bs2_def bs1_def)
    have 1: "nexts bs1 = (nexts (bufs s))(b := nexts (bufs s) NBUF)" "prevs bs1 = prevs (bufs s)"
      using assms(2,4) unfolding bs1_def by (simp_all only: nexts_upd) (simp add: nexts_upd nexts_def [of _ NBUF])
    have 2: "nexts bs2 = nexts bs1" "prevs bs2 = (prevs bs1)(b := NBUF)"
      using assms(2) l unfolding bs2_def by (simp_all add: nexts_upd)
    have 3: "nexts bs3 = nexts bs2" "prevs bs3 = (prevs bs2)(f := b)"
      using fl l unfolding bs3_def by (simp_all add: nexts_upd)
    have 4: "nexts bs4 = (nexts bs3)(NBUF := b)" "prevs bs4 = prevs bs3"
      using l unfolding bs4_def by (simp_all add: nexts_upd)
    show "nexts bs4 = (nexts (bufs s))(b := nexts (bufs s) NBUF, NBUF := b)"
      "prevs bs4 = (prevs (bufs s))(b := NBUF, nexts (bufs s) NBUF := b)"
      by (simp_all only: 1 2 3 4 f)
  qed
  then have "bchain bs4 (b # xs)"
    using chain_front [of "nexts (bufs s)" "prevs (bufs s)" NBUF xs b] assms by (simp add: bchain_iff)
  then show ?thesis using eq lo by blast
qed

lemma bcache_unlink_spec:
  assumes "bchain (bufs s) (us @ b # vs)" "length (bufs s) = Suc NBUF" "set (us @ b # vs) \<subseteq> {..<NBUF}"
  shows "\<exists>bs. bcache_unlink b s = s\<lparr>bufs := bs\<rparr> \<and> link_only (bufs s) bs \<and> bchain bs (us @ vs)"
proof -
  define n where "n = nexts (bufs s) b"
  define bs1 where "bs1 = (bufs s)[n := (bufs s ! n)\<lparr>b_prev := prevs (bufs s) b\<rparr>]"
  define p where "p = prevs bs1 b"
  define bs2 where "bs2 = bs1[p := (bs1 ! p)\<lparr>b_next := nexts bs1 b\<rparr>]"
  have c: "chain (nexts (bufs s)) (prevs (bufs s)) NBUF us b" "chain (nexts (bufs s)) (prevs (bufs s)) b vs NBUF"
    "distinct (NBUF # us @ b # vs)"
    using assms(1) unfolding bchain_iff by (simp_all add: chain_append)
  have n: "n \<in> insert NBUF (set vs)" using chain_mem [OF c(2)] by (simp add: n_def)
  then have ne: "n \<noteq> b" "n < Suc NBUF" using c(3) assms(3) by auto
  then have p: "p = prevs (bufs s) b" by (simp add: p_def bs1_def prevs_def)
  have "p \<in> insert NBUF (set us)" using chain_mem [OF c(1)] by (simp add: p)
  then have pl: "p < Suc NBUF" using assms(3) by auto
  have eq: "bcache_unlink b s = s\<lparr>bufs := bs2\<rparr>"
    by (simp add: bcache_unlink_def upd_buf_def Let_def bs2_def bs1_def n_def p_def nexts_def prevs_def)
  have lo: "link_only (bufs s) bs2"
    unfolding bs2_def bs1_def by (intro link_only_upd) (simp add: link_only_def)
  have "nexts bs2 = (nexts (bufs s))(p := n)" "prevs bs2 = (prevs (bufs s))(n := p)"
    using ne(2) pl assms(2) by (simp_all add: bs2_def bs1_def nexts_upd p n_def)
  then have "bchain bs2 (us @ vs)"
    using chain_unlink [of "nexts (bufs s)" "prevs (bufs s)" NBUF us b vs] assms(1) c(3)
    by (simp add: bchain_iff n_def p)
  then show ?thesis using eq lo by blast
qed

subsection \<open>The cache as a store of blocks\<close>

text \<open>
  What the clients of the cache rely on: the contents \<open>blk s n\<close> of block \<open>n\<close> (the
  cached copy if there is one), its reference count and the pid of the process that has it
  locked.
\<close>

definition bix :: "buf list \<Rightarrow> uint32 \<Rightarrow> nat option" where
  "bix bs n = find (\<lambda>i. b_dev (bs ! i) = ROOTDEV \<and> b_blockno (bs ! i) = n) [0..<NBUF]"

definition blk :: "'a kbio_scheme \<Rightarrow> uint32 \<Rightarrow> block" where
  "blk s n = (case bix (bufs s) n of
     Some i \<Rightarrow> if b_valid (bufs s ! i) then bdata i s else disk s n | None \<Rightarrow> disk s n)"

definition brefs :: "'a kbio_scheme \<Rightarrow> uint32 \<Rightarrow> nat" where
  "brefs s n = (case bix (bufs s) n of Some i \<Rightarrow> unat (b_refcnt (bufs s ! i)) | None \<Rightarrow> 0)"

definition bowner :: "'a kbio_scheme \<Rightarrow> uint32 \<Rightarrow> int option" where
  "bowner s n = (case bix (bufs s) n of
     Some i \<Rightarrow> if sl_locked (b_lock (bufs s ! i)) then Some (sl_pid (b_lock (bufs s ! i))) else None
   | None \<Rightarrow> None)"

definition buf_ok :: "(uint32 \<Rightarrow> block) \<Rightarrow> buf \<Rightarrow> bool" where
  "buf_ok d x \<longleftrightarrow> (b_dev x = 0 \<or> b_dev x = ROOTDEV) \<and> (b_dev x = 0 \<longrightarrow> \<not> b_valid x \<and> b_refcnt x = 0) \<and>
     (b_valid x \<longrightarrow> length (b_data x) = BSIZE) \<and>
     (b_refcnt x = 0 \<longrightarrow> \<not> sl_locked (b_lock x) \<and> (b_valid x \<longrightarrow> b_data x = d (b_blockno x)))"

definition buniq :: "buf list \<Rightarrow> bool" where
  "buniq bs \<longleftrightarrow> (\<forall>i<NBUF. \<forall>j<NBUF. b_dev (bs ! i) = ROOTDEV \<longrightarrow> b_dev (bs ! j) = ROOTDEV \<longrightarrow>
     b_blockno (bs ! i) = b_blockno (bs ! j) \<longrightarrow> i = j)"

definition binv :: "'a kbio_scheme \<Rightarrow> bool" where
  "binv s \<longleftrightarrow> length (bufs s) = Suc NBUF \<and> (\<exists>xs. bdll (bufs s) xs) \<and> buniq (bufs s) \<and>
     (\<forall>i<NBUF. buf_ok (disk s) (bufs s ! i)) \<and> (\<forall>n. length (disk s n) = BSIZE)"

lemma buniqD:
  "buniq bs \<Longrightarrow> i < NBUF \<Longrightarrow> j < NBUF \<Longrightarrow> b_dev (bs ! i) = ROOTDEV \<Longrightarrow> b_dev (bs ! j) = ROOTDEV \<Longrightarrow>
   b_blockno (bs ! i) = b_blockno (bs ! j) \<Longrightarrow> i = j"
  by (simp add: buniq_def)

lemma find_upt_Some: "find P [0..<k] = Some i \<longleftrightarrow> i < k \<and> P i \<and> (\<forall>j<i. \<not> P j)"
  by (auto simp: find_Some_iff)

lemma find_upt_None: "find P [0..<k] = None \<longleftrightarrow> (\<forall>i<k. \<not> P i)"
  by (auto simp: find_None_iff)

lemma bix_Some:
  "buniq bs \<Longrightarrow> bix bs n = Some i \<longleftrightarrow> i < NBUF \<and> b_dev (bs ! i) = ROOTDEV \<and> b_blockno (bs ! i) = n"
proof -
  assume u: "buniq bs"
  have "\<not> (b_dev (bs ! j) = ROOTDEV \<and> b_blockno (bs ! j) = n)"
    if "j < i" "i < NBUF" "b_dev (bs ! i) = ROOTDEV" "b_blockno (bs ! i) = n" for j
    using buniqD [OF u, of j i] that by auto
  then show ?thesis unfolding bix_def find_upt_Some by blast
qed

lemma bix_None:
  "bix bs n = None \<longleftrightarrow> (\<forall>i<NBUF. \<not> (b_dev (bs ! i) = ROOTDEV \<and> b_blockno (bs ! i) = n))"
  unfolding bix_def find_upt_None by blast

lemma find_order:
  assumes "set xs = {..<NBUF}" "buniq bs"
  shows "find (\<lambda>i. b_dev (bs ! i) = ROOTDEV \<and> b_blockno (bs ! i) = n) xs = bix bs n"
proof (cases "bix bs n")
  case None
  then have "\<forall>i<NBUF. \<not> (b_dev (bs ! i) = ROOTDEV \<and> b_blockno (bs ! i) = n)" by (simp only: bix_None)
  then show ?thesis unfolding None using assms(1) by (auto simp: find_None_iff)
next
  case (Some i)
  then have i: "i < NBUF" "b_dev (bs ! i) = ROOTDEV" "b_blockno (bs ! i) = n" using assms(2) by (simp_all add: bix_Some)
  then have "find (\<lambda>i. b_dev (bs ! i) = ROOTDEV \<and> b_blockno (bs ! i) = n) xs \<noteq> None"
    using assms(1) by (auto simp: find_None_iff)
  then obtain j where j: "find (\<lambda>i. b_dev (bs ! i) = ROOTDEV \<and> b_blockno (bs ! i) = n) xs = Some j" by blast
  then have "j \<in> set xs" "b_dev (bs ! j) = ROOTDEV" "b_blockno (bs ! j) = n"
    by (auto simp: find_Some_iff)
  then have "j = i" using assms i by (auto simp: buniq_def)
  then show ?thesis using j Some by simp
qed

text \<open>The frame of every operation of the cache: nothing changes but buffers, disk and wakeups.\<close>

definition bstep :: "'a kbio_scheme \<Rightarrow> 'a kbio_scheme \<Rightarrow> bool" where
  "bstep s t \<longleftrightarrow> (\<exists>bs ps d w. t = s\<lparr>procs := ps, bufs := bs, disk := d, dwrites := w\<rparr> \<and> woken (procs s) ps)"

text \<open>The locks that may be held when the cache is called, and the process environment.\<close>

definition kio :: "'a kproc_scheme \<Rightarrow> bool" where
  "kio s \<longleftrightarrow> kenv s \<and> set (held s) \<subseteq> {Lock ''log'' 0, Lock ''itable'' 0}"

lemma bstep_refl [simp]: "bstep s s"
  unfolding bstep_def
  by (rule exI [of _ "bufs s"], rule exI [of _ "procs s"], rule exI [of _ "disk s"], rule exI [of _ "dwrites s"]) simp

lemma bstep_trans: "bstep s t \<Longrightarrow> bstep t u \<Longrightarrow> bstep s u"
proof -
  assume st: "bstep s t" "bstep t u"
  obtain bs ps d w where t: "t = s\<lparr>procs := ps, bufs := bs, disk := d, dwrites := w\<rparr>" "woken (procs s) ps"
    using st(1) unfolding bstep_def by (elim exE conjE) (rule that, assumption+)
  obtain bs' ps' d' w' where
    u: "u = t\<lparr>procs := ps', bufs := bs', disk := d', dwrites := w'\<rparr>" "woken (procs t) ps'"
    using st(2) unfolding bstep_def by (elim exE conjE) (rule that, assumption+)
  have "woken (procs s) ps'" using t u(2) woken_trans by simp
  then show ?thesis unfolding bstep_def
    by (intro exI [of _ bs'] exI [of _ ps'] exI [of _ d'] exI [of _ w']) (simp add: t(1) u(1))
qed

lemma bstep_sel:
  assumes "bstep s t"
  shows "held t = held s" "cur t = cur s" "mem t = mem s" "freelist t = freelist s" "kend t = kend s"
    "nextpid t = nextpid s" "initproc t = initproc s" "ticks t = ticks s" "woken (procs s) (procs t)"
  using assms by (auto simp: bstep_def)

lemma bstep_kio: "bstep s t \<Longrightarrow> kio s \<Longrightarrow> kio t \<and> my_pid t = my_pid s"
  using bstep_sel [of s t] woken_pid [of "procs s" "procs t"] woken_length [of "procs s" "procs t"]
  by (auto simp: kio_def kenv_def my_pid_def)

lemma bstep_upd_bufs: "bstep s (s\<lparr>bufs := bs\<rparr>)"
  unfolding bstep_def
  by (rule exI [of _ bs], rule exI [of _ "procs s"], rule exI [of _ "disk s"], rule exI [of _ "dwrites s"]) simp

lemma bstep_upd_buf [simp]: "bstep s (upd_buf b f s)" "bstep s (set_data b d s)"
  unfolding bstep_def upd_buf_def set_data_def
  by (rule exI, rule exI [of _ "procs s"], rule exI [of _ "disk s"], rule exI [of _ "dwrites s"], simp)+

subsection \<open>Effects of single buffer updates\<close>

definition same_key :: "buf \<Rightarrow> buf \<Rightarrow> bool" where
  "same_key x y \<longleftrightarrow> b_dev x = b_dev y \<and> b_blockno x = b_blockno y"

lemma key_update:
  assumes "same_key x (bs ! b)"
  shows "b_dev (bs[b := x] ! i) = b_dev (bs ! i)" "b_blockno (bs[b := x] ! i) = b_blockno (bs ! i)"
  using assms by (cases "b < length bs"; cases "i = b"; simp add: same_key_def list_update_beyond)+

lemma same_key_index:
  assumes "same_key x (bs ! b)"
  shows "bix (bs[b := x]) = bix bs" "buniq (bs[b := x]) = buniq bs"
  by (simp_all only: bix_def [abs_def] buniq_def key_update [OF assms])

lemma buf_ok_update:
  "\<forall>i<NBUF. buf_ok d (bs ! i) \<Longrightarrow> buf_ok d x \<Longrightarrow> \<forall>i<NBUF. buf_ok d (bs[b := x] ! i)"
  by (metis list_update_beyond not_le nth_list_update)

lemma update_same_key:
  fixes s :: "'a kbio_scheme"
  assumes "binv s" "bix (bufs s) n = Some b" "same_key x (bufs s ! b)" "same_links x (bufs s ! b)"
    "buf_ok (disk s) x"
  defines "t \<equiv> s\<lparr>bufs := (bufs s)[b := x]\<rparr>"
  shows "binv t" "bix (bufs t) = bix (bufs s)"
    "blk t = (blk s)(n := if b_valid x then b_data x else disk s n)"
    "brefs t = (brefs s)(n := unat (b_refcnt x))"
    "bowner t = (bowner s)(n := if sl_locked (b_lock x) then Some (sl_pid (b_lock x)) else None)"
proof -
  have u: "buniq (bufs s)" and len: "length (bufs s) = Suc NBUF" using assms(1) by (simp_all add: binv_def)
  have b: "b < NBUF" "b < length (bufs s)" using assms(2) u len by (simp_all add: bix_Some)
  show ix: "bix (bufs t) = bix (bufs s)" using same_key_index [OF assms(3)] by (simp add: t_def)
  show "binv t"
    using assms(1,5) same_key_index [OF assms(3)] assms(4) buf_ok_update [of "disk s" "bufs s" x b]
    by (simp add: binv_def t_def)
  have other: "bufs t ! j = bufs s ! j" if "bix (bufs s) m = Some j" "m \<noteq> n" for m j
    using that assms(2) u by (cases "j = b") (auto simp: bix_Some t_def)
  have here: "bufs t ! b = x" using b by (simp add: t_def)
  show "blk t = (blk s)(n := if b_valid x then b_data x else disk s n)"
    using other here assms(2) ix by (auto simp: blk_def fun_eq_iff t_def split: option.splits)
  show "brefs t = (brefs s)(n := unat (b_refcnt x))"
    using other here assms(2) ix by (auto simp: brefs_def fun_eq_iff split: option.splits)
  show "bowner t = (bowner s)(n := if sl_locked (b_lock x) then Some (sl_pid (b_lock x)) else None)"
    using other here assms(2) ix by (auto simp: bowner_def fun_eq_iff split: option.splits)
qed

lemma recycle_index:
  assumes "buniq bs" "b < NBUF" "b < length bs" "bix bs n = None" "b_dev x = ROOTDEV" "b_blockno x = n"
  shows "buniq (bs[b := x])"
    "bix (bs[b := x]) = (\<lambda>m. if m = n then Some b else if bix bs m = Some b then None else bix bs m)"
proof -
  have no: "\<not> (b_dev (bs ! i) = ROOTDEV \<and> b_blockno (bs ! i) = n)" if "i < NBUF" for i
    using assms(4) that unfolding bix_None by blast
  show u: "buniq (bs[b := x])"
    unfolding buniq_def
  proof (intro allI impI)
    fix i j assume "i < NBUF" "j < NBUF" "b_dev (bs[b := x] ! i) = ROOTDEV" "b_dev (bs[b := x] ! j) = ROOTDEV"
      "b_blockno (bs[b := x] ! i) = b_blockno (bs[b := x] ! j)"
    then show "i = j"
      using no [of i] no [of j] buniqD [OF assms(1), of i j] assms(3,5,6)
      by (cases "i = b"; cases "j = b") auto
  qed
  show "bix (bs[b := x]) = (\<lambda>m. if m = n then Some b else if bix bs m = Some b then None else bix bs m)"
  proof (rule ext)
    fix m
    consider "m = n" | "m \<noteq> n" "bix bs m = None" | i where "m \<noteq> n" "bix bs m = Some i" by fastforce
    then show "bix (bs[b := x]) m = (if m = n then Some b else if bix bs m = Some b then None else bix bs m)"
    proof cases
      case 1
      then show ?thesis using u assms by (simp add: bix_Some)
    next
      case 2
      have "bix (bs[b := x]) m = None" unfolding bix_None
      proof (intro allI impI)
        fix i assume "i < NBUF"
        then show "\<not> (b_dev (bs[b := x] ! i) = ROOTDEV \<and> b_blockno (bs[b := x] ! i) = m)"
          using 2 assms(3,6) by (cases "i = b") (auto simp: bix_None)
      qed
      then show ?thesis using 2 by simp
    next
      case 3
      then have i: "i < NBUF" "b_dev (bs ! i) = ROOTDEV" "b_blockno (bs ! i) = m" using assms(1) by (simp_all add: bix_Some)
      show ?thesis
      proof (cases "i = b")
        case True
        have "bix (bs[b := x]) m = None" unfolding bix_None
        proof (intro allI impI)
          fix j assume "j < NBUF"
          then show "\<not> (b_dev (bs[b := x] ! j) = ROOTDEV \<and> b_blockno (bs[b := x] ! j) = m)"
            using 3 assms(3,6) True i buniqD [OF assms(1), of j i] by (cases "j = b") auto
        qed
        then show ?thesis using 3 True by simp
      next
        case False
        then show ?thesis using 3 i u by (simp add: bix_Some)
      qed
    qed
  qed
qed

lemma update_recycle:
  fixes s :: "'a kbio_scheme"
  assumes "binv s" "bix (bufs s) n = None" "b < NBUF" "b_refcnt (bufs s ! b) = 0"
    "same_links x (bufs s ! b)" "b_dev x = ROOTDEV" "b_blockno x = n" "buf_ok (disk s) x"
  defines "t \<equiv> s\<lparr>bufs := (bufs s)[b := x]\<rparr>"
  shows "binv t" "bix (bufs t) n = Some b" "\<forall>m. brefs s m \<noteq> 0 \<longrightarrow> bix (bufs t) m = bix (bufs s) m"
    "blk t = (blk s)(n := if b_valid x then b_data x else disk s n)"
    "brefs t = (brefs s)(n := unat (b_refcnt x))"
    "bowner t = (bowner s)(n := if sl_locked (b_lock x) then Some (sl_pid (b_lock x)) else None)"
proof -
  have inv: "buniq (bufs s)" "length (bufs s) = Suc NBUF" "\<forall>i<NBUF. buf_ok (disk s) (bufs s ! i)"
    using assms(1) by (simp_all add: binv_def)
  then have b: "b < length (bufs s)" using assms(3) by simp
  note ix = recycle_index [OF inv(1) assms(3) b assms(2,6,7)]
  have old: "buf_ok (disk s) (bufs s ! b)" using inv(3) assms(3) by blast
  show "binv t"
    using assms(1,5,8) ix(1) buf_ok_update [of "disk s" "bufs s" x b] by (simp add: binv_def t_def)
  show "bix (bufs t) n = Some b" by (simp add: t_def ix(2))
  have z: "brefs s m = 0" "bowner s m = None" "blk s m = disk s m" if "bix (bufs s) m = Some b" for m
  proof -
    have "b_blockno (bufs s ! b) = m" using that inv(1) by (simp add: bix_Some)
    then show "brefs s m = 0" "bowner s m = None" "blk s m = disk s m"
      using that old assms(4) by (simp_all add: brefs_def bowner_def blk_def buf_ok_def)
  qed
  show "\<forall>m. brefs s m \<noteq> 0 \<longrightarrow> bix (bufs t) m = bix (bufs s) m"
    using z assms(2) by (auto simp: t_def ix(2) brefs_def)
  have other: "bufs t ! j = bufs s ! j" if "j \<noteq> b" for j using that by (simp add: t_def)
  have here: "bufs t ! b = x" using b by (simp add: t_def)
  have dk: "disk t = disk s" by (simp add: t_def)
  have m: "blk t m = blk s m \<and> brefs t m = brefs s m \<and> bowner t m = bowner s m" if "m \<noteq> n" for m
  proof (cases "bix (bufs s) m = Some b")
    case True
    then have "bix (bufs t) m = None" using that by (simp add: t_def ix(2))
    then show ?thesis using z [OF True] by (simp add: blk_def brefs_def bowner_def dk)
  next
    case False
    then have "bix (bufs t) m = bix (bufs s) m" using that by (simp add: t_def ix(2))
    then show ?thesis using False other
      by (auto simp: blk_def brefs_def bowner_def dk split: option.splits)
  qed
  have n: "bix (bufs t) n = Some b" by (simp add: t_def ix(2))
  show "blk t = (blk s)(n := if b_valid x then b_data x else disk s n)"
    using m n here by (intro ext) (simp add: blk_def [of t n] dk)
  show "brefs t = (brefs s)(n := unat (b_refcnt x))"
    using m n here by (intro ext) (simp add: brefs_def [of t n])
  show "bowner t = (bowner s)(n := if sl_locked (b_lock x) then Some (sl_pid (b_lock x)) else None)"
    using m n here by (intro ext) (simp add: bowner_def [of t n])
qed

text \<open>Some buffer is free unless \<open>NBUF\<close> blocks are in use.\<close>

definition busy :: "'a kbio_scheme \<Rightarrow> uint32 set" where
  "busy s = {n. brefs s n \<noteq> 0}"

lemma busy_eq:
  assumes "binv s"
  shows "busy s = (\<lambda>i. b_blockno (bufs s ! i)) ` {i. i < NBUF \<and> b_refcnt (bufs s ! i) \<noteq> 0}"
proof -
  have u: "buniq (bufs s)" "\<forall>i<NBUF. buf_ok (disk s) (bufs s ! i)" using assms by (simp_all add: binv_def)
  have "brefs s (b_blockno (bufs s ! i)) \<noteq> 0" if "i < NBUF" "b_refcnt (bufs s ! i) \<noteq> 0" for i
  proof -
    have "buf_ok (disk s) (bufs s ! i)" using u(2) that(1) by blast
    then have "bix (bufs s) (b_blockno (bufs s ! i)) = Some i" using that u(1) by (auto simp: bix_Some buf_ok_def)
    then show ?thesis using that(2) by (simp add: brefs_def unat_eq_zero)
  qed
  moreover have "\<exists>i<NBUF. b_refcnt (bufs s ! i) \<noteq> 0 \<and> n = b_blockno (bufs s ! i)" if "brefs s n \<noteq> 0" for n
    using that u(1) by (auto simp: brefs_def bix_Some unat_eq_zero split: option.splits)
  ultimately show ?thesis by (auto simp: busy_def)
qed

lemma finite_busy: "binv s \<Longrightarrow> finite (busy s)"
  by (simp add: busy_eq)

lemma free_buffer:
  assumes "binv s" "card (busy s) < NBUF"
  shows "\<exists>i<NBUF. b_refcnt (bufs s ! i) = 0"
proof (rule ccontr)
  assume "\<not> ?thesis"
  then have all: "\<forall>i<NBUF. b_refcnt (bufs s ! i) \<noteq> 0" by blast
  have u: "buniq (bufs s)" "\<forall>i<NBUF. buf_ok (disk s) (bufs s ! i)" using assms(1) by (simp_all add: binv_def)
  have "inj_on (\<lambda>i. b_blockno (bufs s ! i)) {..<NBUF}"
  proof (rule inj_onI)
    fix i j assume "i \<in> {..<NBUF}" "j \<in> {..<NBUF}" and eq: "b_blockno (bufs s ! i) = b_blockno (bufs s ! j)"
    then have ij: "i < NBUF" "j < NBUF" by simp_all
    then have "buf_ok (disk s) (bufs s ! i)" "buf_ok (disk s) (bufs s ! j)" using u(2) by blast+
    moreover have "b_refcnt (bufs s ! i) \<noteq> 0" "b_refcnt (bufs s ! j) \<noteq> 0" using all ij by blast+
    ultimately have "b_dev (bufs s ! i) = ROOTDEV" "b_dev (bufs s ! j) = ROOTDEV" by (auto simp: buf_ok_def)
    then show "i = j" using buniqD [OF u(1) ij] eq by blast
  qed
  moreover have "busy s = (\<lambda>i. b_blockno (bufs s ! i)) ` {..<NBUF}"
    unfolding busy_eq [OF assms(1)] using all by (intro arg_cong [of _ _ "(`) _"]) auto
  ultimately have "card (busy s) = NBUF" by (simp add: card_image)
  then show False using assms(2) by simp
qed

lemma kio_locks:
  assumes "kio s"
  shows "kenv s" "bcache_lock \<notin> set (held s)" "buf_lock b \<notin> set (held s)" "Lock ''inode'' b \<notin> set (held s)"
  using assms by (auto simp: kio_def)

lemma bget_lock_eq:
  assumes "kio s"
  shows "bget_lock b s = (if sl_locked (b_lock (bufs s ! b)) then Block (buf_chan b)
    else Ok (b, upd_buf b (\<lambda>x. x\<lparr>b_lock := \<lparr>sl_locked = True, sl_pid = my_pid s\<rparr>\<rparr>) s))"
  using acquiresleep_eq [OF kio_locks(1,3) [OF assms], of b "buf_chan b" "b_lock (bufs s ! b)"]
  by (simp add: bget_lock_def)

lemma kio_upd_buf [simp]: "kio (s\<lparr>bufs := bs\<rparr>) = kio s" "my_pid (s\<lparr>bufs := bs\<rparr>) = my_pid s"
  by (simp_all add: kio_def kenv_def my_pid_def)

lemma find_rev_filter: "find P (rev xs) = (if filter P xs = [] then None else Some (last (filter P xs)))"
  by (induction xs rule: rev_induct) (auto simp: filter_empty_conv)

text \<open>The least recently used free buffer.\<close>

definition lru_free :: "buf list \<Rightarrow> nat list \<Rightarrow> nat option" where
  "lru_free bs xs = find (\<lambda>i. b_refcnt (bs ! i) = 0) (rev xs)"

lemma bget_eq:
  assumes "kio s" "binv s" "bdll (bufs s) xs"
  shows "bget ROOTDEV n s =
    (case bix (bufs s) n of
       Some b \<Rightarrow> bget_lock b (upd_buf b (\<lambda>x. x\<lparr>b_refcnt := b_refcnt x + 1\<rparr>) s)
     | None \<Rightarrow> (case lru_free (bufs s) xs of
         None \<Rightarrow> Panic ''bget: no buffers''
       | Some b \<Rightarrow> bget_lock b (upd_buf b (\<lambda>x. x\<lparr>b_dev := ROOTDEV, b_blockno := n,
                 b_valid := False, b_refcnt := 1\<rparr>) s)))"
proof -
  have h: "bcache_lock \<notin> set (held s)" using assms(1) by (auto simp: kio_def)
  have s1: "bscan b_next (\<lambda>x. b_dev x = ROOTDEV \<and> b_blockno x = n) (bufs s) (Suc NBUF) (b_next (bufs s ! NBUF)) =
      Ok (bix (bufs s) n)"
    using bscan_next [OF assms(3)] find_order assms(2,3) by (simp add: bdll_def binv_def)
  have s2: "bscan b_prev (\<lambda>x. b_refcnt x = 0) (bufs s) (Suc NBUF) (b_prev (bufs s ! NBUF)) = Ok (lru_free (bufs s) xs)"
    using bscan_prev [OF assms(3)] by (simp add: lru_free_def)
  show ?thesis
    unfolding bget_def
    using h s1 s2 by (simp add: lock_simps upd_buf_def del: bscan.simps split: option.split)
qed

subsection \<open>The contract of the cache\<close>

text \<open>A buffer that the running process has from \<^verbatim>\<open>bread\<close>: it caches block \<open>n\<close>, is locked
  by the process and referenced.\<close>

definition has_buf :: "nat \<Rightarrow> uint32 \<Rightarrow> 'a kbio_scheme \<Rightarrow> bool" where
  "has_buf b n s \<longleftrightarrow> bix (bufs s) n = Some b \<and> b_valid (bufs s ! b) \<and> bowner s n = Some (my_pid s) \<and> brefs s n \<noteq> 0"

text \<open>Two states with the same contents, references and locks of all blocks and the same disk.\<close>

definition bsame :: "'a kbio_scheme \<Rightarrow> 'a kbio_scheme \<Rightarrow> bool" where
  "bsame s t \<longleftrightarrow> blk t = blk s \<and> brefs t = brefs s \<and> bowner t = bowner s \<and> disk t = disk s \<and> dwrites t = dwrites s"

lemma has_buf_data:
  "has_buf b n s \<Longrightarrow> bdata b s = blk s n"
  by (simp add: has_buf_def blk_def)

lemma valid_read:
  assumes "binv s" "bix (bufs s) n = Some b" "\<not> b_valid (bufs s ! b)" "b_refcnt (bufs s ! b) \<noteq> 0"
  shows "\<exists>t. bindR (disk_rw b False s) (\<lambda>s. Ok (b, upd_buf b (\<lambda>x. x\<lparr>b_valid := True\<rparr>) s)) = Ok (b, t) \<and>
    bstep s t \<and> binv t \<and> bix (bufs t) = bix (bufs s) \<and> b_valid (bufs t ! b) \<and> bsame s t \<and>
    (\<forall>c. c \<noteq> b \<longrightarrow> bufs t ! c = bufs s ! c)"
proof -
  let ?x = "(bufs s ! b)\<lparr>b_data := disk s n, b_valid := True\<rparr>"
  define t where "t = s\<lparr>bufs := (bufs s)[b := ?x]\<rparr>"
  have u: "buniq (bufs s)" "\<forall>i<NBUF. buf_ok (disk s) (bufs s ! i)" "\<forall>n. length (disk s n) = BSIZE" "length (bufs s) = Suc NBUF"
    using assms(1) by (simp_all add: binv_def)
  have b: "b < NBUF" "b_blockno (bufs s ! b) = n" "b_dev (bufs s ! b) = ROOTDEV" using assms(2) u(1) by (simp_all add: bix_Some)
  then have "buf_ok (disk s) (bufs s ! b)" using u(2) by blast
  then have ok: "buf_ok (disk s) ?x" using assms(4) b(3) u(3) by (simp add: buf_ok_def)
  note e = update_same_key [OF assms(1,2), of ?x, OF _ _ ok, folded t_def]
  have 1: "bindR (disk_rw b False s) (\<lambda>s. Ok (b, upd_buf b (\<lambda>x. x\<lparr>b_valid := True\<rparr>) s)) = Ok (b, t)"
    using b u(4) by (simp add: disk_rw_def set_data_def upd_buf_def t_def)
  have k: "same_key ?x (bufs s ! b)" "same_links ?x (bufs s ! b)" by (simp_all add: same_key_def same_links_def)
  have "blk s n = disk s n" "brefs s n = unat (b_refcnt (bufs s ! b))"
    "bowner s n = (if sl_locked (b_lock (bufs s ! b)) then Some (sl_pid (b_lock (bufs s ! b))) else None)"
    using assms(2,3) by (simp_all add: blk_def brefs_def bowner_def)
  then have "bsame s t" using e(3-5) [OF k] by (simp add: bsame_def fun_upd_idem) (simp add: t_def)
  moreover have "bstep s t" using bstep_upd_buf(1) [of s b "\<lambda>_. ?x"] by (simp add: t_def upd_buf_def)
  moreover have "b_valid (bufs t ! b)" using b u(4) by (simp add: t_def)
  moreover have "\<forall>c. c \<noteq> b \<longrightarrow> bufs t ! c = bufs s ! c" by (simp add: t_def)
  ultimately show ?thesis using 1 e(1,2) [OF k] by blast
qed

text \<open>
  One step on block \<open>n\<close>: the new contents, reference count and owner of the block are
  \<open>d\<close>, \<open>r\<close> and \<open>w\<close>, those of all other blocks stay, and so do the other buffers the
  process has.
\<close>

definition beff :: "uint32 \<Rightarrow> block \<Rightarrow> nat \<Rightarrow> int option \<Rightarrow> 'a kbio_scheme \<Rightarrow> 'a kbio_scheme \<Rightarrow> bool" where
  "beff n d r w s t \<longleftrightarrow> bstep s t \<and> binv t \<and> blk t = (blk s)(n := d) \<and> brefs t = (brefs s)(n := r) \<and>
     bowner t = (bowner s)(n := w) \<and> (\<forall>c m. m \<noteq> n \<longrightarrow> has_buf c m s \<longrightarrow> has_buf c m t)"

lemma beffI:
  assumes "bstep s t" "binv t" "kio s" "blk t = (blk s)(n := d)" "brefs t = (brefs s)(n := r)" "bowner t = (bowner s)(n := w)"
    "\<And>c m. m \<noteq> n \<Longrightarrow> bix (bufs s) m = Some c \<Longrightarrow> brefs s m \<noteq> 0 \<Longrightarrow>
       bix (bufs t) m = Some c \<and> b_valid (bufs t ! c) = b_valid (bufs s ! c)"
  shows "beff n d r w s t"
  using assms bstep_kio [of s t] by (simp add: beff_def has_buf_def)

lemma bget_hit:
  assumes "kio s" "binv s" "bowner s n = None" "brefs s n < 2 ^ 32 - 1" and Some: "bix (bufs s) n = Some b"
  shows "\<exists>b t. bget ROOTDEV n s = Ok (b, t) \<and> beff n (blk s n) (Suc (brefs s n)) (Some (my_pid s)) s t \<and>
    bix (bufs t) n = Some b \<and> disk t = disk s \<and> dwrites t = dwrites s"
proof -
  obtain xs where xs: "bdll (bufs s) xs" using assms(2) by (auto simp: binv_def)
  have inv: "buniq (bufs s)" "length (bufs s) = Suc NBUF" "\<forall>i<NBUF. buf_ok (disk s) (bufs s ! i)"
    using assms(2) by (simp_all add: binv_def)
  let ?lk = "\<lparr>sl_locked = True, sl_pid = my_pid s\<rparr>"
  let ?x = "(bufs s ! b)\<lparr>b_refcnt := b_refcnt (bufs s ! b) + 1, b_lock := ?lk\<rparr>"
  define t where "t = s\<lparr>bufs := (bufs s)[b := ?x]\<rparr>"
  have b: "b < NBUF" using Some inv(1) by (simp add: bix_Some)
  have free: "\<not> sl_locked (b_lock (bufs s ! b))" using assms(3) Some by (simp add: bowner_def split: if_splits)
  have r: "unat (b_refcnt (bufs s ! b)) < 2 ^ 32 - 1" using assms(4) Some by (simp add: brefs_def)
  then have r1: "unat (b_refcnt (bufs s ! b) + 1) = Suc (unat (b_refcnt (bufs s ! b)))"
    using unat_add_lem [of "b_refcnt (bufs s ! b)" 1] by simp
  then have "b_refcnt (bufs s ! b) + 1 \<noteq> 0" by (metis unat_0 Zero_not_Suc)
  moreover have "buf_ok (disk s) (bufs s ! b)" using inv(3) b by blast
  moreover have "b_dev (bufs s ! b) = ROOTDEV" using Some inv(1) by (simp add: bix_Some)
  ultimately have ok: "buf_ok (disk s) ?x" by (simp add: buf_ok_def)
  have k: "same_key ?x (bufs s ! b)" "same_links ?x (bufs s ! b)" by (simp_all add: same_key_def same_links_def)
  note e = update_same_key [OF assms(2) Some k ok, folded t_def]
  have "bget ROOTDEV n s = Ok (b, t)"
    using bget_eq [OF assms(1,2) xs, of n] Some free b inv(2) bget_lock_eq [of "upd_buf b (\<lambda>x. x\<lparr>b_refcnt := b_refcnt x + 1\<rparr>) s" b] assms(1)
    by (simp add: upd_buf_def t_def)
  moreover have "bstep s t" using bstep_upd_buf(1) [of s b "\<lambda>_. ?x"] by (simp add: t_def upd_buf_def)
  moreover have "b_valid (bufs t ! c) = b_valid (bufs s ! c)" for c
    using b inv(2) by (cases "c = b") (simp_all add: t_def)
  moreover have "blk s n = (if b_valid (bufs s ! b) then bdata b s else disk s n)" "brefs s n = unat (b_refcnt (bufs s ! b))"
    using Some by (simp_all add: blk_def brefs_def)
  ultimately have "bget ROOTDEV n s = Ok (b, t) \<and> beff n (blk s n) (Suc (brefs s n)) (Some (my_pid s)) s t"
    using e r1 assms(1) by (intro conjI beffI) simp_all
  moreover have "bix (bufs t) n = Some b" using e(2) Some by simp
  ultimately show ?thesis by (intro exI [of _ b] exI [of _ t]) (simp add: t_def)
qed

lemma bget_miss:
  assumes "kio s" "binv s" "card (busy s) < NBUF" and None: "bix (bufs s) n = None"
  shows "\<exists>b t. bget ROOTDEV n s = Ok (b, t) \<and> beff n (blk s n) (Suc (brefs s n)) (Some (my_pid s)) s t \<and>
    bix (bufs t) n = Some b \<and> disk t = disk s \<and> dwrites t = dwrites s"
proof -
  obtain xs where xs: "bdll (bufs s) xs" using assms(2) by (auto simp: binv_def)
  have inv: "buniq (bufs s)" "length (bufs s) = Suc NBUF" "\<forall>i<NBUF. buf_ok (disk s) (bufs s ! i)"
    using assms(2) by (simp_all add: binv_def)
  let ?lk = "\<lparr>sl_locked = True, sl_pid = my_pid s\<rparr>"
  have r0: "brefs s n = 0" using None by (simp add: brefs_def)
  obtain i where i: "i < NBUF" "b_refcnt (bufs s ! i) = 0" using free_buffer [OF assms(2,3)] by blast
  then have "lru_free (bufs s) xs \<noteq> None"
    using xs by (auto simp: lru_free_def find_None_iff bdll_def)
  then obtain b where lru: "lru_free (bufs s) xs = Some b" by blast
  then have "b \<in> set xs" "b_refcnt (bufs s ! b) = 0" by (auto simp: lru_free_def find_Some_iff rev_nth)
  then have b: "b < NBUF" "b_refcnt (bufs s ! b) = 0" using xs by (auto simp: bdll_def)
  let ?x = "(bufs s ! b)\<lparr>b_dev := ROOTDEV, b_blockno := n, b_valid := False, b_refcnt := 1, b_lock := ?lk\<rparr>"
  define t where "t = s\<lparr>bufs := (bufs s)[b := ?x]\<rparr>"
  have "buf_ok (disk s) (bufs s ! b)" using inv(3) b by blast
  then have free: "\<not> sl_locked (b_lock (bufs s ! b))" using b(2) by (simp add: buf_ok_def)
  have k: "same_links ?x (bufs s ! b)" "b_dev ?x = ROOTDEV" "b_blockno ?x = n" "buf_ok (disk s) ?x"
    by (simp_all add: same_links_def buf_ok_def)
  note e = update_recycle [OF assms(2) None b k, folded t_def]
  have "bget ROOTDEV n s = Ok (b, t)"
    using bget_eq [OF assms(1,2) xs, of n] None lru free b inv(2) assms(1)
      bget_lock_eq [of "upd_buf b (\<lambda>x. x\<lparr>b_dev := ROOTDEV, b_blockno := n, b_valid := False, b_refcnt := 1\<rparr>) s" b]
    by (simp add: upd_buf_def t_def)
  moreover have "bstep s t" using bstep_upd_buf(1) [of s b "\<lambda>_. ?x"] by (simp add: t_def upd_buf_def)
  moreover have "bix (bufs t) m = Some c \<and> b_valid (bufs t ! c) = b_valid (bufs s ! c)"
    if "bix (bufs s) m = Some c" "brefs s m \<noteq> 0" for c m
    using e(3) that b(2) by (cases "c = b") (auto simp: t_def brefs_def)
  moreover have "blk s n = disk s n" using None by (simp add: blk_def)
  ultimately have "bget ROOTDEV n s = Ok (b, t) \<and> beff n (blk s n) (Suc (brefs s n)) (Some (my_pid s)) s t"
    using e r0 assms(1) by (intro conjI beffI) simp_all
  then show ?thesis using e(2) by (intro exI [of _ b] exI [of _ t]) (simp add: t_def)
qed

lemma bget_spec:
  assumes "kio s" "binv s" "bowner s n = None" "brefs s n < 2 ^ 32 - 1" "brefs s n \<noteq> 0 \<or> card (busy s) < NBUF"
  shows "\<exists>b t. bget ROOTDEV n s = Ok (b, t) \<and> beff n (blk s n) (Suc (brefs s n)) (Some (my_pid s)) s t \<and>
    bix (bufs t) n = Some b \<and> disk t = disk s \<and> dwrites t = dwrites s"
proof (cases "bix (bufs s) n")
  case None
  then have "brefs s n = 0" by (simp add: brefs_def)
  then show ?thesis using bget_miss [OF assms(1,2) _ None] assms(5) by blast
next
  case (Some b)
  then show ?thesis by (rule bget_hit [OF assms(1-4)])
qed

lemma bread_spec:
  assumes "kio s" "binv s" "bowner s n = None" "brefs s n < 2 ^ 32 - 1" "brefs s n \<noteq> 0 \<or> card (busy s) < NBUF"
  shows "\<exists>b t. bread ROOTDEV n s = Ok (b, t) \<and> beff n (blk s n) (Suc (brefs s n)) (Some (my_pid s)) s t \<and>
    has_buf b n t \<and> disk t = disk s \<and> dwrites t = dwrites s"
proof -
  obtain b t where t: "bget ROOTDEV n s = Ok (b, t)" "beff n (blk s n) (Suc (brefs s n)) (Some (my_pid s)) s t"
    "bix (bufs t) n = Some b" "disk t = disk s" "dwrites t = dwrites s"
    using bget_spec [OF assms] by blast
  have pid: "my_pid t = my_pid s" "kio t" using bstep_kio [of s t] t(2) assms(1) by (simp_all add: beff_def)
  show ?thesis
  proof (cases "b_valid (bufs t ! b)")
    case True
    then have "has_buf b n t" using t(2,3) pid by (simp add: has_buf_def beff_def)
    moreover have "bread ROOTDEV n s = Ok (b, t)" using t(1) True by (simp add: bread_def)
    ultimately show ?thesis using t by blast
  next
    case False
    have "brefs t n \<noteq> 0" using t(2) by (simp add: beff_def)
    then have "b_refcnt (bufs t ! b) \<noteq> 0" using t(3) by (auto simp: brefs_def)
    then obtain u where u: "bindR (disk_rw b False t) (\<lambda>s. Ok (b, upd_buf b (\<lambda>x. x\<lparr>b_valid := True\<rparr>) s)) = Ok (b, u)"
      "bstep t u" "binv u" "bix (bufs u) = bix (bufs t)" "b_valid (bufs u ! b)" "bsame t u"
      "\<forall>c. c \<noteq> b \<longrightarrow> bufs u ! c = bufs t ! c"
      using valid_read [OF _ t(3) False] t(2) by (auto simp: beff_def)
    have upid: "my_pid u = my_pid t" using bstep_kio u(2) pid by blast
    have "has_buf c m u" if "m \<noteq> n" "has_buf c m s" for c m
    proof -
      have "has_buf c m t" using t(2) that by (simp add: beff_def)
      moreover have "c \<noteq> b" using calculation t(3) that(1) t(2) by (auto simp: has_buf_def bix_Some beff_def binv_def)
      ultimately show ?thesis using u upid by (simp add: has_buf_def bsame_def)
    qed
    then have "beff n (blk s n) (Suc (brefs s n)) (Some (my_pid s)) s u"
      using t(2) u bstep_trans [of s t u] by (simp add: beff_def bsame_def)
    moreover have "has_buf b n u" using u t(2,3) pid upid by (simp add: has_buf_def beff_def bsame_def)
    moreover have "bread ROOTDEV n s = Ok (b, u)" using t(1) False u(1) by (simp add: bread_def)
    ultimately show ?thesis using u(6) t(4,5) by (auto simp: bsame_def)
  qed
qed

lemma has_buf_inv:
  assumes "binv s" "has_buf b n s"
  shows "b < NBUF" "b_blockno (bufs s ! b) = n" "b_dev (bufs s ! b) = ROOTDEV" "b_valid (bufs s ! b)" "b_refcnt (bufs s ! b) \<noteq> 0"
    "sl_locked (b_lock (bufs s ! b))" "sl_pid (b_lock (bufs s ! b)) = my_pid s" "b < length (bufs s)"
    "buf_ok (disk s) (bufs s ! b)" "brefs s n = unat (b_refcnt (bufs s ! b))"
proof -
  have ix: "bix (bufs s) n = Some b" and h: "b_valid (bufs s ! b)" "bowner s n = Some (my_pid s)" "brefs s n \<noteq> 0"
    using assms(2) by (simp_all add: has_buf_def)
  have inv: "buniq (bufs s)" "length (bufs s) = Suc NBUF" "\<forall>i<NBUF. buf_ok (disk s) (bufs s ! i)"
    using assms(1) by (simp_all add: binv_def)
  show b: "b < NBUF" "b_blockno (bufs s ! b) = n" "b_dev (bufs s ! b) = ROOTDEV" "b_valid (bufs s ! b)" "b < length (bufs s)"
    "buf_ok (disk s) (bufs s ! b)"
    using ix inv h by (simp_all add: bix_Some)
  show "brefs s n = unat (b_refcnt (bufs s ! b))" "b_refcnt (bufs s ! b) \<noteq> 0"
    using ix h by (auto simp: brefs_def)
  show "sl_locked (b_lock (bufs s ! b))" "sl_pid (b_lock (bufs s ! b)) = my_pid s"
    using ix h by (auto simp: bowner_def split: if_splits)
qed

lemma has_buf_length: "binv s \<Longrightarrow> has_buf b n s \<Longrightarrow> length (bdata b s) = BSIZE"
  using has_buf_inv [of s b n] by (simp add: buf_ok_def)

text \<open>Changing the bytes of a buffer one has.\<close>

lemma set_data_spec:
  assumes "kio s" "binv s" "has_buf b n s" "length d = BSIZE"
  shows "beff n d (brefs s n) (Some (my_pid s)) s (set_data b d s)" "has_buf b n (set_data b d s)"
proof -
  note h = has_buf_inv [OF assms(2,3)]
  let ?x = "(bufs s ! b)\<lparr>b_data := d\<rparr>"
  define t where "t = s\<lparr>bufs := (bufs s)[b := ?x]\<rparr>"
  have ix: "bix (bufs s) n = Some b" using assms(3) by (simp add: has_buf_def)
  have ok: "buf_ok (disk s) ?x" using h assms(4) by (simp add: buf_ok_def)
  have k: "same_key ?x (bufs s ! b)" "same_links ?x (bufs s ! b)" by (simp_all add: same_key_def same_links_def)
  note e = update_same_key [OF assms(2) ix k ok, folded t_def]
  have eq: "set_data b d s = t" by (simp add: set_data_def upd_buf_def t_def)
  have v: "b_valid (bufs t ! c) = b_valid (bufs s ! c)" for c
    using h(8) by (cases "c = b") (simp_all add: t_def)
  have st: "bstep s t" using bstep_upd_buf(2) [of s b d] eq by simp
  show "beff n d (brefs s n) (Some (my_pid s)) s (set_data b d s)"
    unfolding eq using e v st assms(1) h by (intro beffI) simp_all
  then show "has_buf b n (set_data b d s)"
    using e(2) v h ix eq bstep_kio [OF st assms(1)] assms(3) by (simp add: has_buf_def beff_def)
qed

lemma cache_procs [simp]:
  "binv (s\<lparr>procs := ps\<rparr>) = binv s" "blk (s\<lparr>procs := ps\<rparr>) = blk s" "brefs (s\<lparr>procs := ps\<rparr>) = brefs s"
  "bowner (s\<lparr>procs := ps\<rparr>) = bowner s"
  by (simp_all add: binv_def blk_def brefs_def bowner_def fun_eq_iff split: option.split)

lemma bwrite_spec:
  assumes "kio s" "binv s" "has_buf b n s"
  shows "\<exists>t. bwrite b s = Ok t \<and> beff n (blk s n) (brefs s n) (Some (my_pid s)) s t \<and> has_buf b n t \<and>
    disk t = (disk s)(n := blk s n) \<and> dwrites t = dwrites s @ [(n, blk s n)]"
proof -
  note h = has_buf_inv [OF assms(2,3)]
  define t where "t = s\<lparr>disk := (disk s)(n := blk s n), dwrites := dwrites s @ [(n, blk s n)]\<rparr>"
  have d: "bdata b s = blk s n" using has_buf_data [OF assms(3)] .
  have "holdingsleep (buf_lock b) (b_lock (bufs s ! b)) s = Ok (True, s)"
    using holdingsleep_eq [OF kio_locks(1,3) [OF assms(1)], of b "b_lock (bufs s ! b)"] h by simp
  then have eq: "bwrite b s = Ok t" using d h(2) by (simp add: bwrite_def disk_rw_def t_def)
  have bu: "bufs t = bufs s" by (simp add: t_def)
  have ix: "bix (bufs s) n = Some b" using assms(3) by (simp add: has_buf_def)
  have st: "bstep s t" unfolding bstep_def
    by (rule exI [of _ "bufs s"], rule exI [of _ "procs s"], rule exI [of _ "disk t"], rule exI [of _ "dwrites t"])
      (simp add: t_def)
  have u: "buniq (bufs s)" using assms(2) by (simp add: binv_def)
  have "buf_ok (disk t) (bufs s ! i)" if i: "i < NBUF" for i
  proof -
    have ok: "buf_ok (disk s) (bufs s ! i)" using assms(2) i by (simp add: binv_def)
    show ?thesis
    proof (cases "b_dev (bufs s ! i) = ROOTDEV \<and> b_blockno (bufs s ! i) = n")
      case True
      then have "i = b" using ix i u bix_Some [OF u, of n i] by simp
      then show ?thesis using h by (simp add: buf_ok_def)
    next
      case False
      then show ?thesis using ok by (auto simp: buf_ok_def t_def)
    qed
  qed
  then have inv: "binv t" using assms(2) has_buf_length [OF assms(2,3)] d by (auto simp: binv_def bu) (simp add: t_def)
  have dk: "disk t = (disk s)(n := blk s n)" by (simp add: t_def)
  have "blk t n = blk s n" using ix h(4) d by (simp add: blk_def [of t] bu)
  moreover have "blk t m = blk s m" if "m \<noteq> n" for m using that by (simp add: blk_def bu dk split: option.split)
  ultimately have "blk t m = blk s m" for m by (cases "m = n") auto
  then have "blk t = (blk s)(n := blk s n)" by auto
  moreover have "brefs t = (brefs s)(n := brefs s n)" "bowner t = (bowner s)(n := Some (my_pid s))"
    using assms(3) by (auto simp: brefs_def bowner_def bu has_buf_def fun_eq_iff split: option.split)
  ultimately have "beff n (blk s n) (brefs s n) (Some (my_pid s)) s t"
    using st inv assms(1) by (intro beffI) (simp_all add: bu)
  moreover have "has_buf b n t" using assms(3) calculation bstep_kio [OF st assms(1)] by (simp add: has_buf_def bu beff_def)
  ultimately show ?thesis using eq by (intro exI [of _ t]) (simp add: t_def)
qed

text \<open>Moving a buffer in the list.\<close>

lemma link_only_view:
  fixes s :: "'a kbio_scheme"
  assumes "binv s" "link_only (bufs s) bs" "bdll bs xs"
  defines "t \<equiv> s\<lparr>bufs := bs\<rparr>"
  shows "binv t" "bix bs = bix (bufs s)" "blk t = blk s" "brefs t = brefs s" "bowner t = bowner s"
    "\<And>i. i < NBUF \<Longrightarrow> b_valid (bs ! i) = b_valid (bufs s ! i)"
proof -
  have l: "length (bufs s) = Suc NBUF" using assms(1) by (simp add: binv_def)
  note f = link_only_nth [OF assms(2)]
  have f': "b_valid (bs ! i) = b_valid (bufs s ! i)" "b_dev (bs ! i) = b_dev (bufs s ! i)"
    "b_blockno (bs ! i) = b_blockno (bufs s ! i)" "b_lock (bs ! i) = b_lock (bufs s ! i)"
    "b_refcnt (bs ! i) = b_refcnt (bufs s ! i)" "b_data (bs ! i) = b_data (bufs s ! i)" if "i < NBUF" for i
    using f [of i] that l by simp_all
  then show "\<And>i. i < NBUF \<Longrightarrow> b_valid (bs ! i) = b_valid (bufs s ! i)" by blast
  show ix: "bix bs = bix (bufs s)"
    unfolding bix_def [abs_def] by (intro ext find_cong) (auto simp: f')
  have u: "buniq bs" "buniq (bufs s)" using assms(1) f' by (simp_all add: binv_def buniq_def)
  show "binv t"
    using assms(1,3) u(1) f' link_only_length [OF assms(2)] by (auto simp: binv_def t_def buf_ok_def)
  have lt: "i < NBUF" if "bix (bufs s) n = Some i" for n i using that u(2) by (simp add: bix_Some)
  show "blk t = blk s" "brefs t = brefs s" "bowner t = bowner s"
    using lt f' by (auto simp: blk_def brefs_def bowner_def t_def ix fun_eq_iff split: option.splits)
qed

lemma bdll_move:
  assumes "bdll (bufs s) xs" "b < NBUF" "length (bufs s) = Suc NBUF"
  shows "\<exists>bs. bcache_front b (bcache_unlink b s) = s\<lparr>bufs := bs\<rparr> \<and> link_only (bufs s) bs \<and> bdll bs (b # remove1 b xs)"
proof -
  have x: "bchain (bufs s) xs" "set xs = {..<NBUF}" "distinct xs" using assms(1) by (simp_all add: bdll_def bchain_def)
  then obtain us vs where v: "xs = us @ b # vs" "b \<notin> set us" using assms(2) split_list_first [of b xs] by auto
  then have r: "remove1 b xs = us @ vs" by (simp add: remove1_append)
  obtain bs where bs: "bcache_unlink b s = s\<lparr>bufs := bs\<rparr>" "link_only (bufs s) bs" "bchain bs (us @ vs)"
    using bcache_unlink_spec [of s us b vs] x v assms(3) by auto
  then have "length bs = Suc NBUF" using link_only_length assms(3) by simp
  then obtain cs where cs: "bcache_front b (s\<lparr>bufs := bs\<rparr>) = s\<lparr>bufs := cs\<rparr>" "link_only bs cs" "bchain cs (b # us @ vs)"
    using bcache_front_spec [of "s\<lparr>bufs := bs\<rparr>" "us @ vs" b] bs(3) x v assms(2) by auto
  have "set (b # us @ vs) = {..<NBUF}" using x(2) v by auto
  then show ?thesis using bs(1,2) cs r by (auto simp: link_only_def bdll_def)
qed

lemma unlock_release:
  assumes "kio s" "binv s" "has_buf b n s" "1 < brefs s n \<or> blk s n = disk s n" and ps: "woken (procs s) ps"
  defines "x \<equiv> (bufs s ! b)\<lparr>b_lock := initsleeplock, b_refcnt := b_refcnt (bufs s ! b) - 1\<rparr>"
  defines "t \<equiv> s\<lparr>procs := ps, bufs := (bufs s)[b := x]\<rparr>"
  shows "beff n (blk s n) (brefs s n - 1) None s t"
proof -
  note h = has_buf_inv [OF assms(2,3)]
  have ix: "bix (bufs s) n = Some b" using assms(3) by (simp add: has_buf_def)
  have r: "unat (b_refcnt x) = brefs s n - 1" using h(5,10) by (simp add: x_def unat_sub_one)
  have d: "bdata b s = blk s n" using has_buf_data [OF assms(3)] .
  have "b_refcnt x = 0 \<Longrightarrow> brefs s n \<le> 1" using r by simp
  then have ok: "buf_ok (disk s) x"
    using h d assms(4) by (auto simp: buf_ok_def x_def initsleeplock_def)
  have k: "same_key x (bufs s ! b)" "same_links x (bufs s ! b)" by (simp_all add: x_def same_key_def same_links_def)
  have v: "b_valid (bufs t ! c) = b_valid (bufs s ! c)" for c
    using h(8) by (cases "c = b") (simp_all add: t_def x_def)
  have st: "bstep s t" unfolding bstep_def
    by (rule exI [of _ "bufs t"], rule exI [of _ ps], rule exI [of _ "disk s"], rule exI [of _ "dwrites s"])
      (simp add: t_def ps)
  let ?s = "s\<lparr>procs := ps\<rparr>"
  have e: "binv t" "bix (bufs t) = bix (bufs s)" "blk t = (blk s)(n := if b_valid x then b_data x else disk s n)"
    "brefs t = (brefs s)(n := unat (b_refcnt x))"
    "bowner t = (bowner s)(n := if sl_locked (b_lock x) then Some (sl_pid (b_lock x)) else None)"
    using update_same_key [of ?s n b x] assms(2) ix k ok by (simp_all add: t_def)
  show ?thesis
    using e v st assms(1) h r d by (intro beffI) (simp_all add: x_def initsleeplock_def)
qed

text \<open>The list operations read and change the buffers only.\<close>

lemma list_held:
  "bcache_front b (bcache_unlink b (s\<lparr>procs := ps, held := h, bufs := bs\<rparr>)) =
     (bcache_front b (bcache_unlink b (s\<lparr>procs := ps, bufs := bs\<rparr>)))\<lparr>held := h\<rparr>"
  "held (bcache_front b s) = held s" "held (bcache_unlink b s) = held s"
  by (simp_all add: bcache_front_def bcache_unlink_def upd_buf_def Let_def)

text \<open>The state after \<^verbatim>\<open>brelse\<close> up to the move in the list.\<close>

definition released :: "nat \<Rightarrow> 'a kbio_scheme \<Rightarrow> 'a kbio_scheme" where
  "released b s = s\<lparr>procs := wake_from (Some (buf_chan b)) (cur s) NPROC (procs s),
     bufs := (bufs s)[b := (bufs s ! b)\<lparr>b_lock := initsleeplock, b_refcnt := b_refcnt (bufs s ! b) - 1\<rparr>]\<rparr>"

lemma brelse_eq:
  assumes "kio s" "binv s" "has_buf b n s"
  shows "brelse b s = Ok (if b_refcnt (bufs s ! b) = 1 then bcache_front b (bcache_unlink b (released b s)) else released b s)"
proof -
  note h = has_buf_inv [OF assms(2,3)]
  have 1: "holdingsleep (buf_lock b) (b_lock (bufs s ! b)) s = Ok (True, s)"
    using holdingsleep_eq [OF kio_locks(1,3) [OF assms(1)], of b "b_lock (bufs s ! b)"] h by simp
  have 2: "releasesleep (buf_lock b) (buf_chan b) (b_lock (bufs s ! b)) s =
      Ok (initsleeplock, s\<lparr>procs := wake_from (Some (buf_chan b)) (cur s) NPROC (procs s)\<rparr>)"
    using releasesleep_eq [OF kio_locks(1,3) [OF assms(1)], of b "buf_chan b" "b_lock (bufs s ! b)"] by simp
  show ?thesis
    unfolding brelse_def
    using 1 2 kio_locks(2) [OF assms(1)] h(8)
    by (simp add: lock_simps upd_buf_def released_def list_held)
qed

lemma released_eff:
  assumes "kio s" "binv s" "has_buf b n s" "1 < brefs s n \<or> blk s n = disk s n"
  shows "beff n (blk s n) (brefs s n - 1) None s (released b s)"
  unfolding released_def by (rule unlock_release [OF assms]) simp

lemma released_move:
  assumes "kio s" "binv s" "has_buf b n s" "1 < brefs s n \<or> blk s n = disk s n" "bdll (bufs s) xs"
  shows "\<exists>bs. bcache_front b (bcache_unlink b (released b s)) = (released b s)\<lparr>bufs := bs\<rparr> \<and>
    link_only (bufs (released b s)) bs \<and> bdll bs (b # remove1 b xs)"
proof -
  have "length (bufs (released b s)) = Suc NBUF" using assms(2) by (simp add: released_def binv_def)
  moreover have "bdll (bufs (released b s)) xs" using assms(5) by (simp add: released_def same_links_def)
  ultimately show ?thesis using bdll_move has_buf_inv(1) [OF assms(2,3)] by blast
qed

lemma brelse_spec:
  assumes "kio s" "binv s" "has_buf b n s" "1 < brefs s n \<or> blk s n = disk s n"
  shows "\<exists>t. brelse b s = Ok t \<and> beff n (blk s n) (brefs s n - 1) None s t \<and> disk t = disk s \<and> dwrites t = dwrites s"
proof -
  define t where "t = released b s"
  have e: "beff n (blk s n) (brefs s n - 1) None s t" unfolding t_def by (rule released_eff [OF assms])
  then have bt: "binv t" by (simp add: beff_def)
  obtain xs where xs: "bdll (bufs s) xs" using assms(2) by (auto simp: binv_def)
  obtain bs where bs: "bcache_front b (bcache_unlink b t) = t\<lparr>bufs := bs\<rparr>" "link_only (bufs t) bs" "bdll bs (b # remove1 b xs)"
    using released_move [OF assms xs] by (auto simp: t_def)
  note l = link_only_view [OF bt bs(2,3)]
  have "has_buf c m (t\<lparr>bufs := bs\<rparr>)" if "has_buf c m t" for c m
  proof -
    have "c < NBUF" using has_buf_inv(1) [OF bt that] .
    then show ?thesis using that l(2,4,5,6) by (simp add: has_buf_def)
  qed
  then have "beff n (blk s n) (brefs s n - 1) None s (t\<lparr>bufs := bs\<rparr>)"
    using e l(1,3,4,5) bstep_trans [of s t "t\<lparr>bufs := bs\<rparr>"] bstep_upd_bufs [of t bs]
    by (simp add: beff_def)
  moreover have "disk t = disk s" "dwrites t = dwrites s" by (simp_all add: t_def released_def)
  ultimately show ?thesis using brelse_eq [OF assms(1-3)] e bs(1) by (simp add: t_def [symmetric])
qed

text \<open>An update of a buffer one has that keeps its lock, contents and place.\<close>

lemma keep_data_spec:
  assumes "kio s" "binv s" "has_buf b n s" "buf_ok (disk s) x" "same_key x (bufs s ! b)" "same_links x (bufs s ! b)"
    "b_valid x" "b_lock x = b_lock (bufs s ! b)" "b_refcnt x \<noteq> 0"
  defines "t \<equiv> s\<lparr>bufs := (bufs s)[b := x]\<rparr>"
  shows "beff n (b_data x) (unat (b_refcnt x)) (Some (my_pid s)) s t" "has_buf b n t"
proof -
  note h = has_buf_inv [OF assms(2,3)]
  have ix: "bix (bufs s) n = Some b" using assms(3) by (simp add: has_buf_def)
  note e = update_same_key [OF assms(2) ix assms(5,6,4), folded t_def]
  have v: "b_valid (bufs t ! c) = b_valid (bufs s ! c)" for c
    using h(4,8) assms(7) by (cases "c = b") (simp_all add: t_def)
  have st: "bstep s t" using bstep_upd_bufs by (simp add: t_def)
  show "beff n (b_data x) (unat (b_refcnt x)) (Some (my_pid s)) s t"
    using e v st assms(1,7,8) h by (intro beffI) simp_all
  then show "has_buf b n t"
    using e(2) v h ix bstep_kio [OF st assms(1)] assms(9) by (simp add: has_buf_def beff_def unat_eq_zero)
qed

lemma bpin_spec:
  assumes "kio s" "binv s" "has_buf b n s" "brefs s n < 2 ^ 32 - 1"
  shows "\<exists>t. bpin b s = Ok t \<and> beff n (blk s n) (Suc (brefs s n)) (Some (my_pid s)) s t \<and> has_buf b n t \<and>
    disk t = disk s \<and> dwrites t = dwrites s"
proof -
  note h = has_buf_inv [OF assms(2,3)]
  let ?x = "(bufs s ! b)\<lparr>b_refcnt := b_refcnt (bufs s ! b) + 1\<rparr>"
  have r: "unat (b_refcnt (bufs s ! b) + 1) = Suc (brefs s n)"
    using unat_add_lem [of "b_refcnt (bufs s ! b)" 1] assms(4) h(10) by simp
  have "b_refcnt (bufs s ! b) + 1 \<noteq> 0" using r by (metis unat_0 Zero_not_Suc)
  then have ok: "buf_ok (disk s) ?x" "b_refcnt ?x \<noteq> 0" using h by (simp_all add: buf_ok_def)
  have "bpin b s = Ok (s\<lparr>bufs := (bufs s)[b := ?x]\<rparr>)"
    using kio_locks(2) [OF assms(1)] by (simp add: bpin_def lock_simps upd_buf_def)
  moreover have "same_key ?x (bufs s ! b)" "same_links ?x (bufs s ! b)" by (simp_all add: same_key_def same_links_def)
  moreover note keep_data_spec [OF assms(1-3) ok(1) calculation(2,3) _ _ ok(2)]
  ultimately show ?thesis using r h(4) has_buf_data [OF assms(3)] by simp
qed

lemma bunpin_spec:
  assumes "kio s" "binv s" "has_buf b n s" "1 < brefs s n"
  shows "\<exists>t. bunpin b s = Ok t \<and> beff n (blk s n) (brefs s n - 1) (Some (my_pid s)) s t \<and> has_buf b n t \<and>
    disk t = disk s \<and> dwrites t = dwrites s"
proof -
  note h = has_buf_inv [OF assms(2,3)]
  let ?x = "(bufs s ! b)\<lparr>b_refcnt := b_refcnt (bufs s ! b) - 1\<rparr>"
  have r: "unat (b_refcnt (bufs s ! b) - 1) = brefs s n - 1" using h by (simp add: unat_sub_one)
  have "b_refcnt (bufs s ! b) - 1 \<noteq> 0" using r assms(4) by (metis unat_0 zero_less_diff less_irrefl)
  then have ok: "buf_ok (disk s) ?x" "b_refcnt ?x \<noteq> 0" using h by (simp_all add: buf_ok_def)
  have "bunpin b s = Ok (s\<lparr>bufs := (bufs s)[b := ?x]\<rparr>)"
    using kio_locks(2) [OF assms(1)] by (simp add: bunpin_def lock_simps upd_buf_def)
  moreover have "same_key ?x (bufs s ! b)" "same_links ?x (bufs s ! b)" by (simp_all add: same_key_def same_links_def)
  moreover note keep_data_spec [OF assms(1-3) ok(1) calculation(2,3) _ _ ok(2)]
  ultimately show ?thesis using r h(4) has_buf_data [OF assms(3)] by simp
qed

subsection \<open>Boot\<close>

text \<open>Buffers as the loader leaves them: all zero.\<close>

definition bss_buf :: buf where
  "bss_buf = \<lparr>b_valid = False, b_disk = False, b_dev = 0, b_blockno = 0, b_lock = initsleeplock, b_refcnt = 0,
     b_prev = 0, b_next = 0, b_data = replicate BSIZE 0\<rparr>"

definition bss_like :: "buf \<Rightarrow> bool" where
  "bss_like x \<longleftrightarrow> unlinked x = bss_buf"

lemma bss_like_fields:
  "bss_like x \<Longrightarrow> b_dev x = 0 \<and> \<not> b_valid x \<and> b_refcnt x = 0 \<and> b_lock x = initsleeplock"
  by (cases x) (simp add: bss_like_def bss_buf_def unlinked_def)

lemma binit_step:
  assumes "bchain (bufs s) (rev [0..<i])" "list_all bss_like (bufs s)" "length (bufs s) = Suc NBUF" "i < NBUF"
  shows "\<exists>bs. bcache_front i (upd_buf i (\<lambda>x. x\<lparr>b_lock := initsleeplock\<rparr>) s) = s\<lparr>bufs := bs\<rparr> \<and>
    bchain bs (rev [0..<Suc i]) \<and> list_all bss_like bs \<and> length bs = Suc NBUF"
proof -
  have "bss_like (bufs s ! i)" using assms(2-4) by (simp add: list_all_length)
  then have "(bufs s ! i)\<lparr>b_lock := initsleeplock\<rparr> = bufs s ! i"
    by (cases "bufs s ! i") (simp add: bss_like_def bss_buf_def unlinked_def)
  then have eq: "upd_buf i (\<lambda>x. x\<lparr>b_lock := initsleeplock\<rparr>) s = s" by (simp add: upd_buf_def)
  obtain bs where bs: "bcache_front i s = s\<lparr>bufs := bs\<rparr>" "link_only (bufs s) bs" "bchain bs (i # rev [0..<i])"
    using bcache_front_spec [OF assms(1,4) _ assms(3)] assms(4) by (auto simp: subset_iff)
  have "map unlinked bs = replicate (Suc NBUF) bss_buf"
    using bs(2) assms(2,3) unfolding link_only_def
    by (intro nth_equalityI) (auto simp: list_all_length bss_like_def)
  then have "list_all bss_like bs"
    by (metis (no_types, lifting) bss_like_def in_set_replicate list.set_map list_all_iff imageI)
  then show ?thesis using eq bs link_only_length [OF bs(2)] assms(3) by auto
qed

lemma binit_spec:
  assumes "bufs s = replicate (Suc NBUF) bss_buf" "\<forall>n. length (disk s n) = BSIZE"
  shows "\<exists>bs. binit s = Ok (s\<lparr>bufs := bs\<rparr>) \<and> binv (s\<lparr>bufs := bs\<rparr>) \<and> bdll bs (rev [0..<NBUF]) \<and>
    list_all bss_like bs"
proof -
  define I where "I i t \<longleftrightarrow> (\<exists>bs. t = s\<lparr>bufs := bs\<rparr> \<and> bchain bs (rev [0..<i]) \<and> list_all bss_like bs \<and> length bs = Suc NBUF)" for i t
  let ?h = "upd_buf NBUF (\<lambda>x. x\<lparr>b_prev := NBUF, b_next := NBUF\<rparr>) s"
  let ?f = "\<lambda>b s. Ok (bcache_front b (upd_buf b (\<lambda>x. x\<lparr>b_lock := initsleeplock\<rparr>) s))"
  have len: "length (bufs ?h) = Suc NBUF" by (simp only: upd_buf_def assms(1)) simp
  have at: "bufs ?h ! NBUF = bss_buf\<lparr>b_prev := NBUF, b_next := NBUF\<rparr>" using len by (simp add: upd_buf_def assms(1))
  have "list_all bss_like (bufs ?h)"
    unfolding list_all_length
  proof (intro allI impI)
    fix i assume "i < length (bufs ?h)"
    then show "bss_like (bufs ?h ! i)" using len
      by (cases "i = NBUF") (auto simp: upd_buf_def assms(1) bss_like_def unlinked_def bss_buf_def nth_list_update simp del: replicate_Suc)
  qed
  moreover have "bchain (bufs ?h) (rev [0..<0])" using at by (simp add: bchain_def)
  ultimately have "I 0 ?h" using len by (auto simp: I_def upd_buf_def)
  moreover have "okR (?f i t) (I (Suc i))" if i: "i < 0 + NBUF" and t: "I i t" for i t
  proof -
    obtain bs where bs: "t = s\<lparr>bufs := bs\<rparr>" "bchain bs (rev [0..<i])" "list_all bss_like bs" "length bs = Suc NBUF"
      using t unfolding I_def by blast
    have "\<exists>cs. bcache_front i (upd_buf i (\<lambda>x. x\<lparr>b_lock := initsleeplock\<rparr>) t) = t\<lparr>bufs := cs\<rparr> \<and>
        bchain cs (rev [0..<Suc i]) \<and> list_all bss_like cs \<and> length cs = Suc NBUF"
      using binit_step [of t i] bs i by simp
    then show ?thesis unfolding I_def okR_def using bs(1) by auto
  qed
  ultimately have "okR (foreach ?f 0 NBUF ?h) (I (0 + NBUF))" by (intro foreach_invar)
  then obtain bs where bs: "binit s = Ok (s\<lparr>bufs := bs\<rparr>)" "bchain bs (rev [0..<NBUF])" "list_all bss_like bs" "length bs = Suc NBUF"
    by (auto simp: okR_def I_def binit_def Let_def)
  have fld: "b_dev (bs ! i) = 0 \<and> \<not> b_valid (bs ! i) \<and> b_refcnt (bs ! i) = 0 \<and> b_lock (bs ! i) = initsleeplock" if "i < NBUF" for i
    using bss_like_fields [of "bs ! i"] bs(3,4) that by (simp add: list_all_length)
  have "bdll bs (rev [0..<NBUF])" using bs(2) unfolding bdll_def by (auto simp del: upt_rec_numeral)
  moreover have "buniq bs" "\<forall>i<NBUF. buf_ok (disk s) (bs ! i)"
    using fld by (auto simp: buniq_def buf_ok_def initsleeplock_def)
  ultimately have "binv (s\<lparr>bufs := bs\<rparr>)" using bs(4) assms(2) by (auto simp: binv_def)
  then show ?thesis using bs \<open>bdll bs _\<close> by blast
qed

text \<open>The machine just after boot, with the first process running and a given disk.\<close>

definition boot_kbio :: "(uint32 \<Rightarrow> block) \<Rightarrow> kbio" where
  "boot_kbio d = kmem.extend
     ((bss_kmem 0x80020000)\<lparr>procs := (replicate NPROC bss_proc)[0 := bss_proc\<lparr>p_state := RUNNING, p_pid := 1\<rparr>], cur := Some 0\<rparr>)
     \<lparr>bufs = replicate (Suc NBUF) bss_buf, disk = d, dwrites = []\<rparr>"

lemma boot_kbio_simps [simp]:
  "bufs (boot_kbio d) = replicate (Suc NBUF) bss_buf" "disk (boot_kbio d) = d" "dwrites (boot_kbio d) = []"
  "held (boot_kbio d) = []" "cur (boot_kbio d) = Some 0" "my_pid (boot_kbio d) = 1"
  "procs (boot_kbio d) = (replicate NPROC bss_proc)[0 := bss_proc\<lparr>p_state := RUNNING, p_pid := 1\<rparr>]"
  by (simp_all add: boot_kbio_def bss_kmem_def bss_kproc_def kmem.extend_def kproc.extend_def my_pid_def)

lemma boot_kio [simp]: "kio (boot_kbio d)"
  by (simp add: kio_def kenv_def)

lemma fresh_cache:
  assumes "list_all bss_like (bufs s)" "length (bufs s) = Suc NBUF"
  shows "blk s = disk s" "brefs s = (\<lambda>_. 0)" "bowner s = (\<lambda>_. None)" "busy s = {}" "\<forall>n. bix (bufs s) n = None"
proof -
  have "b_dev (bufs s ! i) = 0" if "i < NBUF" for i
    using bss_like_fields assms that by (simp add: list_all_length)
  then have ix: "bix (bufs s) n = None" for n unfolding bix_None by simp
  show "blk s = disk s" "brefs s = (\<lambda>_. 0)" "bowner s = (\<lambda>_. None)"
    by (simp_all add: blk_def brefs_def bowner_def ix fun_eq_iff)
  then show "busy s = {}" "\<forall>n. bix (bufs s) n = None" using ix by (simp_all add: busy_def)
qed

lemma booted_cache:
  assumes "\<forall>n. length (d n) = BSIZE"
  shows "\<exists>s. binit (boot_kbio d) = Ok s \<and> kio s \<and> binv s \<and> bdll (bufs s) (rev [0..<NBUF]) \<and> blk s = d \<and> disk s = d \<and>
    brefs s = (\<lambda>_. 0) \<and> bowner s = (\<lambda>_. None) \<and> busy s = {} \<and> dwrites s = [] \<and> (\<forall>n. bix (bufs s) n = None)"
proof -
  obtain bs where bs: "binit (boot_kbio d) = Ok ((boot_kbio d)\<lparr>bufs := bs\<rparr>)" "binv ((boot_kbio d)\<lparr>bufs := bs\<rparr>)"
    "bdll bs (rev [0..<NBUF])" "list_all bss_like bs"
    using binit_spec [of "boot_kbio d"] assms boot_kbio_simps(1,2) by metis
  then have "length bs = Suc NBUF" by (simp add: binv_def)
  then show ?thesis using bs fresh_cache [of "(boot_kbio d)\<lparr>bufs := bs\<rparr>"] by auto
qed

subsection \<open>Properties\<close>

text \<open>
  C15: \<^verbatim>\<open>bread\<close> returns the current contents of a block, in the only buffer that caches it.
  When the block is not locked and is cached or some buffer is unused, \<^verbatim>\<open>bread\<close> returns a
  buffer for that block which holds its contents and is locked by the caller, with one more
  reference; the contents, references and locks of all other blocks and the disk are unchanged,
  and the cache stays well formed: the list of buffers is intact, no two buffers hold the same
  block, and an unreferenced valid buffer agrees with the disk.
\<close>

theorem bread_returns_block:
  assumes "kio s" "binv s" "bowner s n = None" "brefs s n < 2 ^ 32 - 1" "brefs s n \<noteq> 0 \<or> card (busy s) < NBUF"
  shows "\<exists>b t. bread ROOTDEV n s = Ok (b, t) \<and> binv t \<and>
    (\<forall>i<NBUF. b_dev (bufs t ! i) = ROOTDEV \<and> b_blockno (bufs t ! i) = n \<longleftrightarrow> i = b) \<and>
    b_valid (bufs t ! b) \<and> bdata b t = blk s n \<and> blk t = blk s \<and>
    brefs t = (brefs s)(n := Suc (brefs s n)) \<and> bowner t = (bowner s)(n := Some (my_pid s)) \<and>
    disk t = disk s \<and> dwrites t = dwrites s"
proof -
  obtain b t where t: "bread ROOTDEV n s = Ok (b, t)" "beff n (blk s n) (Suc (brefs s n)) (Some (my_pid s)) s t"
    "has_buf b n t" "disk t = disk s" "dwrites t = dwrites s"
    using bread_spec [OF assms] by blast
  have inv: "binv t" "buniq (bufs t)" using t(2) by (simp_all add: beff_def binv_def)
  have "b_dev (bufs t ! i) = ROOTDEV \<and> b_blockno (bufs t ! i) = n \<longleftrightarrow> i = b" if "i < NBUF" for i
    using has_buf_inv [OF inv(1) t(3)] buniqD [OF inv(2) that, of b] by auto
  moreover have "blk t = blk s" using t(2) by (simp add: beff_def)
  ultimately show ?thesis
    using t inv(1) has_buf_data [OF t(3)] has_buf_inv [OF inv(1) t(3)] by (simp add: beff_def)
qed

theorem bread_returns_block_witness:
  "\<exists>s b t. binit (boot_kbio (\<lambda>_. replicate BSIZE 7)) = Ok s \<and> bread ROOTDEV 5 s = Ok (b, t) \<and> bdata b t = replicate BSIZE 7"
proof -
  obtain s where s: "binit (boot_kbio (\<lambda>_. replicate BSIZE 7)) = Ok s" "kio s" "binv s" "blk s = (\<lambda>_. replicate BSIZE 7)"
    "brefs s = (\<lambda>_. 0)" "bowner s = (\<lambda>_. None)" "busy s = {}"
    using booted_cache [of "\<lambda>_. replicate BSIZE 7"] by auto
  then show ?thesis using bread_returns_block [OF s(2,3), of 5] by auto
qed

text \<open>
  C22: Blocks survive in the cache and on disk: after a process reads a block, replaces its
  bytes, writes it with \<^verbatim>\<open>bwrite\<close> and releases it, the disk differs from before in that
  block only, the block is free again with its old reference count, and reading it again
  gives the new bytes.
\<close>

theorem bwrite_bread_roundtrip:
  assumes "kio s" "binv s" "bowner s n = None" "brefs s n < 2 ^ 32 - 1" "brefs s n \<noteq> 0 \<or> card (busy s) < NBUF"
    "length d = BSIZE"
  shows "\<exists>b t u c v. bread ROOTDEV n s = Ok (b, t) \<and> bindR (bwrite b (set_data b d t)) (brelse b) = Ok u \<and>
    binv u \<and> disk u = (disk s)(n := d) \<and> blk u = (blk s)(n := d) \<and> brefs u = brefs s \<and> bowner u = bowner s \<and>
    bread ROOTDEV n u = Ok (c, v) \<and> bdata c v = d"
proof -
  obtain b t where t: "bread ROOTDEV n s = Ok (b, t)" "beff n (blk s n) (Suc (brefs s n)) (Some (my_pid s)) s t"
    "has_buf b n t" "disk t = disk s"
    using bread_spec [OF assms(1-5)] by blast
  have k: "kio t" "binv t" using t(2) bstep_kio [of s t] assms(1) by (simp_all add: beff_def)
  define w where "w = set_data b d t"
  note w = set_data_spec [OF k t(3) assms(6), folded w_def]
  have dw: "disk w = disk s" using t(4) by (simp add: w_def set_data_def upd_buf_def)
  have kw: "kio w" "binv w" using w(1) bstep_kio [of t w] k by (simp_all add: beff_def)
  obtain x where x: "bwrite b w = Ok x" "beff n (blk w n) (brefs w n) (Some (my_pid w)) w x" "has_buf b n x"
    "disk x = (disk w)(n := blk w n)" using bwrite_spec [OF kw w(2)] by blast
  have kx: "kio x" "binv x" using x(2) bstep_kio [of w x] kw by (simp_all add: beff_def)
  have wn: "blk w = (blk s)(n := d)" "brefs w = (brefs s)(n := Suc (brefs s n))" "bowner w = (bowner s)(n := Some (my_pid t))"
    using w(1) t(2) by (simp_all add: beff_def)
  have xn: "blk x = (blk s)(n := d)" "brefs x = (brefs s)(n := Suc (brefs s n))" "bowner x = (bowner s)(n := Some (my_pid w))"
    using x(2) by (simp_all add: beff_def wn)
  then obtain u where u: "brelse b x = Ok u" "beff n (blk x n) (brefs x n - 1) None x u" "disk u = disk x"
    using brelse_spec [OF kx x(3)] x(4) wn by auto
  have un: "blk u = (blk s)(n := d)" "brefs u = brefs s" "bowner u = bowner s" "disk u = (disk s)(n := d)"
    using u(2,3) x(4) dw assms(3) wn by (auto simp: beff_def xn fun_upd_idem)
  have ku: "kio u" "binv u" "busy u = busy s" using u(2) bstep_kio [of x u] kx un(2) by (simp_all add: beff_def busy_def)
  obtain c v where "bread ROOTDEV n u = Ok (c, v)" "beff n (blk u n) (Suc (brefs u n)) (Some (my_pid u)) u v" "has_buf c n v"
    using bread_spec [OF ku(1,2), of n] assms(3-5) un ku(3) by auto
  then show ?thesis
    using t(1) x(1) u(1) un ku(2) has_buf_data [of c n v] by (auto simp: w_def beff_def)
qed

theorem bwrite_bread_roundtrip_witness:
  "\<exists>s b t u. binit (boot_kbio (\<lambda>_. replicate BSIZE 0)) = Ok s \<and> bread ROOTDEV 5 s = Ok (b, t) \<and>
    bindR (bwrite b (set_data b (replicate BSIZE 1) t)) (brelse b) = Ok u \<and> disk u 5 = replicate BSIZE 1"
proof -
  obtain s where s: "binit (boot_kbio (\<lambda>_. replicate BSIZE 0)) = Ok s" "kio s" "binv s"
    "brefs s = (\<lambda>_. 0)" "bowner s = (\<lambda>_. None)" "busy s = {}"
    using booted_cache [of "\<lambda>_. replicate BSIZE 0"] by auto
  then show ?thesis using bwrite_bread_roundtrip [OF s(2,3), of 5 "replicate BSIZE 1"] by auto
qed

text \<open>
  C23: The cache recycles buffers in the order of last use.  When a block is not cached,
  \<^verbatim>\<open>bget\<close> takes, of the buffers nobody references, the one that comes last in the list, and
  panics when there is none; when the last reference is dropped, \<^verbatim>\<open>brelse\<close> moves the buffer
  to the front and keeps the order of the others.
\<close>

theorem bcache_is_lru:
  assumes "kio s" "binv s" "bdll (bufs s) xs"
  defines "unused \<equiv> filter (\<lambda>i. b_refcnt (bufs s ! i) = 0) xs"
  shows "(bix (bufs s) n = None \<longrightarrow>
      (if unused = [] then bget ROOTDEV n s = Panic ''bget: no buffers''
       else (\<exists>t. bget ROOTDEV n s = Ok (last unused, t) \<and> bdll (bufs t) xs))) \<and>
    (\<forall>b m. has_buf b m s \<and> brefs s m = 1 \<and> blk s m = disk s m \<longrightarrow>
      (\<exists>t. brelse b s = Ok t \<and> bdll (bufs t) (b # remove1 b xs)))"
proof (intro conjI impI allI)
  assume none: "bix (bufs s) n = None"
  have lru: "lru_free (bufs s) xs = (if unused = [] then None else Some (last unused))"
    unfolding lru_free_def unused_def by (rule find_rev_filter)
  show "if unused = [] then bget ROOTDEV n s = Panic ''bget: no buffers''
       else (\<exists>t. bget ROOTDEV n s = Ok (last unused, t) \<and> bdll (bufs t) xs)"
  proof (cases "unused = []")
    case True
    then show ?thesis using bget_eq [OF assms(1-3), of n] none lru by simp
  next
    case False
    then have "last unused \<in> set unused" by (rule last_in_set)
    then have l: "b_refcnt (bufs s ! last unused) = 0" "last unused < NBUF" using assms(3) by (auto simp: bdll_def unused_def)
    then have "buf_ok (disk s) (bufs s ! last unused)" "length (bufs s) = Suc NBUF" using assms(2) by (auto simp: binv_def)
    then show ?thesis
      using bget_eq [OF assms(1-3), of n] none False lru l assms(1,3)
      by (simp add: bget_lock_eq upd_buf_def buf_ok_def same_links_def)
  qed
next
  fix b m assume h: "has_buf b m s \<and> brefs s m = 1 \<and> blk s m = disk s m"
  then have "unat (b_refcnt (bufs s ! b)) = 1" using has_buf_inv(10) [OF assms(2)] by auto
  then have "b_refcnt (bufs s ! b) = 1" by (simp add: word_unat_eq_iff)
  then show "\<exists>t. brelse b s = Ok t \<and> bdll (bufs t) (b # remove1 b xs)"
    using brelse_eq [OF assms(1,2), of b m] released_move [OF assms(1,2) _ _ assms(3), of b m] h by auto
qed

theorem bcache_is_lru_witness:
  "\<exists>s t. binit (boot_kbio (\<lambda>_. replicate BSIZE 0)) = Ok s \<and> bget ROOTDEV 5 s = Ok (0, t)"
proof -
  obtain s where s: "binit (boot_kbio (\<lambda>_. replicate BSIZE 0)) = Ok s" "kio s" "binv s" "bdll (bufs s) (rev [0..<NBUF])"
    "busy s = {}" "\<forall>n. bix (bufs s) n = None"
    using booted_cache [of "\<lambda>_. replicate BSIZE 0"] by auto
  have "b_refcnt (bufs s ! i) = 0" if "i < NBUF" for i using busy_eq [OF s(3)] s(5) that by auto
  then have "filter (\<lambda>i. b_refcnt (bufs s ! i) = 0) (rev [0..<NBUF]) = rev [0..<NBUF]"
    by (intro filter_True) (auto simp del: upt_rec_numeral)
  moreover have "last (rev [0..<NBUF]) = 0" "rev [0..<NBUF] \<noteq> []" by (simp_all add: last_rev hd_upt)
  ultimately show ?thesis using bcache_is_lru [OF s(2-4), of 5] s(1,6) by auto
qed

end
