(* ===== verification/Blocks.thy ===== *)
theory Blocks
  imports Bio
begin

section \<open>The buffer cache as seen by its users\<close>

text \<open>
  The contract between \<^verbatim>\<open>kernel/bio.c\<close> and the log and the file system, as a locale, with the
  sequences of calls its users make, and its interpretation on the buffer cache.
\<close>

text \<open>
  Over any implementation: \<open>view\<close> is the contents of every block, \<open>refs\<close> and \<open>own\<close> count
  its users and name the process that has it locked, \<open>dk\<close> is the disk and \<open>ws\<close> the writes
  it has seen, and \<open>eff n d r w s t\<close> says that a step from \<open>s\<close> to \<open>t\<close> changes contents,
  count and owner for block \<open>n\<close> only.
\<close>

locale block_store =
  fixes rd :: "uint32 \<Rightarrow> 's \<Rightarrow> (nat \<times> 's) res" and wr rel pin unpin :: "nat \<Rightarrow> 's \<Rightarrow> 's res"
    and put :: "nat \<Rightarrow> block \<Rightarrow> 's \<Rightarrow> 's" and data :: "nat \<Rightarrow> 's \<Rightarrow> block"
    and has :: "nat \<Rightarrow> uint32 \<Rightarrow> 's \<Rightarrow> bool" and ready :: "'s \<Rightarrow> bool" and frame :: "'s \<Rightarrow> 's \<Rightarrow> bool"
    and view dk :: "'s \<Rightarrow> uint32 \<Rightarrow> block" and refs :: "'s \<Rightarrow> uint32 \<Rightarrow> nat"
    and own :: "'s \<Rightarrow> uint32 \<Rightarrow> int option" and me :: "'s \<Rightarrow> int" and ws :: "'s \<Rightarrow> (uint32 \<times> block) list"
    and eff :: "uint32 \<Rightarrow> block \<Rightarrow> nat \<Rightarrow> int option \<Rightarrow> 's \<Rightarrow> 's \<Rightarrow> bool"
  assumes eff: "eff n d r w s t \<Longrightarrow> ready s \<Longrightarrow> ready t \<and> frame s t \<and> me t = me s \<and>
      view t = (view s)(n := d) \<and> refs t = (refs s)(n := r) \<and> own t = (own s)(n := w)"
    and eff_has: "eff n d r w s t \<Longrightarrow> m \<noteq> n \<Longrightarrow> has c m s \<Longrightarrow> has c m t"
    and frame_trans: "frame s t \<Longrightarrow> frame t u \<Longrightarrow> frame s u"
    and data: "has b n s \<Longrightarrow> data b s = view s n"
    and rd: "ready s \<Longrightarrow> own s n = None \<Longrightarrow> refs s n < 2 ^ 32 - 1 \<Longrightarrow>
      refs s n \<noteq> 0 \<or> card {m. refs s m \<noteq> 0} < NBUF \<Longrightarrow>
      \<exists>b t. rd n s = Ok (b, t) \<and> eff n (view s n) (Suc (refs s n)) (Some (me s)) s t \<and> has b n t \<and> dk t = dk s \<and> ws t = ws s"
    and put: "ready s \<Longrightarrow> has b n s \<Longrightarrow> length d = BSIZE \<Longrightarrow>
      eff n d (refs s n) (Some (me s)) s (put b d s) \<and> has b n (put b d s) \<and> dk (put b d s) = dk s \<and> ws (put b d s) = ws s"
    and wr: "ready s \<Longrightarrow> has b n s \<Longrightarrow> \<exists>t. wr b s = Ok t \<and> eff n (view s n) (refs s n) (Some (me s)) s t \<and> has b n t \<and>
      dk t = (dk s)(n := view s n) \<and> ws t = ws s @ [(n, view s n)]"
    and rel: "ready s \<Longrightarrow> has b n s \<Longrightarrow> 1 < refs s n \<or> view s n = dk s n \<Longrightarrow>
      \<exists>t. rel b s = Ok t \<and> eff n (view s n) (refs s n - 1) None s t \<and> dk t = dk s \<and> ws t = ws s"
    and pin: "ready s \<Longrightarrow> has b n s \<Longrightarrow> refs s n < 2 ^ 32 - 1 \<Longrightarrow>
      \<exists>t. pin b s = Ok t \<and> eff n (view s n) (Suc (refs s n)) (Some (me s)) s t \<and> has b n t \<and> dk t = dk s \<and> ws t = ws s"
    and unpin: "ready s \<Longrightarrow> has b n s \<Longrightarrow> 1 < refs s n \<Longrightarrow>
      \<exists>t. unpin b s = Ok t \<and> eff n (view s n) (refs s n - 1) (Some (me s)) s t \<and> has b n t \<and> dk t = dk s \<and> ws t = ws s"
    and unused: "ready s \<Longrightarrow> refs s n = 0 \<Longrightarrow> view s n = dk s n"
    and view_length: "ready s \<Longrightarrow> length (view s n) = BSIZE"
begin

text \<open>Each call with its effect written out, for use in sequences of calls.\<close>

lemma rd_ok:
  assumes "ready s" "own s n = None" "refs s n < 2 ^ 32 - 1" "refs s n \<noteq> 0 \<or> card {m. refs s m \<noteq> 0} < NBUF"
  shows "\<exists>b t. rd n s = Ok (b, t) \<and> has b n t \<and> ready t \<and> frame s t \<and> me t = me s \<and> view t = view s \<and>
    refs t = (refs s)(n := Suc (refs s n)) \<and> own t = (own s)(n := Some (me s)) \<and> dk t = dk s \<and> ws t = ws s \<and>
    (\<forall>c m. m \<noteq> n \<longrightarrow> has c m s \<longrightarrow> has c m t)"
proof -
  obtain b t where t: "rd n s = Ok (b, t)" "eff n (view s n) (Suc (refs s n)) (Some (me s)) s t" "has b n t" "dk t = dk s" "ws t = ws s"
    using rd [OF assms] by blast
  show ?thesis
    by (rule exI [of _ b], rule exI [of _ t]) (use t eff [OF t(2) assms(1)] eff_has [OF t(2)] in auto)
qed

lemma put_ok:
  assumes "ready s" "has b n s" "length d = BSIZE" "t = put b d s"
  shows "has b n t \<and> ready t \<and> frame s t \<and> me t = me s \<and> view t = (view s)(n := d) \<and> refs t = refs s \<and>
    own t = (own s)(n := Some (me s)) \<and> dk t = dk s \<and> ws t = ws s \<and> (\<forall>c m. m \<noteq> n \<longrightarrow> has c m s \<longrightarrow> has c m t)"
proof -
  have t: "eff n d (refs s n) (Some (me s)) s t" "has b n t" "dk t = dk s" "ws t = ws s"
    using put [OF assms(1-3)] assms(4) by simp_all
  show ?thesis using t eff [OF t(1) assms(1)] eff_has [OF t(1)] by simp
qed

lemma wr_ok:
  assumes "ready s" "has b n s"
  shows "\<exists>t. wr b s = Ok t \<and> has b n t \<and> ready t \<and> frame s t \<and> me t = me s \<and> view t = view s \<and> refs t = refs s \<and>
    own t = (own s)(n := Some (me s)) \<and> dk t = (dk s)(n := view s n) \<and> ws t = ws s @ [(n, view s n)] \<and>
    (\<forall>c m. m \<noteq> n \<longrightarrow> has c m s \<longrightarrow> has c m t)"
proof -
  obtain t where t: "wr b s = Ok t" "eff n (view s n) (refs s n) (Some (me s)) s t" "has b n t"
    "dk t = (dk s)(n := view s n)" "ws t = ws s @ [(n, view s n)]" using wr [OF assms] by blast
  show ?thesis by (rule exI [of _ t]) (use t eff [OF t(2) assms(1)] eff_has [OF t(2)] in auto)
qed

lemma rel_ok:
  assumes "ready s" "has b n s" "1 < refs s n \<or> view s n = dk s n"
  shows "\<exists>t. rel b s = Ok t \<and> ready t \<and> frame s t \<and> me t = me s \<and> view t = view s \<and> refs t = (refs s)(n := refs s n - 1) \<and>
    own t = (own s)(n := None) \<and> dk t = dk s \<and> ws t = ws s \<and> (\<forall>c m. m \<noteq> n \<longrightarrow> has c m s \<longrightarrow> has c m t)"
proof -
  obtain t where t: "rel b s = Ok t" "eff n (view s n) (refs s n - 1) None s t" "dk t = dk s" "ws t = ws s"
    using rel [OF assms] by blast
  show ?thesis by (rule exI [of _ t]) (use t eff [OF t(2) assms(1)] eff_has [OF t(2)] in auto)
qed

lemma pin_ok:
  assumes "ready s" "has b n s" "refs s n < 2 ^ 32 - 1"
  shows "\<exists>t. pin b s = Ok t \<and> has b n t \<and> ready t \<and> frame s t \<and> me t = me s \<and> view t = view s \<and>
    refs t = (refs s)(n := Suc (refs s n)) \<and> own t = (own s)(n := Some (me s)) \<and> dk t = dk s \<and> ws t = ws s \<and>
    (\<forall>c m. m \<noteq> n \<longrightarrow> has c m s \<longrightarrow> has c m t)"
proof -
  obtain t where t: "pin b s = Ok t" "eff n (view s n) (Suc (refs s n)) (Some (me s)) s t" "has b n t" "dk t = dk s" "ws t = ws s"
    using pin [OF assms] by blast
  show ?thesis by (rule exI [of _ t]) (use t eff [OF t(2) assms(1)] eff_has [OF t(2)] in auto)
qed

lemma unpin_ok:
  assumes "ready s" "has b n s" "1 < refs s n"
  shows "\<exists>t. unpin b s = Ok t \<and> has b n t \<and> ready t \<and> frame s t \<and> me t = me s \<and> view t = view s \<and>
    refs t = (refs s)(n := refs s n - 1) \<and> own t = (own s)(n := Some (me s)) \<and> dk t = dk s \<and> ws t = ws s \<and>
    (\<forall>c m. m \<noteq> n \<longrightarrow> has c m s \<longrightarrow> has c m t)"
proof -
  obtain t where t: "unpin b s = Ok t" "eff n (view s n) (refs s n - 1) (Some (me s)) s t" "has b n t" "dk t = dk s" "ws t = ws s"
    using unpin [OF assms] by blast
  show ?thesis by (rule exI [of _ t]) (use t eff [OF t(2) assms(1)] eff_has [OF t(2)] in auto)
qed

text \<open>Reading one block: the state returned differs at most in which blocks are cached.\<close>

lemma look_ok:
  assumes "ready s" "own s n = None" "refs s n < 2 ^ 32 - 1" "refs s n \<noteq> 0 \<or> card {m. refs s m \<noteq> 0} < NBUF"
  shows "okR (bindR (rd n s) (\<lambda>(b, t). rel b t)) (\<lambda>u. ready u \<and> frame s u \<and> me u = me s \<and> view u = view s \<and>
    refs u = refs s \<and> own u = own s \<and> dk u = dk s \<and> ws u = ws s)"
proof -
  obtain b t where t: "rd n s = Ok (b, t)" "has b n t" "ready t" "frame s t" "me t = me s" "view t = view s"
    "refs t = (refs s)(n := Suc (refs s n))" "own t = (own s)(n := Some (me s))" "dk t = dk s" "ws t = ws s"
    using rd_ok [OF assms] by blast
  have "1 < refs t n \<or> view t n = dk t n" using unused [OF assms(1), of n] t(6,7,9) by (cases "refs s n = 0") auto
  then obtain u where "rel b t = Ok u" "ready u" "frame t u" "me u = me t" "view u = view t" "refs u = (refs t)(n := refs t n - 1)"
    "own u = (own t)(n := None)" "dk u = dk t" "ws u = ws t"
    using rel_ok [OF t(3,2)] by blast
  then show ?thesis using t assms(2) frame_trans [of s t u] by (auto simp: okR_def fun_upd_idem)
qed

text \<open>Replacing the contents of one block on disk.\<close>

lemma change_ok:
  assumes "ready s" "own s n = None" "refs s n < 2 ^ 32 - 1" "refs s n \<noteq> 0 \<or> card {m. refs s m \<noteq> 0} < NBUF"
    "length (f (view s n)) = BSIZE"
  shows "okR (bindR (rd n s) (\<lambda>(b, t). bindR (wr b (put b (f (data b t)) t)) (rel b))) (\<lambda>u. ready u \<and> frame s u \<and> me u = me s \<and>
    view u = (view s)(n := f (view s n)) \<and> refs u = refs s \<and> own u = own s \<and> dk u = (dk s)(n := f (view s n)) \<and>
    ws u = ws s @ [(n, f (view s n))])"
proof -
  obtain b t where t: "rd n s = Ok (b, t)" "has b n t" "ready t" "frame s t" "me t = me s" "view t = view s"
    "refs t = (refs s)(n := Suc (refs s n))" "own t = (own s)(n := Some (me s))" "dk t = dk s" "ws t = ws s"
    using rd_ok [OF assms(1-4)] by blast
  define p where "p = put b (f (data b t)) t"
  have d: "data b t = view s n" using data [OF t(2)] t(6) by simp
  have p: "has b n p" "ready p" "frame t p" "me p = me t" "view p = (view s)(n := f (view s n))" "refs p = refs t"
    "own p = (own t)(n := Some (me t))" "dk p = dk s" "ws p = ws s"
    using put_ok [OF t(3,2) _ p_def] assms(5) d t(6,9,10) by auto
  obtain q where q: "wr b p = Ok q" "has b n q" "ready q" "frame p q" "me q = me p" "view q = view p" "refs q = refs p"
    "own q = (own p)(n := Some (me p))" "dk q = (dk p)(n := view p n)" "ws q = ws p @ [(n, view p n)]"
    using wr_ok [OF p(2,1)] by blast
  obtain u where u: "rel b q = Ok u" "ready u" "frame q u" "me u = me q" "view u = view q" "refs u = (refs q)(n := refs q n - 1)"
    "own u = (own q)(n := None)" "dk u = dk q" "ws u = ws q"
    using rel_ok [OF q(3,2)] q(6,9) p(5) by auto
  have "frame s u" using frame_trans t(4) p(3) q(4) u(3) by blast
  then show ?thesis using t p(4-9) q u assms(2) by (auto simp: okR_def p_def [symmetric] fun_upd_idem)
qed

text \<open>Copying block \<open>m\<close> over block \<open>n\<close>, in the two orders the log uses.\<close>

lemma copy_out_ok:
  assumes "ready s" "m \<noteq> n" "own s n = None" "own s m = None" "refs s n < 2 ^ 32 - 1" "refs s m < 2 ^ 32 - 1" "refs s m \<noteq> 0"
    "refs s n \<noteq> 0 \<or> card {m. refs s m \<noteq> 0} < NBUF"
  shows "okR (bindR (rd n s) (\<lambda>(t, s1). bindR (rd m s1) (\<lambda>(f, s2). bindR (wr t (put t (data f s2) s2)) (\<lambda>s3.
    bindR (rel f s3) (rel t))))) (\<lambda>u. ready u \<and> frame s u \<and> me u = me s \<and>
    view u = (view s)(n := view s m) \<and> refs u = refs s \<and> own u = own s \<and> dk u = (dk s)(n := view s m) \<and>
    ws u = ws s @ [(n, view s m)])"
proof -
  obtain b t where t: "rd n s = Ok (b, t)" "has b n t" "ready t" "frame s t" "me t = me s" "view t = view s"
    "refs t = (refs s)(n := Suc (refs s n))" "own t = (own s)(n := Some (me s))" "dk t = dk s" "ws t = ws s"
    using rd_ok [OF assms(1,3,5,8)] by blast
  have "own t m = None" "refs t m < 2 ^ 32 - 1" "refs t m \<noteq> 0" using t(7,8) assms(2,4,6,7) by auto
  then obtain c v where v: "rd m t = Ok (c, v)" "has c m v" "ready v" "frame t v" "me v = me t" "view v = view t"
    "refs v = (refs t)(m := Suc (refs t m))" "own v = (own t)(m := Some (me t))" "dk v = dk t" "ws v = ws t"
    "\<forall>c k. k \<noteq> m \<longrightarrow> has c k t \<longrightarrow> has c k v"
    using rd_ok [OF t(3), of m] by blast
  define p where "p = put b (data c v) v"
  have d: "data c v = view s m" using data [OF v(2)] t(6) v(6) by simp
  have hb: "has b n v" using v(11) t(2) assms(2) by auto
  have p: "has b n p" "ready p" "frame v p" "me p = me v" "view p = (view s)(n := view s m)" "refs p = refs v"
    "own p = (own v)(n := Some (me v))" "dk p = dk s" "ws p = ws s" "has c m p"
    using put_ok [OF v(3) hb _ p_def] view_length [OF assms(1)] d t(6,9,10) v(2,6,9,10) assms(2) by auto
  obtain q where q: "wr b p = Ok q" "has b n q" "ready q" "frame p q" "me q = me p" "view q = view p" "refs q = refs p"
    "own q = (own p)(n := Some (me p))" "dk q = (dk p)(n := view p n)" "ws q = ws p @ [(n, view p n)]" "has c m q"
    using wr_ok [OF p(2,1)] p(10) assms(2) by blast
  have "1 < refs q m" using q(7) p(6) v(7) t(7) assms(2,7) by simp
  then obtain w where w: "rel c q = Ok w" "ready w" "frame q w" "me w = me q" "view w = view q" "refs w = (refs q)(m := refs q m - 1)"
    "own w = (own q)(m := None)" "dk w = dk q" "ws w = ws q" "has b n w"
    using rel_ok [OF q(3,11) disjI1] q(2) assms(2) by metis
  obtain u where u: "rel b w = Ok u" "ready u" "frame w u" "me u = me w" "view u = view w" "refs u = (refs w)(n := refs w n - 1)"
    "own u = (own w)(n := None)" "dk u = dk w" "ws u = ws w"
    using rel_ok [OF w(2,10)] w(5,8) q(6,9) p(5) by auto
  have "frame s u" using frame_trans t(4) v(4) p(3) q(4) w(3) u(3) by blast
  then show ?thesis using t v p(4-9) q w u assms(2,3,4) by (auto simp: okR_def p_def [symmetric] fun_upd_idem fun_upd_twist)
qed

lemma copy_in_ok:
  assumes "ready s" "m \<noteq> n" "own s n = None" "own s m = None" "refs s n < 2 ^ 32 - 1" "refs s m < 2 ^ 32 - 1"
    "if unp then refs s n \<noteq> 0 else card {m. refs s m \<noteq> 0} + 1 < NBUF"
    "refs s m \<noteq> 0 \<or> card {m. refs s m \<noteq> 0} < NBUF" "finite {m. refs s m \<noteq> 0}"
  shows "okR (bindR (rd m s) (\<lambda>(f, s1). bindR (rd n s1) (\<lambda>(t, s2). bindR (wr t (put t (data f s2) s2)) (\<lambda>s3.
    bindR (if unp then unpin t s3 else Ok s3) (\<lambda>s4. bindR (rel f s4) (rel t)))))) (\<lambda>u. ready u \<and> frame s u \<and> me u = me s \<and>
    view u = (view s)(n := view s m) \<and> refs u = (if unp then (refs s)(n := refs s n - 1) else refs s) \<and> own u = own s \<and>
    dk u = (dk s)(n := view s m) \<and> ws u = ws s @ [(n, view s m)])"
proof -
  obtain b t where t: "rd m s = Ok (b, t)" "has b m t" "ready t" "frame s t" "me t = me s" "view t = view s"
    "refs t = (refs s)(m := Suc (refs s m))" "own t = (own s)(m := Some (me s))" "dk t = dk s" "ws t = ws s"
    using rd_ok [OF assms(1,4,6,8)] by blast
  have "{k. refs t k \<noteq> 0} = insert m {m. refs s m \<noteq> 0}" using t(7) by auto
  then have "card {k. refs t k \<noteq> 0} \<le> card {m. refs s m \<noteq> 0} + 1"
    using card_insert_le_m1 [of "Suc (card {m. refs s m \<noteq> 0})" "{m. refs s m \<noteq> 0}" m] by simp
  then have "refs t n \<noteq> 0 \<or> card {m. refs t m \<noteq> 0} < NBUF"
    using t(7) assms(2,7) by (cases unp) simp_all
  moreover have "own t n = None" "refs t n < 2 ^ 32 - 1" using t(7,8) assms(2,3,5) by auto
  ultimately obtain c v where v: "rd n t = Ok (c, v)" "has c n v" "ready v" "frame t v" "me v = me t" "view v = view t"
    "refs v = (refs t)(n := Suc (refs t n))" "own v = (own t)(n := Some (me t))" "dk v = dk t" "ws v = ws t"
    "has b m v"
    using rd_ok [OF t(3), of n] t(2) assms(2) by blast
  define p where "p = put c (data b v) v"
  have d: "data b v = view s m" using data [OF v(11)] t(6) v(6) by simp
  have p: "has c n p" "ready p" "frame v p" "me p = me v" "view p = (view s)(n := view s m)" "refs p = refs v"
    "own p = (own v)(n := Some (me v))" "dk p = dk s" "ws p = ws s" "has b m p"
    using put_ok [OF v(3,2) _ p_def] view_length [OF assms(1)] d t(6,9,10) v(6,9,10,11) assms(2) by auto
  obtain q where q: "wr c p = Ok q" "has c n q" "ready q" "frame p q" "me q = me p" "view q = view p" "refs q = refs p"
    "own q = (own p)(n := Some (me p))" "dk q = (dk p)(n := view p n)" "ws q = ws p @ [(n, view p n)]" "has b m q"
    using wr_ok [OF p(2,1)] p(10) assms(2) by blast
  have "\<exists>x. (if unp then unpin c q else Ok q) = Ok x \<and> has c n x \<and> ready x \<and> frame s x \<and> me x = me q \<and> view x = view q \<and>
    refs x = (if unp then (refs q)(n := refs q n - 1) else refs q) \<and> own x = (own q)(n := Some (me q)) \<and> dk x = dk q \<and> ws x = ws q \<and> has b m x"
  proof (cases unp)
    case True
    then have "1 < refs q n" using assms(2,7) t(7) v(7) p(6) q(7) by simp
    then show ?thesis
      using unpin_ok [OF q(3,2)] True q(11) assms(2) frame_trans [of s] t(4) v(4) p(3) q(4) by simp (metis frame_trans)
  next
    case False
    have "frame s q" using frame_trans t(4) v(4) p(3) q(4) by blast
    then show ?thesis using False q by auto
  qed
  then obtain x where x: "(if unp then unpin c q else Ok q) = Ok x" "has c n x" "ready x" "frame s x" "me x = me q" "view x = view q"
    "refs x = (if unp then (refs q)(n := refs q n - 1) else refs q)" "own x = (own q)(n := Some (me q))" "dk x = dk q" "ws x = ws q" "has b m x"
    by blast
  have "1 < refs x m \<or> view x m = dk x m"
    using unused [OF assms(1), of m] assms(2) x(6,7,9) q(6,7,9) p(5,6,8) v(7) t(7) by (cases "refs s m = 0") auto
  then obtain w where w: "rel b x = Ok w" "ready w" "frame x w" "me w = me x" "view w = view x" "refs w = (refs x)(m := refs x m - 1)"
    "own w = (own x)(m := None)" "dk w = dk x" "ws w = ws x" "has c n w"
    using rel_ok [OF x(3,11)] x(2) assms(2) by metis
  obtain u where u: "rel c w = Ok u" "ready u" "frame w u" "me u = me w" "view u = view w" "refs u = (refs w)(n := refs w n - 1)"
    "own u = (own w)(n := None)" "dk u = dk w" "ws u = ws w"
    using rel_ok [OF w(2,10)] w(5,8) x(6,9) q(6,9) p(5) by auto
  have fr: "frame s u" using frame_trans x(4) w(3) u(3) by blast
  have o: "own u = own s" using u(7) w(7) x(8) q(8) p(7) v(8) t(8) assms(2,3,4) by (auto simp: fun_eq_iff)
  have r: "refs u = (if unp then (refs s)(n := refs s n - 1) else refs s)"
    using u(6) w(6) x(7) q(7) p(6) v(7) t(7) assms(2) by (cases unp) (auto simp: fun_eq_iff)
  show ?thesis using t(1) v(1) q(1) x(1) w(1) u fr o r
    by (simp add: p_def [symmetric] t(5) v(5) p(4,5,8,9) q(5,6,9,10) x(5,6,9,10) w(4,5,8,9))
qed

end

text \<open>The buffer cache keeps this contract.\<close>

lemma blk_length: "binv s \<Longrightarrow> length (blk s n) = BSIZE"
  by (auto simp: blk_def binv_def buf_ok_def bix_Some split: option.split)

lemma unused_blk:
  assumes "binv s" "brefs s n = 0"
  shows "blk s n = disk s n"
proof (cases "bix (bufs s) n")
  case None
  then show ?thesis by (simp add: blk_def)
next
  case (Some i)
  moreover have "b_refcnt (bufs s ! i) = 0" using assms(2) Some by (simp add: brefs_def unat_eq_zero)
  moreover have "i < NBUF" "b_blockno (bufs s ! i) = n" "buf_ok (disk s) (bufs s ! i)"
    using Some assms(1) by (auto simp: bix_Some binv_def)
  ultimately show ?thesis by (simp add: blk_def buf_ok_def)
qed

lemma set_data_disk [simp]: "disk (set_data b d s) = disk s" "dwrites (set_data b d s) = dwrites s"
  by (simp_all add: set_data_def upd_buf_def)

interpretation bc: block_store "bread ROOTDEV" bwrite brelse bpin bunpin set_data "\<lambda>b s. bdata b s" has_buf
  "\<lambda>s. kio s \<and> binv s" bstep blk disk brefs bowner my_pid dwrites beff
proof (unfold_locales, goal_cases)
  case (1 n d r w s t)
  then show ?case using bstep_kio [of s t] by (simp add: beff_def)
next
  case (2 n d r w s t m c)
  then show ?case by (simp add: beff_def)
next
  case (3 s t u)
  then show ?case by (rule bstep_trans)
next
  case (4 b n s)
  then show ?case by (rule has_buf_data)
next
  case (5 s n)
  then show ?case using bread_spec [of s n] by (simp add: busy_def)
next
  case (6 s b n d)
  then show ?case using set_data_spec [of s b n d] by simp
next
  case (7 s b n)
  then show ?case using bwrite_spec by blast
next
  case (8 s b n)
  then show ?case using brelse_spec by blast
next
  case (9 s b n)
  then show ?case using bpin_spec by blast
next
  case (10 s b n)
  then show ?case using bunpin_spec by blast
next
  case (11 s n)
  then show ?case by (simp add: unused_blk)
next
  case (12 s n)
  then show ?case by (simp add: blk_length)
qed

end
