(* ===== verification/Log.thy ===== *)
theory Log
  imports Blocks
begin

section \<open>The log: \<^verbatim>\<open>kernel/log.c\<close>\<close>

text \<open>
  The redo log that makes file-system calls atomic with respect to crashes.  The in-memory
  header is part of the state; the header on disk is the first block of the log: the number
  of logged blocks in bytes 0 to 3, then their block numbers, four bytes each.
\<close>

abbreviation (input) MAXOPBLOCKS :: int where "MAXOPBLOCKS \<equiv> 10"
abbreviation (input) LOGSIZE :: nat where "LOGSIZE \<equiv> 30"

subsection \<open>State\<close>

record logheader =
  lh_n :: int
  lh_block :: "uint32 list"

record klog = kbio +
  log_start :: uint32
  log_size :: int
  outstanding :: int
  committing :: bool
  log_dev :: uint32
  lh :: logheader

abbreviation (input) log_lock :: lockid where "log_lock \<equiv> Lock ''log'' 0"
abbreviation (input) log_chan :: chan where "log_chan \<equiv> Chan ''log'' 0"

record superblock =
  sb_magic :: uint32
  sb_size :: uint32
  sb_nblocks :: uint32
  sb_ninodes :: uint32
  sb_nlog :: uint32
  sb_logstart :: uint32
  sb_inodestart :: uint32
  sb_bmapstart :: uint32

subsection \<open>Operations\<close>

text \<open>An access \<^verbatim>\<open>log.lh.block[i]\<close> is in bounds for \<open>i < LOGSIZE\<close>.\<close>

definition lh_at :: "nat \<Rightarrow> 'a klog_scheme \<Rightarrow> uint32 res" where
  "lh_at i s = (if i < LOGSIZE then Ok (lh_block (lh s) ! i) else Undef)"

definition install_one :: "bool \<Rightarrow> nat \<Rightarrow> 'a klog_scheme \<Rightarrow> 'a klog_scheme res" where
  "install_one recovering tail s =
     bindR (bread (log_dev s) (log_start s + of_nat tail + 1) s) (\<lambda>(lbuf, s).
     bindR (lh_at tail s) (\<lambda>n.
     bindR (bread (log_dev s) n s) (\<lambda>(dbuf, s).
     let s = set_data dbuf (bdata lbuf s) s in
     bindR (bwrite dbuf s) (\<lambda>s.
     bindR (if recovering then Ok s else bunpin dbuf s) (\<lambda>s.
     bindR (brelse lbuf s) (\<lambda>s.
     brelse dbuf s))))))"

definition install_trans :: "bool \<Rightarrow> 'a klog_scheme \<Rightarrow> 'a klog_scheme res" where
  "install_trans recovering s = foreach (install_one recovering) 0 (nat (lh_n (lh s))) s"

definition read_head :: "'a klog_scheme \<Rightarrow> 'a klog_scheme res" where
  "read_head s =
     bindR (bread (log_dev s) (log_start s) s) (\<lambda>(b, s).
     let d = bdata b s; n = sint (get32 0 d) in
     if int LOGSIZE < n then Undef
     else let s = s\<lparr>lh := \<lparr>lh_n = n,
              lh_block = map (\<lambda>i. get32 (4 + 4 * i) d) [0..<nat n] @ drop (nat n) (lh_block (lh s))\<rparr>\<rparr>
          in brelse b s)"

definition put_head :: "logheader \<Rightarrow> block \<Rightarrow> block" where
  "put_head h d = foldl (\<lambda>d i. put32 (4 + 4 * i) (lh_block h ! i) d)
     (put32 0 (word_of_int (lh_n h)) d) [0..<nat (lh_n h)]"

definition write_head :: "'a klog_scheme \<Rightarrow> 'a klog_scheme res" where
  "write_head s =
     bindR (bread (log_dev s) (log_start s) s) (\<lambda>(b, s).
     if int LOGSIZE < lh_n (lh s) then Undef
     else let s = set_data b (put_head (lh s) (bdata b s)) s in
          bindR (bwrite b s) (brelse b))"

definition clear_lh :: "'a klog_scheme \<Rightarrow> 'a klog_scheme" where
  "clear_lh s = s\<lparr>lh := (lh s)\<lparr>lh_n := 0\<rparr>\<rparr>"

definition recover_from_log :: "'a klog_scheme \<Rightarrow> 'a klog_scheme res" where
  "recover_from_log s =
     bindR (read_head s) (\<lambda>s.
     bindR (install_trans True s) (\<lambda>s.
     write_head (clear_lh s)))"

text \<open>\<^verbatim>\<open>sizeof(struct logheader)\<close> is four bytes for the count and four per block number.\<close>

definition initlog :: "uint32 \<Rightarrow> superblock \<Rightarrow> 'a klog_scheme \<Rightarrow> 'a klog_scheme res" where
  "initlog dev sb s =
     (if BSIZE \<le> 4 + 4 * LOGSIZE then Panic ''initlog: too big logheader''
      else recover_from_log (s\<lparr>log_start := sb_logstart sb, log_size := sint (sb_nlog sb), log_dev := dev\<rparr>))"

definition begin_op :: "'a klog_scheme \<Rightarrow> 'a klog_scheme res" where
  "begin_op s =
     bindR (acquire log_lock s) (\<lambda>s.
     if committing s then Block log_chan
     else if lh_n (lh s) + (outstanding s + 1) * MAXOPBLOCKS > int LOGSIZE then Block log_chan
     else release log_lock (s\<lparr>outstanding := outstanding s + 1\<rparr>))"

definition write_log_one :: "nat \<Rightarrow> 'a klog_scheme \<Rightarrow> 'a klog_scheme res" where
  "write_log_one tail s =
     bindR (bread (log_dev s) (log_start s + of_nat tail + 1) s) (\<lambda>(t, s).
     bindR (lh_at tail s) (\<lambda>n.
     bindR (bread (log_dev s) n s) (\<lambda>(f, s).
     let s = set_data t (bdata f s) s in
     bindR (bwrite t s) (\<lambda>s.
     bindR (brelse f s) (\<lambda>s.
     brelse t s)))))"

definition write_log :: "'a klog_scheme \<Rightarrow> 'a klog_scheme res" where
  "write_log s = foreach write_log_one 0 (nat (lh_n (lh s))) s"

definition commit :: "'a klog_scheme \<Rightarrow> 'a klog_scheme res" where
  "commit s =
     (if lh_n (lh s) > 0
      then bindR (write_log s) (\<lambda>s.
           bindR (write_head s) (\<lambda>s.
           bindR (install_trans False s) (\<lambda>s.
           write_head (clear_lh s))))
      else Ok s)"

definition end_op :: "'a klog_scheme \<Rightarrow> 'a klog_scheme res" where
  "end_op s =
     bindR (acquire log_lock s) (\<lambda>s.
     let s = s\<lparr>outstanding := outstanding s - 1\<rparr> in
     if committing s then Panic ''log.committing''
     else if outstanding s = 0
     then bindR (release log_lock (s\<lparr>committing := True\<rparr>)) (\<lambda>s.
          bindR (commit s) (\<lambda>s.
          bindR (acquire log_lock s) (\<lambda>s.
          bindR (wakeup (Some log_chan) (s\<lparr>committing := False\<rparr>)) (release log_lock))))
     else bindR (wakeup (Some log_chan) s) (release log_lock))"

text \<open>The first slot of the header that holds block \<open>n\<close>, or the first free one.\<close>

definition log_slot :: "uint32 \<Rightarrow> logheader \<Rightarrow> nat" where
  "log_slot n h = (case find_from (\<lambda>m. m = n) (lh_block h) 0 (nat (lh_n h)) of Some i \<Rightarrow> i | None \<Rightarrow> nat (lh_n h))"

definition log_write :: "nat \<Rightarrow> 'a klog_scheme \<Rightarrow> 'a klog_scheme res" where
  "log_write b s =
     bindR (acquire log_lock s) (\<lambda>s.
     if lh_n (lh s) \<ge> int LOGSIZE \<or> lh_n (lh s) \<ge> log_size s - 1 then Panic ''too big a transaction''
     else if outstanding s < 1 then Panic ''log_write outside of trans''
     else let n = b_blockno (bufs s ! b); i = log_slot n (lh s);
              s' = s\<lparr>lh := (lh s)\<lparr>lh_block := (lh_block (lh s))[i := n]\<rparr>\<rparr> in
          if int i = lh_n (lh s)
          then bindR (bpin b s') (\<lambda>s.
               release log_lock (s\<lparr>lh := (lh s)\<lparr>lh_n := lh_n (lh s) + 1\<rparr>\<rparr>))
          else release log_lock s')"

end
