(* ===== verification/Journal.thy ===== *)
theory Journal
  imports Log
begin

section \<open>Crash safety of the log\<close>

text \<open>
  The invariant of the log, the sequence of disk writes that \<^verbatim>\<open>commit\<close> makes, what recovery
  does with any disk, and from both that a transaction is atomic: whatever prefix of the
  writes a crash lets through, recovery leaves all blocks of the transaction old or all new.
\<close>

subsection \<open>Sequences of disk writes\<close>

definition apply_writes :: "(uint32 \<Rightarrow> block) \<Rightarrow> (uint32 \<times> block) list \<Rightarrow> uint32 \<Rightarrow> block" where
  "apply_writes d ws = foldl (\<lambda>d (n, b). d(n := b)) d ws"

lemma apply_writes_simps [simp]:
  "apply_writes d [] = d" "apply_writes d (ws @ vs) = apply_writes (apply_writes d ws) vs"
  "apply_writes d ((n, b) # ws) = apply_writes (d(n := b)) ws"
  by (simp_all add: apply_writes_def)

lemma apply_writes_other: "m \<notin> fst ` set ws \<Longrightarrow> apply_writes d ws m = d m"
  by (induction ws arbitrary: d) auto

lemma apply_writes_cong: "m \<in> fst ` set ws \<or> d m = e m \<Longrightarrow> apply_writes d ws m = apply_writes e ws m"
proof (induction ws arbitrary: d e)
  case (Cons w ws)
  obtain a b where w: "w = (a, b)" by (cases w)
  have "m \<in> fst ` set ws \<or> (d(a := b)) m = (e(a := b)) m" using Cons.prems w by auto
  then show ?case unfolding w apply_writes_simps by (rule Cons.IH)
qed simp

text \<open>The writes of \<open>f i\<close> to block \<open>g i\<close> for \<open>i < n\<close>.\<close>

definition writes :: "(nat \<Rightarrow> uint32) \<Rightarrow> (nat \<Rightarrow> block) \<Rightarrow> nat \<Rightarrow> (uint32 \<times> block) list" where
  "writes g f n = map (\<lambda>i. (g i, f i)) [0..<n]"

lemma writes_simps [simp]:
  "writes g f 0 = []" "writes g f (Suc n) = writes g f n @ [(g n, f n)]" "length (writes g f n) = n"
  "fst ` set (writes g f n) = g ` {..<n}"
  by (auto simp: writes_def image_image)

lemma take_writes: "take k (writes g f n) = writes g f (min k n)"
  by (simp add: writes_def take_map min_def)

lemma writes_cong: "(\<And>i. i < n \<Longrightarrow> g i = g' i \<and> f i = f' i) \<Longrightarrow> writes g f n = writes g' f' n"
  by (simp add: writes_def)

lemma apply_writes_at:
  "inj_on g {..<n} \<Longrightarrow> i < n \<Longrightarrow> apply_writes d (writes g f n) (g i) = f i"
proof (induction n)
  case (Suc n)
  then show ?case by (auto simp: less_Suc_eq inj_on_def)
qed simp

subsection \<open>The invariant\<close>

text \<open>The blocks of the log, and the home of the \<open>i\<close>-th logged block.\<close>

definition log_area :: "uint32 \<Rightarrow> int \<Rightarrow> uint32 set" where
  "log_area start n = {m. unat start \<le> unat m \<and> unat m < unat start + nat n}"

abbreviation slot :: "uint32 \<Rightarrow> nat \<Rightarrow> uint32" where
  "slot start i \<equiv> start + of_nat i + 1"

abbreviation nlogged :: "'a klog_scheme \<Rightarrow> nat" where
  "nlogged s \<equiv> nat (lh_n (lh s))"

abbreviation home :: "'a klog_scheme \<Rightarrow> nat \<Rightarrow> uint32" where
  "home s i \<equiv> lh_block (lh s) ! i"

text \<open>The pending transaction: the blocks it writes with their new contents.\<close>

definition txn :: "'a klog_scheme \<Rightarrow> (uint32 \<times> block) list" where
  "txn s = writes (home s) (\<lambda>i. blk s (home s i)) (nlogged s)"

definition log_inv :: "'a klog_scheme \<Rightarrow> bool" where
  "log_inv s \<longleftrightarrow> log_dev s = ROOTDEV \<and> length (lh_block (lh s)) = LOGSIZE \<and> 0 \<le> lh_n (lh s) \<and>
     lh_n (lh s) \<le> int LOGSIZE \<and> lh_n (lh s) < log_size s \<and> unat (log_start s) + nat (log_size s) \<le> 2 ^ 32 \<and>
     inj_on (home s) {..<nlogged s} \<and> get32 0 (disk s (log_start s)) = 0 \<and>
     (\<forall>i<nlogged s. home s i \<notin> log_area (log_start s) (log_size s) \<and> brefs s (home s i) \<noteq> 0) \<and>
     (\<forall>m\<in>log_area (log_start s) (log_size s). brefs s m = 0) \<and> (\<forall>m. brefs s m < 2 ^ 32 - 1)"

lemma slot_unat:
  assumes "unat start + nat sz \<le> 2 ^ 32" "int (Suc i) < sz"
  shows "unat (slot start i) = unat start + Suc i"
proof -
  have l: "unat start + Suc i < 2 ^ 32" using assms by linarith
  have "unat (of_nat (Suc i) :: uint32) = Suc i"
    using l by (simp add: unat_of_nat take_bit_nat_eq_self del: of_nat_Suc)
  then have "unat (start + of_nat (Suc i)) = unat start + Suc i"
    using l unat_add_lem [of start "of_nat (Suc i)"] by simp
  then show ?thesis by (simp add: ac_simps)
qed

lemma slot_area:
  assumes "unat start + nat sz \<le> 2 ^ 32" "int n < sz"
  shows "inj_on (slot start) {..<n}" "\<And>i. i < n \<Longrightarrow> slot start i \<in> log_area start sz" "\<And>i. i < n \<Longrightarrow> slot start i \<noteq> start"
    "start \<in> log_area start sz"
proof -
  have u: "unat (slot start i) = unat start + Suc i" if "i < n" for i
    by (rule slot_unat [OF assms(1)]) (use that assms(2) in linarith)
  have "i = j" if "i < n" "j < n" "slot start i = slot start j" for i j
    using u [OF that(1)] u [OF that(2)] unfolding that(3) by linarith
  then show "inj_on (slot start) {..<n}" unfolding inj_on_def lessThan_iff by blast
  show "slot start i \<in> log_area start sz" if "i < n" for i
    using u [OF that] that assms(2) unfolding log_area_def mem_Collect_eq by linarith
  show "slot start i \<noteq> start" if "i < n" for i
  proof
    assume "slot start i = start"
    then have "unat (slot start i) = unat start" by (rule arg_cong)
    then show False using u [OF that] by linarith
  qed
  show "start \<in> log_area start sz" using assms(2) by (simp add: log_area_def)
qed

text \<open>A block nobody references is not locked.\<close>

lemma unused_owner:
  assumes "binv s" "brefs s n = 0"
  shows "bowner s n = None"
proof (cases "bix (bufs s) n")
  case (Some i)
  then have "b_refcnt (bufs s ! i) = 0" "buf_ok (disk s) (bufs s ! i)"
    using assms by (auto simp: brefs_def unat_eq_zero bix_Some binv_def)
  then show ?thesis using Some by (simp add: bowner_def buf_ok_def)
qed (simp add: bowner_def)

lemma bstep_log:
  assumes "bstep s t"
  shows "log_start t = log_start s" "log_size t = log_size s" "log_dev t = log_dev s" "lh t = lh s"
    "outstanding t = outstanding s" "committing t = committing s"
  using assms by (auto simp: bstep_def)

subsection \<open>The header on disk\<close>

lemma put_words:
  assumes "n \<le> LOGSIZE" "length d = BSIZE" "e = foldl (\<lambda>d i. put32 (4 + 4 * i) (f i) d) d [0..<n]"
  shows "length e = BSIZE \<and> get32 0 e = get32 0 d \<and> (\<forall>i<n. get32 (4 + 4 * i) e = f i)"
  using assms(1,2) unfolding assms(3)
proof (induction n)
  case (Suc n)
  define g where "g = foldl (\<lambda>d i. put32 (4 + 4 * i) (f i) d) d [0..<n]"
  have g: "length g = BSIZE" "get32 0 g = get32 0 d" "\<forall>i<n. get32 (4 + 4 * i) g = f i"
    using Suc unfolding g_def by auto
  have "get32 0 (put32 (4 + 4 * n) (f n) g) = get32 0 g"
    using g(1) Suc.prems(1) by (intro get32_put32_other) auto
  moreover have "get32 (4 + 4 * i) (put32 (4 + 4 * n) (f n) g) = f i" if "i < Suc n" for i
  proof (cases "i = n")
    case True
    then show ?thesis using g(1) Suc.prems(1) by (simp add: get32_put32)
  next
    case False
    then have "get32 (4 + 4 * i) (put32 (4 + 4 * n) (f n) g) = get32 (4 + 4 * i) g"
      using g(1) Suc.prems(1) that by (intro get32_put32_other) auto
    then show ?thesis using g(3) False that by simp
  qed
  ultimately show ?case using g Suc.prems by (simp add: g_def [symmetric])
qed simp

text \<open>What \<^verbatim>\<open>read_head\<close> finds in a header written by \<^verbatim>\<open>write_head\<close>.\<close>

lemma head_roundtrip:
  assumes "length d = BSIZE" "0 \<le> lh_n h" "lh_n h \<le> int LOGSIZE"
  shows "length (put_head h d) = BSIZE" "sint (get32 0 (put_head h d)) = lh_n h"
    "\<And>i. i < nat (lh_n h) \<Longrightarrow> get32 (4 + 4 * i) (put_head h d) = lh_block h ! i"
proof -
  have n: "nat (lh_n h) \<le> LOGSIZE" using assms(3) by simp
  have l: "length (put32 0 (word_of_int (lh_n h)) d) = BSIZE" using assms(1) by simp
  note p = put_words [OF n l refl, of "\<lambda>i. lh_block h ! i"]
  show "length (put_head h d) = BSIZE" using p by (simp add: put_head_def)
  have "get32 0 (put_head h d) = word_of_int (lh_n h)" using p assms(1) by (simp add: put_head_def)
  then show "sint (get32 0 (put_head h d)) = lh_n h"
    using assms(2,3) by (simp add: sint_sbintrunc' signed_take_bit_int_eq_self)
  show "get32 (4 + 4 * i) (put_head h d) = lh_block h ! i" if "i < nat (lh_n h)" for i
    using p that by (simp add: put_head_def)
qed

subsection \<open>The steps of commit\<close>

lemma lh_at_ok: "i < LOGSIZE \<Longrightarrow> lh_at i s = Ok (home s i)"
  by (simp add: lh_at_def)

lemma write_log_one_ok:
  assumes "kio s" "binv s" "log_dev s = ROOTDEV" "i < LOGSIZE" "home s i \<noteq> slot (log_start s) i"
    "bowner s (slot (log_start s) i) = None" "bowner s (home s i) = None"
    "brefs s (slot (log_start s) i) < 2 ^ 32 - 1" "brefs s (home s i) < 2 ^ 32 - 1"
    "brefs s (home s i) \<noteq> 0" "card (busy s) < NBUF"
  shows "okR (write_log_one i s) (\<lambda>u. kio u \<and> binv u \<and> bstep s u \<and>
    blk u = (blk s)(slot (log_start s) i := blk s (home s i)) \<and> brefs u = brefs s \<and> bowner u = bowner s \<and>
    disk u = (disk s)(slot (log_start s) i := blk s (home s i)) \<and>
    dwrites u = dwrites s @ [(slot (log_start s) i, blk s (home s i))])"
proof -
  have c: "okR (bindR (bread ROOTDEV (slot (log_start s) i) s) (\<lambda>(t, s1). bindR (bread ROOTDEV (home s i) s1) (\<lambda>(f, s2).
     bindR (bwrite t (set_data t (bdata f s2) s2)) (\<lambda>s3. bindR (brelse f s3) (brelse t)))))
    (\<lambda>u. (kio u \<and> binv u) \<and> bstep s u \<and> my_pid u = my_pid s \<and> blk u = (blk s)(slot (log_start s) i := blk s (home s i)) \<and>
      brefs u = brefs s \<and> bowner u = bowner s \<and> disk u = (disk s)(slot (log_start s) i := blk s (home s i)) \<and>
      dwrites u = dwrites s @ [(slot (log_start s) i, blk s (home s i))])"
    by (rule bc.copy_out_ok) (use assms in \<open>auto simp: busy_def\<close>)
  have e: "lh_at i t = Ok (home s i) \<and> log_dev t = log_dev s" if "bread ROOTDEV (slot (log_start s) i) s = Ok (b, t)" for b t
  proof -
    have "bstep s t" using bread_spec [OF assms(1,2,6,8)] assms(11) that by (auto simp: beff_def)
    then show ?thesis using bstep_log [of s t] lh_at_ok [OF assms(4), of t] by simp
  qed
  have "write_log_one i s = bindR (bread ROOTDEV (slot (log_start s) i) s) (\<lambda>(t, s1). bindR (bread ROOTDEV (home s i) s1) (\<lambda>(f, s2).
     bindR (bwrite t (set_data t (bdata f s2) s2)) (\<lambda>s3. bindR (brelse f s3) (brelse t))))"
    unfolding write_log_one_def assms(3) by (rule bindR_cong [OF refl]) (auto simp: Let_def assms(3) dest!: e)
  then show ?thesis using c by (auto simp: okR_def)
qed

text \<open>One summary for the loops: everything but contents and reference counts is kept.\<close>

definition log_step :: "'a klog_scheme \<Rightarrow> (uint32 \<Rightarrow> nat) \<Rightarrow> (uint32 \<times> block) list \<Rightarrow> 'a klog_scheme \<Rightarrow> bool" where
  "log_step s r ws t \<longleftrightarrow> kio t \<and> binv t \<and> bstep s t \<and> brefs t = r \<and> bowner t = bowner s \<and>
     blk t = apply_writes (blk s) ws \<and> disk t = apply_writes (disk s) ws \<and> dwrites t = dwrites s @ ws"

lemma log_step_refl: "kio s \<Longrightarrow> binv s \<Longrightarrow> log_step s (brefs s) [] s"
  by (simp add: log_step_def)

lemma log_step_trans: "log_step s r ws t \<Longrightarrow> log_step t r' vs u \<Longrightarrow> log_step s r' (ws @ vs) u"
  using bstep_trans by (auto simp: log_step_def)

lemma log_stepD:
  assumes "log_step s r ws t"
  shows "kio t" "binv t" "bstep s t" "brefs t = r" "bowner t = bowner s" "blk t = apply_writes (blk s) ws"
    "disk t = apply_writes (disk s) ws" "dwrites t = dwrites s @ ws" "log_start t = log_start s" "log_size t = log_size s"
    "log_dev t = log_dev s" "lh t = lh s" "outstanding t = outstanding s" "committing t = committing s"
  using assms bstep_log [of s t] by (simp_all add: log_step_def)

lemma log_inv_area:
  assumes "log_inv s" "i < nlogged s"
  shows "i < LOGSIZE" "slot (log_start s) i \<in> log_area (log_start s) (log_size s)" "slot (log_start s) i \<noteq> log_start s"
    "home s i \<notin> log_area (log_start s) (log_size s)" "brefs s (slot (log_start s) i) = 0"
proof -
  have a: "unat (log_start s) + nat (log_size s) \<le> 2 ^ 32" "int (nlogged s) < log_size s" "nlogged s \<le> LOGSIZE"
    using assms(1) by (auto simp: log_inv_def)
  show "i < LOGSIZE" using a(3) assms(2) by simp
  show sl: "slot (log_start s) i \<in> log_area (log_start s) (log_size s)" by (rule slot_area(2) [OF a(1,2) assms(2)])
  show "slot (log_start s) i \<noteq> log_start s" by (rule slot_area(3) [OF a(1,2) assms(2)])
  show "home s i \<notin> log_area (log_start s) (log_size s)" using assms by (simp add: log_inv_def)
  show "brefs s (slot (log_start s) i) = 0" using assms(1) sl by (simp add: log_inv_def)
qed

lemma log_inv_head:
  assumes "log_inv s"
  shows "log_start s \<in> log_area (log_start s) (log_size s)" "brefs s (log_start s) = 0" "inj_on (slot (log_start s)) {..<nlogged s}"
proof -
  have a: "unat (log_start s) + nat (log_size s) \<le> 2 ^ 32" "int (nlogged s) < log_size s"
    using assms(1) by (auto simp: log_inv_def)
  show h: "log_start s \<in> log_area (log_start s) (log_size s)" by (rule slot_area(4) [OF a])
  show "brefs s (log_start s) = 0" using assms h by (simp add: log_inv_def)
  show "inj_on (slot (log_start s)) {..<nlogged s}" by (rule slot_area(1) [OF a])
qed

abbreviation log_body :: "'a klog_scheme \<Rightarrow> (uint32 \<times> block) list" where
  "log_body s \<equiv> writes (slot (log_start s)) (\<lambda>i. blk s (home s i)) (nlogged s)"

lemma write_log_ok:
  assumes "kio s" "binv s" "log_inv s" "\<forall>i<nlogged s. bowner s (home s i) = None" "card (busy s) < NBUF"
  shows "okR (write_log s) (log_step s (brefs s) (log_body s))"
proof -
  let ?w = "writes (slot (log_start s)) (\<lambda>i. blk s (home s i))"
  have "okR (foreach write_log_one 0 (nlogged s) s) (log_step s (brefs s) (?w (0 + nlogged s)))"
  proof (rule foreach_invar [where I = "\<lambda>i. log_step s (brefs s) (?w i)"])
    show "log_step s (brefs s) (?w 0) s" using assms(1,2) by (simp add: log_step_refl)
    fix i t
    assume i: "0 \<le> i" "i < 0 + nlogged s" and t: "log_step s (brefs s) (?w i) t"
    note d = log_stepD [OF t]
    note a = log_inv_area [OF assms(3)]
    have n: "i < nlogged s" using i by simp
    have "slot (log_start s) j \<noteq> home s i" if "j < i" for j using a(2) [of j] a(4) [OF n] n that by auto
    then have "home s i \<notin> slot (log_start s) ` {..<i}" unfolding image_iff by (metis lessThan_iff)
    then have h: "blk t (home s i) = blk s (home s i)" unfolding d(6) by (intro apply_writes_other) simp
    have ow: "bowner s (slot (log_start s) i) = None" by (rule unused_owner [OF assms(2) a(5) [OF n]])
    have ne: "home s i \<noteq> slot (log_start s) i" using a(2,4) [OF n] by metis
    have r: "brefs s (home s i) \<noteq> 0" "brefs s (home s i) < 2 ^ 32 - 1" "brefs s (slot (log_start s) i) < 2 ^ 32 - 1"
      "bowner s (home s i) = None" "card (busy t) < NBUF" "log_dev s = ROOTDEV"
      using assms(3-5) n a(5) [OF n] d(4) by (auto simp: log_inv_def busy_def)
    have "okR (write_log_one i t) (log_step t (brefs s) [(slot (log_start s) i, blk s (home s i))])"
      by (rule okR_mono [OF write_log_one_ok [OF d(1,2)]]) (use a(1) [OF n] d ow ne r h in \<open>auto simp: log_step_def\<close>)
    then show "okR (write_log_one i t) (log_step s (brefs s) (?w (Suc i)))"
      by (rule okR_mono) (use log_step_trans [OF t] in simp)
  qed
  then show ?thesis by (simp add: write_log_def)
qed

lemma write_head_ok:
  assumes "kio s" "binv s" "log_dev s = ROOTDEV" "0 \<le> lh_n (lh s)" "lh_n (lh s) \<le> int LOGSIZE" "brefs s (log_start s) = 0"
    "card (busy s) < NBUF"
  shows "okR (write_head s) (log_step s (brefs s) [(log_start s, put_head (lh s) (disk s (log_start s)))])"
proof -
  let ?f = "put_head (lh s)" and ?n = "log_start s"
  have ow: "bowner s ?n = None" using unused_owner [OF assms(2,6)] .
  have v: "blk s ?n = disk s ?n" by (rule unused_blk [OF assms(2,6)])
  have c: "okR (bindR (bread ROOTDEV ?n s) (\<lambda>(b, t). bindR (bwrite b (set_data b (?f (bdata b t)) t)) (brelse b)))
    (\<lambda>u. (kio u \<and> binv u) \<and> bstep s u \<and> my_pid u = my_pid s \<and> blk u = (blk s)(?n := ?f (blk s ?n)) \<and> brefs u = brefs s \<and>
      bowner u = bowner s \<and> disk u = (disk s)(?n := ?f (blk s ?n)) \<and> dwrites u = dwrites s @ [(?n, ?f (blk s ?n))])"
    by (rule bc.change_ok) (use assms ow head_roundtrip(1) [OF blk_length [OF assms(2)] assms(4,5)] in \<open>auto simp: busy_def\<close>)
  have e: "lh t = lh s" if "bread ROOTDEV ?n s = Ok (b, t)" for b t
    using bread_spec [OF assms(1,2) ow] assms(6,7) that by (auto simp: beff_def dest: bstep_log)
  have "write_head s = bindR (bread ROOTDEV ?n s) (\<lambda>(b, t). bindR (bwrite b (set_data b (?f (bdata b t)) t)) (brelse b))"
    unfolding write_head_def assms(3) by (rule bindR_cong [OF refl]) (use assms(5) in \<open>auto simp: Let_def dest!: e\<close>)
  then show ?thesis using c v by (auto simp: okR_def log_step_def)
qed

lemma install_one_ok:
  assumes "kio s" "binv s" "log_dev s = ROOTDEV" "i < LOGSIZE" "home s i \<noteq> slot (log_start s) i"
    "bowner s (slot (log_start s) i) = None" "bowner s (home s i) = None"
    "brefs s (slot (log_start s) i) < 2 ^ 32 - 1" "brefs s (home s i) < 2 ^ 32 - 1"
    "if recovering then card (busy s) + 1 < NBUF else brefs s (home s i) \<noteq> 0 \<and> card (busy s) < NBUF"
  shows "okR (install_one recovering i s) (log_step s (if recovering then brefs s else (brefs s)(home s i := brefs s (home s i) - 1))
    [(home s i, blk s (slot (log_start s) i))])"
proof -
  let ?m = "slot (log_start s) i" and ?n = "home s i"
  have c: "okR (bindR (bread ROOTDEV ?m s) (\<lambda>(f, s1). bindR (bread ROOTDEV ?n s1) (\<lambda>(t, s2).
     bindR (bwrite t (set_data t (bdata f s2) s2)) (\<lambda>s3.
     bindR (if \<not> recovering then bunpin t s3 else Ok s3) (\<lambda>s4. bindR (brelse f s4) (brelse t))))))
    (\<lambda>u. (kio u \<and> binv u) \<and> bstep s u \<and> my_pid u = my_pid s \<and> blk u = (blk s)(?n := blk s ?m) \<and>
      brefs u = (if \<not> recovering then (brefs s)(?n := brefs s ?n - 1) else brefs s) \<and> bowner u = bowner s \<and>
      disk u = (disk s)(?n := blk s ?m) \<and> dwrites u = dwrites s @ [(?n, blk s ?m)])"
    by (rule bc.copy_in_ok) (use assms finite_busy [OF assms(2)] in \<open>auto simp: busy_def split: if_splits\<close>)
  have e: "lh_at i t = Ok ?n \<and> log_dev t = log_dev s" if "bread ROOTDEV ?m s = Ok (b, t)" for b t
  proof -
    have "card (busy s) < NBUF" using assms(10) by (auto split: if_splits)
    then have "bstep s t" using bread_spec [OF assms(1,2,6,8)] that by (auto simp: beff_def)
    then show ?thesis using bstep_log [of s t] lh_at_ok [OF assms(4), of t] by simp
  qed
  have "install_one recovering i s = bindR (bread ROOTDEV ?m s) (\<lambda>(f, s1). bindR (bread ROOTDEV ?n s1) (\<lambda>(t, s2).
     bindR (bwrite t (set_data t (bdata f s2) s2)) (\<lambda>s3.
     bindR (if \<not> recovering then bunpin t s3 else Ok s3) (\<lambda>s4. bindR (brelse f s4) (brelse t)))))"
    unfolding install_one_def assms(3) by (rule bindR_cong [OF refl], cases recovering) (auto simp: Let_def assms(3) dest!: e)
  then show ?thesis using c by (auto simp: okR_def log_step_def)
qed

lemma install_trans_ok:
  assumes "kio s" "binv s" "log_dev s = ROOTDEV" "nlogged s \<le> LOGSIZE" "int (nlogged s) < sz"
    "unat (log_start s) + nat sz \<le> 2 ^ 32"
    "\<forall>i<nlogged s. home s i \<notin> log_area (log_start s) sz \<and> bowner s (home s i) = None \<and> brefs s (home s i) < 2 ^ 32 - 1"
    "\<forall>m\<in>log_area (log_start s) sz. brefs s m = 0"
    "if recovering then card (busy s) + 1 < NBUF
     else card (busy s) < NBUF \<and> inj_on (home s) {..<nlogged s} \<and> (\<forall>i<nlogged s. brefs s (home s i) \<noteq> 0)"
  shows "okR (install_trans recovering s)
    (log_step s (\<lambda>m. if \<not> recovering \<and> m \<in> home s ` {..<nlogged s} then brefs s m - 1 else brefs s m)
      (writes (home s) (\<lambda>i. blk s (slot (log_start s) i)) (nlogged s)))"
proof -
  let ?r = "\<lambda>i m. if \<not> recovering \<and> m \<in> home s ` {..<i} then brefs s m - 1 else brefs s m"
  let ?w = "writes (home s) (\<lambda>i. blk s (slot (log_start s) i))"
  have "okR (foreach (install_one recovering) 0 (nlogged s) s) (log_step s (?r (0 + nlogged s)) (?w (0 + nlogged s)))"
  proof (rule foreach_invar [where I = "\<lambda>i. log_step s (?r i) (?w i)"])
    show "log_step s (?r 0) (?w 0) s" using assms(1,2) log_step_refl by simp
    fix i t
    assume i: "0 \<le> i" "i < 0 + nlogged s" and t: "log_step s (?r i) (?w i) t"
    note d = log_stepD [OF t]
    have n: "i < nlogged s" using i by simp
    have sl: "slot (log_start s) i \<in> log_area (log_start s) sz" by (rule slot_area(2) [OF assms(6,5) n])
    have out: "slot (log_start s) i \<noteq> home s j" if "j \<le> i" for j using assms(7) sl n that by (metis le_less_trans)
    then have not: "slot (log_start s) i \<notin> home s ` {..<i}" unfolding image_iff by (metis lessThan_iff less_imp_le)
    then have v: "blk t (slot (log_start s) i) = blk s (slot (log_start s) i)"
      unfolding d(6) by (intro apply_writes_other) simp
    have z: "brefs s (slot (log_start s) i) = 0" using assms(8) sl by blast
    have ow: "bowner s (slot (log_start s) i) = None" by (rule unused_owner [OF assms(2) z])
    have sub: "busy t \<subseteq> busy s" unfolding busy_def d(4) by auto
    then have card: "card (busy t) \<le> card (busy s)" by (rule card_mono [OF finite_busy [OF assms(2)]])
    have pin: "brefs t (home s i) = brefs s (home s i)"
    proof (cases recovering)
      case False
      then have "inj_on (home s) {..<nlogged s}" using assms(9) by simp
      then have "home s i \<notin> home s ` {..<i}"
        using inj_on_image_mem_iff [of "home s" "{..<nlogged s}" i "{..<i}"] n by simp
      then show ?thesis using d(4) by simp
    qed (simp add: d(4))
    have rz: "brefs t (slot (log_start s) i) = 0" using d(4) z by simp
    have c: "if recovering then card (busy t) + 1 < NBUF else brefs t (home s i) \<noteq> 0 \<and> card (busy t) < NBUF"
      using assms(9) card pin n by (cases recovering) simp_all
    have "okR (install_one recovering i t) (log_step t (if recovering then brefs t else (brefs t)(home t i := brefs t (home t i) - 1))
      [(home t i, blk t (slot (log_start t) i))])"
      by (rule install_one_ok [OF d(1,2)]) (use assms(3,4,7) n ow rz pin c out [of i] in \<open>simp_all add: d(5,9,11,12) eq_commute [of "home s i" "slot _ _"] split: if_splits\<close>)
    moreover have "(if recovering then brefs t else (brefs t)(home t i := brefs t (home t i) - 1)) = ?r (Suc i)"
      using pin by (cases recovering) (auto simp: fun_eq_iff d(4,12) lessThan_Suc)
    moreover have "[(home t i, blk t (slot (log_start t) i))] = [(home s i, blk s (slot (log_start s) i))]"
      using v d(9,12) by simp
    ultimately have "okR (install_one recovering i t) (log_step t (?r (Suc i)) [(home s i, blk s (slot (log_start s) i))])"
      by simp
    then show "okR (install_one recovering i t) (log_step s (?r (Suc i)) (?w (Suc i)))"
      by (rule okR_mono) (use log_step_trans [OF t] in simp)
  qed
  then show ?thesis by (simp add: install_trans_def)
qed

text \<open>The cache does not depend on the fields of the log.\<close>

lemma cache_lh [simp]:
  "blk (s\<lparr>lh := h\<rparr>) = blk s" "brefs (s\<lparr>lh := h\<rparr>) = brefs s" "bowner (s\<lparr>lh := h\<rparr>) = bowner s"
  "binv (s\<lparr>lh := h\<rparr>) = binv s" "kio (s\<lparr>lh := h\<rparr>) = kio s" "busy (s\<lparr>lh := h\<rparr>) = busy s"
  by (simp_all add: blk_def brefs_def bowner_def binv_def kio_def kenv_def busy_def fun_eq_iff split: option.split)

lemma log_step_lh:
  assumes "log_step s r ws t"
  shows "log_step (s\<lparr>lh := h\<rparr>) r ws (t\<lparr>lh := h\<rparr>)"
proof -
  have "bstep s t" using assms by (simp add: log_step_def)
  then obtain bs ps d w where t: "t = s\<lparr>procs := ps, bufs := bs, disk := d, dwrites := w\<rparr>" "woken (procs s) ps"
    unfolding bstep_def by (elim exE conjE) (rule that, assumption+)
  have "bstep (s\<lparr>lh := h\<rparr>) (t\<lparr>lh := h\<rparr>)" unfolding bstep_def
    by (rule exI [of _ bs], rule exI [of _ ps], rule exI [of _ d], rule exI [of _ w]) (simp add: t)
  then show ?thesis using assms by (simp add: log_step_def)
qed

abbreviation head_write :: "'a klog_scheme \<Rightarrow> uint32 \<times> block" where
  "head_write s \<equiv> (log_start s, put_head (lh s) (disk s (log_start s)))"

abbreviation head_clear :: "'a klog_scheme \<Rightarrow> uint32 \<times> block" where
  "head_clear s \<equiv> (log_start s, put_head ((lh s)\<lparr>lh_n := 0\<rparr>) (put_head (lh s) (disk s (log_start s))))"

lemma commit_ok:
  assumes "kio s" "binv s" "log_inv s" "\<forall>i<nlogged s. bowner s (home s i) = None" "card (busy s) < NBUF" "0 < lh_n (lh s)"
  shows "okR (commit s) (log_step (clear_lh s)
    (\<lambda>m. if m \<in> home s ` {..<nlogged s} then brefs s m - 1 else brefs s m)
    (log_body s @ [head_write s] @ txn s @ [head_clear s]))"
proof -
  let ?n = "nlogged s" and ?r = "\<lambda>m. if m \<in> home s ` {..<nlogged s} then brefs s m - 1 else brefs s m"
  note a = log_inv_area [OF assms(3)] and hd = log_inv_head [OF assms(3)]
  have inv: "log_dev s = ROOTDEV" "0 \<le> lh_n (lh s)" "lh_n (lh s) \<le> int LOGSIZE" "int ?n < log_size s" "?n \<le> LOGSIZE"
    "unat (log_start s) + nat (log_size s) \<le> 2 ^ 32" "inj_on (home s) {..<?n}"
    using assms(3) by (auto simp: log_inv_def)
  obtain t1 where t1: "write_log s = Ok t1" "log_step s (brefs s) (log_body s) t1"
    using write_log_ok [OF assms(1-5)] by (auto simp: okR_def)
  note d1 = log_stepD [OF t1(2)]
  have "slot (log_start s) i \<noteq> log_start s" if "i < ?n" for i using a(3) [OF that] .
  then have "log_start s \<notin> slot (log_start s) ` {..<?n}" unfolding image_iff by (metis lessThan_iff)
  then have h1: "disk t1 (log_start s) = disk s (log_start s)" unfolding d1(7) by (intro apply_writes_other) simp
  have b1: "busy t1 = busy s" by (simp add: busy_def d1(4))
  have "okR (write_head t1) (log_step t1 (brefs t1) [(log_start t1, put_head (lh t1) (disk t1 (log_start t1)))])"
    by (rule write_head_ok [OF d1(1,2)]) (use inv assms(5) hd(2) d1 b1 in simp_all)
  then obtain t2 where t2: "write_head t1 = Ok t2" "log_step t1 (brefs s) [head_write s] t2"
    using d1 h1 by (auto simp: okR_def)
  have s2: "log_step s (brefs s) (log_body s @ [head_write s]) t2" by (rule log_step_trans [OF t1(2) t2(2)])
  note d2 = log_stepD [OF s2]
  have v2: "blk t2 (slot (log_start s) i) = blk s (home s i)" if "i < ?n" for i
    unfolding d2(6) using apply_writes_at [OF hd(3) that] a(3) [OF that] by (simp add: fun_upd_apply)
  have b2: "busy t2 = busy s" by (simp add: busy_def d2(4))
  have "okR (install_trans False t2) (log_step t2 (\<lambda>m. if \<not> False \<and> m \<in> home t2 ` {..<nlogged t2} then brefs t2 m - 1 else brefs t2 m)
      (writes (home t2) (\<lambda>i. blk t2 (slot (log_start t2) i)) (nlogged t2)))"
    by (rule install_trans_ok [OF d2(1,2), of "log_size s"])
      (use inv assms(3,4,5) d2 b2 in \<open>simp_all add: log_inv_def\<close>)
  moreover have "writes (home t2) (\<lambda>i. blk t2 (slot (log_start t2) i)) (nlogged t2) = txn s"
    unfolding txn_def d2(9,12) by (rule writes_cong) (simp add: v2)
  ultimately have "okR (install_trans False t2) (log_step t2 ?r (txn s))" unfolding d2(4,12) by simp
  then obtain t3 where t3: "install_trans False t2 = Ok t3" "log_step t2 ?r (txn s) t3" by (auto simp: okR_def)
  have s3: "log_step s ?r ((log_body s @ [head_write s]) @ txn s) t3" by (rule log_step_trans [OF s2 t3(2)])
  note d3 = log_stepD [OF s3]
  have hout: "log_start s \<notin> home s ` {..<?n}" using hd(1) a(4) by auto
  have h3: "disk t3 (log_start s) = put_head (lh s) (disk s (log_start s))"
    unfolding d3(7) by (simp add: txn_def apply_writes_other hout)
  have c3: "log_step (clear_lh s) ?r ((log_body s @ [head_write s]) @ txn s) (clear_lh t3)"
    using log_step_lh [OF s3, of "(lh s)\<lparr>lh_n := 0\<rparr>"] by (simp add: clear_lh_def d3(12))
  note d4 = log_stepD [OF c3]
  have "busy (clear_lh t3) \<subseteq> busy s" unfolding busy_def d4(4) by auto
  then have "card (busy (clear_lh t3)) \<le> card (busy s)" by (rule card_mono [OF finite_busy [OF assms(2)]])
  then have "card (busy (clear_lh t3)) < NBUF" using assms(5) by linarith
  then have "okR (write_head (clear_lh t3)) (log_step (clear_lh t3) (brefs (clear_lh t3))
      [(log_start (clear_lh t3), put_head (lh (clear_lh t3)) (disk (clear_lh t3) (log_start (clear_lh t3))))])"
    by (intro write_head_ok [OF d4(1,2)]) (use inv hd(2) hout d3 d4(4) in \<open>simp_all add: clear_lh_def\<close>)
  then obtain t4 where t4: "write_head (clear_lh t3) = Ok t4" "log_step (clear_lh t3) ?r [head_clear s] t4"
    using d3 d4(4) h3 by (auto simp: okR_def clear_lh_def)
  have "commit s = Ok t4" using assms(6) t1(1) t2(1) t3(1) t4(1) by (simp add: commit_def)
  then show ?thesis using log_step_trans [OF c3 t4(2)] by simp
qed

subsection \<open>Recovery\<close>

text \<open>The header that \<^verbatim>\<open>read_head\<close> reads from a block.\<close>

definition head_of :: "block \<Rightarrow> logheader \<Rightarrow> logheader" where
  "head_of d h = (let n = sint (get32 0 d) in
     \<lparr>lh_n = n, lh_block = map (\<lambda>i. get32 (4 + 4 * i) d) [0..<nat n] @ drop (nat n) (lh_block h)\<rparr>)"

lemma has_buf_lh [simp]: "has_buf b n (s\<lparr>lh := h\<rparr>) = has_buf b n s" "my_pid (s\<lparr>lh := h\<rparr>) = my_pid s"
  by (simp_all add: has_buf_def my_pid_def)

lemma read_head_ok:
  assumes "kio s" "binv s" "log_dev s = ROOTDEV" "brefs s (log_start s) = 0" "card (busy s) < NBUF"
    "sint (get32 0 (disk s (log_start s))) \<le> int LOGSIZE"
  shows "okR (read_head s) (log_step (s\<lparr>lh := head_of (disk s (log_start s)) (lh s)\<rparr>) (brefs s) [])"
proof -
  let ?n = "log_start s" and ?h = "head_of (disk s (log_start s)) (lh s)"
  have ow: "bowner s ?n = None" and v: "blk s ?n = disk s ?n" using unused_owner unused_blk assms(2,4) by blast+
  obtain b t where t: "bread ROOTDEV ?n s = Ok (b, t)" "has_buf b ?n t" "kio t \<and> binv t" "bstep s t" "blk t = blk s"
    "brefs t = (brefs s)(?n := Suc (brefs s ?n))" "bowner t = (bowner s)(?n := Some (my_pid s))" "disk t = disk s" "dwrites t = dwrites s"
    using bc.rd_ok [of s ?n] assms ow by (auto simp: busy_def)
  define u where "u = t\<lparr>lh := ?h\<rparr>"
  have d: "bdata b t = disk s ?n" using has_buf_data [OF t(2)] t(5) v by simp
  have u: "has_buf b ?n u" "kio u \<and> binv u" "blk u = blk s" "brefs u = (brefs s)(?n := 1)" "bowner u = (bowner s)(?n := Some (my_pid s))"
    "disk u = disk s" "dwrites u = dwrites s"
    using t assms(4) by (simp_all add: u_def)
  obtain w where w: "brelse b u = Ok w" "kio w \<and> binv w" "bstep u w" "blk w = blk u" "brefs w = (brefs u)(?n := brefs u ?n - 1)"
    "bowner w = (bowner u)(?n := None)" "disk w = disk u" "dwrites w = dwrites u"
    using bc.rel_ok [OF u(2,1)] u(3,6) v by auto
  obtain ps bs dk ws where e: "t = s\<lparr>procs := ps, bufs := bs, disk := dk, dwrites := ws\<rparr>" "woken (procs s) ps"
    using t(4) unfolding bstep_def by (elim exE conjE) (rule that, assumption+)
  have "bstep (s\<lparr>lh := ?h\<rparr>) u" unfolding bstep_def
    by (rule exI [of _ bs], rule exI [of _ ps], rule exI [of _ dk], rule exI [of _ ws]) (simp add: e u_def)
  then have "log_step (s\<lparr>lh := ?h\<rparr>) (brefs s) [] w"
    using bstep_trans [OF _ w(3)] w assms(4) ow u(3-7) by (simp add: log_step_def fun_upd_idem)
  moreover have "read_head s = Ok w"
    using t(1) w(1) d assms(6) bstep_log [OF t(4)] unfolding read_head_def assms(3)
    by (simp add: Let_def u_def head_of_def)
  ultimately show ?thesis by simp
qed

text \<open>The machine just after a reset: nothing is cached, and the memory of the log is zero.\<close>

definition fresh :: "'a klog_scheme \<Rightarrow> bool" where
  "fresh s \<longleftrightarrow> kio s \<and> binv s \<and> brefs s = (\<lambda>_. 0) \<and> length (lh_block (lh s)) = LOGSIZE"

definition recovered :: "superblock \<Rightarrow> (uint32 \<Rightarrow> block) \<Rightarrow> uint32 \<Rightarrow> block" where
  "recovered sb d = (let h = d (sb_logstart sb) in
     apply_writes d (writes (\<lambda>i. get32 (4 + 4 * i) h) (\<lambda>i. d (slot (sb_logstart sb) i)) (nat (sint (get32 0 h)))))"

lemma cache_log [simp]:
  "kio (s\<lparr>log_start := a, log_size := z, log_dev := dv\<rparr>) = kio s" "binv (s\<lparr>log_start := a, log_size := z, log_dev := dv\<rparr>) = binv s"
  "brefs (s\<lparr>log_start := a, log_size := z, log_dev := dv\<rparr>) = brefs s" "bowner (s\<lparr>log_start := a, log_size := z, log_dev := dv\<rparr>) = bowner s"
  "blk (s\<lparr>log_start := a, log_size := z, log_dev := dv\<rparr>) = blk s" "busy (s\<lparr>log_start := a, log_size := z, log_dev := dv\<rparr>) = busy s"
  by (simp_all add: blk_def brefs_def bowner_def binv_def kio_def kenv_def busy_def fun_eq_iff split: option.split)

lemma initlog_ok:
  fixes r :: "'a klog_scheme" and sb :: superblock
  defines "st \<equiv> sb_logstart sb" and "sz \<equiv> sint (sb_nlog sb)"
  defines "n \<equiv> sint (get32 0 (disk r st))"
  assumes "fresh r" "0 \<le> n" "n \<le> int LOGSIZE" "n < sz" "unat st + nat sz \<le> 2 ^ 32"
    "\<forall>i<nat n. get32 (4 + 4 * i) (disk r st) \<notin> log_area st sz"
  shows "okR (initlog ROOTDEV sb r) (\<lambda>u. kio u \<and> binv u \<and> log_inv u \<and> lh_n (lh u) = 0 \<and> blk u = disk u \<and>
    (\<forall>m. m \<noteq> st \<longrightarrow> disk u m = recovered sb (disk r) m))"
proof -
  define s where "s = r\<lparr>log_start := st, log_size := sz, log_dev := ROOTDEV\<rparr>"
  have f: "kio s" "binv s" "brefs s = (\<lambda>_. 0)" "busy s = {}" "length (lh_block (lh s)) = LOGSIZE" "disk s = disk r"
    "log_start s = st" "log_size s = sz" "log_dev s = ROOTDEV"
    using assms(4) by (simp_all add: fresh_def s_def) (simp add: busy_def fresh_def)
  define h where "h = head_of (disk s st) (lh s)"
  have "okR (read_head s) (log_step (s\<lparr>lh := h\<rparr>) (brefs s) [])"
    using read_head_ok [of s] f assms(6) by (simp add: h_def n_def)
  then obtain t1 where t1: "read_head s = Ok t1" "log_step (s\<lparr>lh := h\<rparr>) (brefs s) [] t1" by (auto simp: okR_def)
  note d1 = log_stepD [OF t1(2)]
  have h: "lh_n h = n" "length (lh_block h) = LOGSIZE" "\<forall>i<nat n. lh_block h ! i = get32 (4 + 4 * i) (disk r st)"
    using f(5,6) assms(6) by (auto simp: h_def head_of_def Let_def n_def nth_append)
  have b1: "busy t1 = {}" by (simp add: busy_def d1(4) f(3))
  have "blk s = disk s" using unused_blk [OF f(2)] f(3) by auto
  then have v1: "blk t1 = disk r" "disk t1 = disk r" using d1(6,7) f(6) by simp_all
  have "okR (install_trans True t1) (log_step t1 (\<lambda>m. if \<not> True \<and> m \<in> home t1 ` {..<nlogged t1} then brefs t1 m - 1 else brefs t1 m)
      (writes (home t1) (\<lambda>i. blk t1 (slot (log_start t1) i)) (nlogged t1)))"
    by (rule install_trans_ok [OF d1(1,2), of sz])
      (use d1 f h b1 assms(5-9) unused_owner [OF f(2)] in simp_all)
  moreover have "writes (home t1) (\<lambda>i. blk t1 (slot (log_start t1) i)) (nlogged t1) =
      writes (\<lambda>i. get32 (4 + 4 * i) (disk r st)) (\<lambda>i. disk r (slot st i)) (nat n)"
    using d1(9,12) f(7) h v1 by (simp add: writes_def)
  ultimately obtain t2 where t2: "install_trans True t1 = Ok t2"
    "log_step t1 (\<lambda>_. 0) (writes (\<lambda>i. get32 (4 + 4 * i) (disk r st)) (\<lambda>i. disk r (slot st i)) (nat n)) t2"
    using d1(4) f(3) by (auto simp: okR_def)
  note d2 = log_stepD [OF t2(2)]
  have rec: "disk t2 = recovered sb (disk r)" "blk t2 = disk t2"
    using d2(6,7) v1 by (simp_all add: recovered_def Let_def n_def [symmetric] st_def [symmetric])
  define t3 where "t3 = clear_lh t2"
  have t3: "kio t3" "binv t3" "log_dev t3 = ROOTDEV" "lh_n (lh t3) = 0" "brefs t3 = (\<lambda>_. 0)" "busy t3 = {}" "log_start t3 = st"
    "disk t3 = disk t2" "blk t3 = blk t2" "length (lh_block (lh t3)) = LOGSIZE" "log_size t3 = sz"
    using d2 d1 f h by (simp_all add: t3_def clear_lh_def busy_def)
  have "okR (write_head t3) (log_step t3 (brefs t3) [(st, put_head (lh t3) (disk t3 st))])"
    using write_head_ok [of t3] t3 by simp
  then obtain u where u: "write_head t3 = Ok u" "log_step t3 (brefs t3) [(st, put_head (lh t3) (disk t3 st))] u" by (auto simp: okR_def)
  note d3 = log_stepD [OF u(2)]
  have "length (disk t3 st) = BSIZE" using blk_length [OF t3(2), of st] t3(8,9) rec(2) by simp
  then have z: "get32 0 (put_head (lh t3) (disk t3 st)) = 0"
    using t3(4) by (simp add: put_head_def)
  have "initlog ROOTDEV sb r = Ok u"
    using t1(1) t2(1) u(1) by (simp add: initlog_def recover_from_log_def s_def [symmetric] st_def [symmetric] sz_def [symmetric] t3_def)
  moreover have "log_inv u" unfolding log_inv_def using d3 t3 z assms(5-8) by simp
  ultimately show ?thesis using d3 t3 rec by simp
qed

subsection \<open>Crashes\<close>

text \<open>The disk after a crash that lets the first \<open>k\<close> writes of a commit through.\<close>

abbreviation commit_writes :: "'a klog_scheme \<Rightarrow> (uint32 \<times> block) list" where
  "commit_writes s \<equiv> log_body s @ [head_write s] @ txn s @ [head_clear s]"

abbreviation log_of :: "superblock \<Rightarrow> 'a klog_scheme \<Rightarrow> bool" where
  "log_of sb s \<equiv> sb_logstart sb = log_start s \<and> sint (sb_nlog sb) = log_size s"

text \<open>The header is sound, and recovery from it gives the contents \<open>e\<close> outside the log.\<close>

definition recovers_to :: "'a klog_scheme \<Rightarrow> (uint32 \<Rightarrow> block) \<Rightarrow> (uint32 \<Rightarrow> block) \<Rightarrow> bool" where
  "recovers_to s d e \<longleftrightarrow> (let h = d (log_start s); n = sint (get32 0 h); a = log_area (log_start s) (log_size s) in
     0 \<le> n \<and> n \<le> int LOGSIZE \<and> n < log_size s \<and> (\<forall>i<nat n. get32 (4 + 4 * i) h \<notin> a) \<and>
     (\<forall>sb m. log_of sb s \<longrightarrow> m \<notin> a \<longrightarrow> recovered sb d m = e m))"

lemma recovers_empty:
  assumes "log_inv s" "get32 0 (d (log_start s)) = 0" "\<And>m. m \<notin> log_area (log_start s) (log_size s) \<Longrightarrow> d m = e m"
  shows "recovers_to s d e"
  using assms by (auto simp: recovers_to_def recovered_def log_inv_def Let_def)

lemma body_outside:
  assumes "log_inv s" "k \<le> nlogged s"
  shows "m \<notin> log_area (log_start s) (log_size s) \<or> m = log_start s \<Longrightarrow>
    apply_writes d (writes (slot (log_start s)) f k) m = d m"
proof (rule apply_writes_other)
  assume m: "m \<notin> log_area (log_start s) (log_size s) \<or> m = log_start s"
  have "slot (log_start s) i \<noteq> m" if "i < k" for i
    using log_inv_area(2,3) [OF assms(1), of i] m that assms(2) by auto
  then show "m \<notin> fst ` set (writes (slot (log_start s)) f k)" unfolding writes_simps image_iff by (metis lessThan_iff)
qed

lemma txn_inside:
  assumes "log_inv s" "k \<le> nlogged s" "m \<in> log_area (log_start s) (log_size s)"
  shows "apply_writes d (writes (home s) f k) m = d m"
  using log_inv_area(4) [OF assms(1)] assms(2,3) by (intro apply_writes_other) auto

lemma crash_before_header:
  assumes "log_inv s" "k \<le> nlogged s"
  shows "recovers_to s (apply_writes (disk s) (take k (commit_writes s))) (disk s)"
proof -
  have t: "take k (commit_writes s) = writes (slot (log_start s)) (\<lambda>i. blk s (home s i)) k"
    using assms(2) by (simp add: take_writes min_def)
  show ?thesis unfolding t
    by (rule recovers_empty [OF assms(1)]) (use body_outside [OF assms] assms(1) in \<open>auto simp: log_inv_def\<close>)
qed

lemma crash_after_header:
  assumes "log_inv s" "binv s" "j \<le> nlogged s"
  shows "recovers_to s (apply_writes (disk s) (take (nlogged s + 1 + j) (commit_writes s))) (apply_writes (disk s) (txn s))"
proof -
  let ?n = "nlogged s" and ?st = "log_start s" and ?a = "log_area (log_start s) (log_size s)" and ?f = "\<lambda>i. blk s (home s i)"
  define d where "d = apply_writes (disk s) (take (?n + 1 + j) (commit_writes s))"
  have "take (?n + 1 + j) (commit_writes s) = log_body s @ [head_write s] @ writes (home s) ?f j"
    using assms(3) by (simp add: txn_def take_writes min_def)
  then have d: "d = apply_writes ((apply_writes (disk s) (log_body s))(?st := put_head (lh s) (disk s ?st))) (writes (home s) ?f j)"
    by (simp add: d_def)
  have inv: "0 \<le> lh_n (lh s)" "lh_n (lh s) \<le> int LOGSIZE" "lh_n (lh s) < log_size s" "inj_on (home s) {..<?n}"
    "\<forall>m. length (disk s m) = BSIZE"
    using assms(1,2) by (auto simp: log_inv_def binv_def)
  note hr = head_roundtrip [of "disk s ?st" "lh s", OF _ inv(1,2)]
  have h: "d ?st = put_head (lh s) (disk s ?st)"
    unfolding d using txn_inside [OF assms(1,3) log_inv_head(1) [OF assms(1)]] by simp
  have sl: "d (slot ?st i) = ?f i" if "i < ?n" for i
    unfolding d using txn_inside [OF assms(1,3) log_inv_area(2) [OF assms(1) that]] log_inv_area(3) [OF assms(1) that]
      apply_writes_at [OF log_inv_head(3) [OF assms(1)] that] by simp
  have "recovered sb d m = apply_writes (disk s) (txn s) m" if m: "log_of sb s" "m \<notin> ?a" for sb m
  proof -
    have "writes (\<lambda>i. get32 (4 + 4 * i) (d ?st)) (\<lambda>i. d (slot ?st i)) ?n = txn s"
      unfolding txn_def by (rule writes_cong) (use h hr inv(5) sl in auto)
    then have "recovered sb d = apply_writes d (txn s)"
      using h hr(2) inv(5) m(1) by (simp add: recovered_def Let_def)
    moreover have "apply_writes d (txn s) m = apply_writes (disk s) (txn s) m"
    proof (rule apply_writes_cong)
      have st: "m \<noteq> ?st" using m(2) log_inv_head(1) [OF assms(1)] by blast
      have "m \<notin> home s ` {..<j} \<Longrightarrow> d m = disk s m"
        unfolding d using body_outside [OF assms(1) order_refl] m(2) st by (simp add: apply_writes_other)
      then show "m \<in> fst ` set (txn s) \<or> d m = disk s m" using assms(3) by (force simp: txn_def)
    qed
    ultimately show ?thesis by simp
  qed
  moreover have "\<forall>i<?n. get32 (4 + 4 * i) (d ?st) \<notin> ?a" using hr(3) h inv(5) log_inv_area(4) [OF assms(1)] by auto
  ultimately show ?thesis unfolding d_def [symmetric] recovers_to_def using inv h hr(2) by (simp add: Let_def)
qed

lemma crash_after_clear:
  assumes "log_inv s" "binv s"
  shows "recovers_to s (apply_writes (disk s) (commit_writes s)) (apply_writes (disk s) (txn s))"
proof (rule recovers_empty [OF assms(1)])
  let ?st = "log_start s"
  have l: "length (disk s ?st) = BSIZE" "0 \<le> lh_n (lh s)" "lh_n (lh s) \<le> int LOGSIZE" using assms by (auto simp: binv_def log_inv_def)
  then show "get32 0 (apply_writes (disk s) (commit_writes s) ?st) = 0"
    using head_roundtrip(1) [OF l] by (simp add: put_head_def [of "lh_n_update _ _"])
  fix m
  assume m: "m \<notin> log_area ?st (log_size s)"
  then have "m \<noteq> ?st" using log_inv_head(1) [OF assms(1)] by blast
  then show "apply_writes (disk s) (commit_writes s) m = apply_writes (disk s) (txn s) m"
    using body_outside [OF assms(1) order_refl] m by (simp add: apply_writes_cong)
qed

lemma crash_any:
  assumes "log_inv s" "binv s"
  shows "recovers_to s (apply_writes (disk s) (take k (commit_writes s)))
    (if k \<le> nlogged s then disk s else apply_writes (disk s) (txn s))"
proof -
  consider "k \<le> nlogged s" | "k > nlogged s \<and> k \<le> 2 * nlogged s + 1" | "k > 2 * nlogged s + 1" by linarith
  then show ?thesis
  proof cases
    case 1
    then show ?thesis using crash_before_header [OF assms(1)] by simp
  next
    case 2
    define j where "j = k - nlogged s - 1"
    have j: "k = nlogged s + 1 + j" "j \<le> nlogged s" using 2 by (auto simp: j_def)
    have "\<not> k \<le> nlogged s" using 2 by simp
    then show ?thesis unfolding if_not_P [OF \<open>\<not> k \<le> nlogged s\<close>] by (intro crash_after_header [OF assms j(2), folded j(1)])
  next
    case 3
    then have "take k (commit_writes s) = commit_writes s" by (intro take_all) (simp add: txn_def)
    then show ?thesis using crash_after_clear [OF assms] 3 by (simp del: apply_writes_simps)
  qed
qed

lemma recover_ok:
  assumes "log_inv s" "fresh r" "log_of sb s" "recovers_to s (disk r) e"
  shows "\<exists>u. initlog ROOTDEV sb r = Ok u \<and> log_inv u \<and> lh_n (lh u) = 0 \<and> blk u = disk u \<and>
    (\<forall>m. m \<notin> log_area (log_start s) (log_size s) \<longrightarrow> disk u m = e m)"
proof -
  have "okR (initlog ROOTDEV sb r) (\<lambda>u. kio u \<and> binv u \<and> log_inv u \<and> lh_n (lh u) = 0 \<and> blk u = disk u \<and>
    (\<forall>m. m \<noteq> sb_logstart sb \<longrightarrow> disk u m = recovered sb (disk r) m))"
    by (rule initlog_ok [OF assms(2)]) (use assms in \<open>auto simp: recovers_to_def Let_def log_inv_def\<close>)
  moreover have "recovered sb (disk r) m = e m" if "m \<notin> log_area (log_start s) (log_size s)" for m
    using assms(3,4) that by (simp add: recovers_to_def Let_def)
  moreover have "m \<noteq> sb_logstart sb" if "m \<notin> log_area (log_start s) (log_size s)" for m
    using log_inv_head(1) [OF assms(1)] assms(3) that by auto
  ultimately show ?thesis by (auto simp: okR_def)
qed

lemma commit_inv:
  assumes "log_inv s" "binv s" "log_step (clear_lh s)
    (\<lambda>m. if m \<in> home s ` {..<nlogged s} then brefs s m - 1 else brefs s m) (commit_writes s) t"
  shows "log_inv t" "lh_n (lh t) = 0"
proof -
  note d = log_stepD [OF assms(3)]
  have l: "length (disk s (log_start s)) = BSIZE" "0 \<le> lh_n (lh s)" "lh_n (lh s) \<le> int LOGSIZE"
    using assms(1,2) by (auto simp: binv_def log_inv_def)
  have "get32 0 (disk t (log_start s)) = 0" unfolding d(7)
    using head_roundtrip(1) [OF l] by (simp add: put_head_def [of "lh_n_update _ _"])
  moreover have "brefs t m \<le> brefs s m" for m by (simp add: d(4))
  then have "brefs t m < 2 ^ 32 - 1" "m \<in> log_area (log_start s) (log_size s) \<Longrightarrow> brefs t m = 0" for m
    using assms(1) unfolding log_inv_def by (metis le_less_trans, metis le_zero_eq)
  ultimately show "log_inv t" "lh_n (lh t) = 0"
    using assms(1) d(9-12) unfolding log_inv_def by (simp_all add: clear_lh_def)
qed


subsection \<open>Building and ending a transaction\<close>

text \<open>The view of the cache depends on the buffers, the disk and the running process only.\<close>

lemma cache_view:
  fixes s :: "'a kbio_scheme" and t :: "'b kbio_scheme"
  assumes "bufs t = bufs s" "disk t = disk s"
  shows "blk t = blk s" "brefs t = brefs s" "bowner t = bowner s" "binv t = binv s" "busy t = busy s"
    "my_pid t = my_pid s \<Longrightarrow> has_buf b n t = has_buf b n s"
proof -
  show e: "blk t = blk s" "brefs t = brefs s" "bowner t = bowner s"
    by (simp_all add: blk_def brefs_def bowner_def fun_eq_iff assms split: option.split)
  show "binv t = binv s" by (simp add: binv_def assms)
  show "busy t = busy s" by (simp add: busy_def e)
  show "my_pid t = my_pid s \<Longrightarrow> has_buf b n t = has_buf b n s" by (simp add: has_buf_def e assms)
qed

lemma log_slot_eq:
  assumes "inj_on (home s) {..<nlogged s}"
  shows "n \<in> home s ` {..<nlogged s} \<Longrightarrow> log_slot n (lh s) < nlogged s \<and> home s (log_slot n (lh s)) = n"
    "n \<notin> home s ` {..<nlogged s} \<Longrightarrow> log_slot n (lh s) = nlogged s"
proof -
  let ?f = "find_from (\<lambda>m. m = n) (lh_block (lh s)) 0 (nlogged s)"
  show "log_slot n (lh s) < nlogged s \<and> home s (log_slot n (lh s)) = n" if "n \<in> home s ` {..<nlogged s}"
  proof (cases ?f)
    case None
    then show ?thesis using that by (auto simp: find_from_None)
  next
    case (Some j)
    then have "log_slot n (lh s) = j" by (simp add: log_slot_def)
    then show ?thesis using Some by (simp add: find_from_Some)
  qed
  show "log_slot n (lh s) = nlogged s" if "n \<notin> home s ` {..<nlogged s}"
  proof -
    have "?f = None" unfolding find_from_None using that by auto
    then show ?thesis by (simp add: log_slot_def)
  qed
qed

text \<open>Logging a block that is new to the transaction pins it and appends it to the header.\<close>

lemma log_write_new:
  assumes "kio s" "log_lock \<notin> set (held s)" "binv s" "log_inv s" "has_buf b n s" "1 \<le> outstanding s"
    "n \<notin> home s ` {..<nlogged s}" "lh_n (lh s) < int LOGSIZE" "lh_n (lh s) < log_size s - 1" "brefs s n < 2 ^ 32 - 1"
  defines "h \<equiv> \<lparr>lh_n = lh_n (lh s) + 1, lh_block = (lh_block (lh s))[nlogged s := n]\<rparr>"
  shows "okR (log_write b s) (\<lambda>t. kio t \<and> binv t \<and> bstep (s\<lparr>lh := h\<rparr>) t \<and> has_buf b n t \<and> blk t = blk s \<and>
    brefs t = (brefs s)(n := Suc (brefs s n)) \<and> bowner t = bowner s \<and> disk t = disk s \<and> dwrites t = dwrites s \<and>
    (\<forall>c m. m \<noteq> n \<longrightarrow> has_buf c m s \<longrightarrow> has_buf c m t))"
proof -
  have nn: "b_blockno (bufs s ! b) = n" using has_buf_inv [OF assms(3,5)] by simp
  have sl: "log_slot n (lh s) = nlogged s" using log_slot_eq(2) [of s n] assms(4,7) by (simp add: log_inv_def)
  have n0: "0 \<le> lh_n (lh s)" using assms(4) by (simp add: log_inv_def)
  have lhe: "(lh s)\<lparr>lh_block := x, lh_n := y\<rparr> = \<lparr>lh_n = y, lh_block = x\<rparr>" for x y by (cases "lh s") simp
  define u where "u = s\<lparr>held := log_lock # held s, lh := (lh s)\<lparr>lh_block := (lh_block (lh s))[nlogged s := n]\<rparr>\<rparr>"
  have pid: "my_pid u = my_pid s" by (simp add: u_def my_pid_def)
  have v: "blk u = blk s" "brefs u = brefs s" "bowner u = bowner s" "binv u" "has_buf b n u" "dwrites u = dwrites s" "disk u = disk s"
    using cache_view [of u s] assms(3,5) pid by (simp_all add: u_def)
  have ku: "kio u" using assms(1) by (auto simp: kio_def kenv_def u_def)
  obtain w where w: "bpin b u = Ok w" "has_buf b n w" "kio w \<and> binv w" "bstep u w" "my_pid w = my_pid u" "blk w = blk u"
    "brefs w = (brefs u)(n := Suc (brefs u n))" "bowner w = (bowner u)(n := Some (my_pid u))" "disk w = disk u" "dwrites w = dwrites u"
    "\<forall>c m. m \<noteq> n \<longrightarrow> has_buf c m u \<longrightarrow> has_buf c m w"
    using bc.pin_ok [of u b n] v ku assms(10) by auto
  obtain bs ps dk ws where e: "w = u\<lparr>procs := ps, bufs := bs, disk := dk, dwrites := ws\<rparr>" "woken (procs u) ps"
    using w(4) unfolding bstep_def by (elim exE conjE) (rule that, assumption+)
  define t where "t = w\<lparr>held := held s, lh := h\<rparr>"
  have te: "t = s\<lparr>lh := h, procs := ps, bufs := bs, disk := dk, dwrites := ws\<rparr>" by (simp add: t_def e u_def)
  have "log_write b s = Ok t"
    unfolding log_write_def using assms(2,6,8,9) w(1) n0
    by (simp add: lock_simps nn sl Let_def t_def h_def u_def e lhe)
  moreover have "bstep (s\<lparr>lh := h\<rparr>) t" unfolding bstep_def
    by (rule exI [of _ bs], rule exI [of _ ps], rule exI [of _ dk], rule exI [of _ ws]) (use te e(2) in \<open>simp add: u_def\<close>)
  moreover have "kio t" using w(3) assms(1) by (auto simp: kio_def kenv_def t_def)
  moreover have "my_pid t = my_pid w" by (simp add: t_def my_pid_def)
  moreover have "bowner s n = Some (my_pid s)" using assms(5) by (simp add: has_buf_def)
  moreover have "has_buf c m t" if "m \<noteq> n" "has_buf c m s" for c m
    using w(11) that cache_view(6) [of u s c m] cache_view(6) [of t w c m] pid by (simp add: u_def t_def my_pid_def)
  ultimately show ?thesis
    using cache_view [of t w] w(2,3,6-10) v(1-3,6,7) pid by (auto simp: t_def fun_upd_idem)
qed

text \<open>Logging a block again changes nothing.\<close>

lemma log_write_again:
  assumes "kio s" "log_lock \<notin> set (held s)" "binv s" "log_inv s" "has_buf b n s" "1 \<le> outstanding s"
    "n \<in> home s ` {..<nlogged s}" "lh_n (lh s) < int LOGSIZE" "lh_n (lh s) < log_size s - 1"
  shows "log_write b s = Ok s"
proof -
  have nn: "b_blockno (bufs s ! b) = n" using has_buf_inv [OF assms(3,5)] by simp
  have sl: "log_slot n (lh s) < nlogged s" "home s (log_slot n (lh s)) = n"
    using log_slot_eq(1) [of s n] assms(4,7) by (simp_all add: log_inv_def)
  have "(lh_block (lh s))[log_slot n (lh s) := n] = lh_block (lh s)" using sl(2) by (metis list_update_id)
  moreover have "int (log_slot n (lh s)) \<noteq> lh_n (lh s)" using sl(1) by simp
  ultimately show ?thesis unfolding log_write_def using assms(2,6,8,9) by (simp add: lock_simps nn Let_def)
qed

lemma log_write_inv:
  fixes t :: "'a klog_scheme"
  assumes "log_inv s" "n \<notin> home s ` {..<nlogged s}" "n \<notin> log_area (log_start s) (log_size s)"
    "lh_n (lh s) < int LOGSIZE" "lh_n (lh s) < log_size s - 1" "brefs s n < 2 ^ 32 - 2"
    "lh t = \<lparr>lh_n = lh_n (lh s) + 1, lh_block = (lh_block (lh s))[nlogged s := n]\<rparr>"
    "brefs t = (brefs s)(n := Suc (brefs s n))" "disk t = disk s"
    "log_start t = log_start s" "log_size t = log_size s" "log_dev t = log_dev s"
  shows "log_inv t" "home t ` {..<nlogged t} = insert n (home s ` {..<nlogged s})" "nlogged t = Suc (nlogged s)"
proof -
  have i: "length (lh_block (lh s)) = LOGSIZE" "0 \<le> lh_n (lh s)" "inj_on (home s) {..<nlogged s}"
    "\<forall>m. brefs s m < 2 ^ 32 - 1" using assms(1) by (simp_all add: log_inv_def)
  show n: "nlogged t = Suc (nlogged s)" using assms(7) i(2) by simp
  have h: "home t i = (if i = nlogged s then n else home s i)" if "i < nlogged t" for i
    using that n assms(4,7) i(1,2) by (simp add: nth_list_update)
  show im: "home t ` {..<nlogged t} = insert n (home s ` {..<nlogged s})"
  proof -
    have "home t ` {..<nlogged t} = (\<lambda>i. if i = nlogged s then n else home s i) ` {..<nlogged t}" using h by (intro image_cong) auto
    also have "\<dots> = insert n (home s ` {..<nlogged s})" unfolding n lessThan_Suc by auto
    finally show ?thesis .
  qed
  have "inj_on (home t) {..<nlogged t}"
    using inj_on_cong [of "{..<nlogged t}" "home t" "\<lambda>i. if i = nlogged s then n else home s i"] h i(3) assms(2) unfolding n
    by (auto simp: inj_on_def less_Suc_eq)
  moreover have "m \<notin> log_area (log_start s) (log_size s) \<and> brefs t m \<noteq> 0" if "m \<in> home t ` {..<nlogged t}" for m
  proof (cases "m = n")
    case True
    then show ?thesis using assms(3,8) by simp
  next
    case False
    then have "m \<in> home s ` {..<nlogged s}" using that im by simp
    then show ?thesis using assms(1,8) False by (auto simp: log_inv_def)
  qed
  moreover have "brefs t m < 2 ^ 32 - 1" for m using i(4) assms(6,8) by simp
  moreover have "brefs t m = 0" if "m \<in> log_area (log_start s) (log_size s)" for m
    using that assms(1,3,8) by (auto simp: log_inv_def)
  ultimately show "log_inv t" unfolding log_inv_def using assms by (auto simp: log_inv_def)
qed


lemma apply_writes_self: "(\<And>n b. (n, b) \<in> set ws \<Longrightarrow> d n = b) \<Longrightarrow> apply_writes d ws = d"
  by (induction ws) (auto simp: fun_upd_idem)

text \<open>What a commit does outside the log, with an empty or non-empty transaction.\<close>

lemma commit_effect:
  fixes s :: "'a klog_scheme"
  assumes "kio s" "binv s" "log_inv s" "\<forall>i<nlogged s. bowner s (home s i) = None" "card (busy s) < NBUF"
  shows "\<exists>t. commit s = Ok t \<and> kio t \<and> binv t \<and> bstep (clear_lh s) t \<and> log_inv t \<and>
    (\<forall>m. m \<notin> log_area (log_start s) (log_size s) \<longrightarrow> disk t m = apply_writes (disk s) (txn s) m \<and> blk t m = blk s m)"
proof (cases "lh_n (lh s) = 0")
  case True
  then have "clear_lh s = s" by (simp add: clear_lh_def)
  then show ?thesis using True assms by (intro exI [of _ s]) (simp add: commit_def txn_def)
next
  case False
  then have "0 < lh_n (lh s)" using assms(3) by (simp add: log_inv_def)
  then obtain t where t: "commit s = Ok t" "log_step (clear_lh s)
    (\<lambda>m. if m \<in> home s ` {..<nlogged s} then brefs s m - 1 else brefs s m) (commit_writes s) t"
    using commit_ok [OF assms] by (auto simp: okR_def)
  note d = log_stepD [OF t(2)]
  have "disk t m = apply_writes (disk s) (txn s) m \<and> blk t m = blk s m" if m: "m \<notin> log_area (log_start s) (log_size s)" for m
  proof -
    have st: "m \<noteq> log_start s" using that log_inv_head(1) [OF assms(3)] by blast
    have self: "apply_writes (blk s) (txn s) = blk s" by (rule apply_writes_self) (auto simp: txn_def writes_def)
    have "blk t m = apply_writes (blk s) (txn s) m" unfolding d(6)
      using body_outside [OF assms(3) order_refl] m st by (simp add: apply_writes_cong clear_lh_def)
    moreover have "disk t m = apply_writes (disk s) (txn s) m" unfolding d(7)
      using body_outside [OF assms(3) order_refl] m st by (simp add: apply_writes_cong clear_lh_def)
    ultimately show ?thesis unfolding self by blast
  qed
  then show ?thesis using t(1) d(1-3) commit_inv [OF assms(3,2) t(2)] by blast
qed

lemma woken_sleepers:
  assumes "length ps = NPROC" "i < NPROC" "me \<noteq> Some i"
  shows "\<not> (p_state (wake_from c me NPROC ps ! i) = SLEEPING \<and> p_chan (wake_from c me NPROC ps ! i) = c)"
  using assms by (auto simp: nth_wake_from wake_def)


subsection \<open>A transaction on a booted machine\<close>

definition boot_klog :: "(uint32 \<Rightarrow> block) \<Rightarrow> klog" where
  "boot_klog d = kbio.extend (boot_kbio d)
     \<lparr>log_start = 2, log_size = 30, outstanding = 1, committing = False, log_dev = ROOTDEV,
      lh = \<lparr>lh_n = 0, lh_block = replicate LOGSIZE 0\<rparr>\<rparr>"

lemma boot_klog_simps [simp]:
  "bufs (boot_klog d) = replicate (Suc NBUF) bss_buf" "disk (boot_klog d) = d" "dwrites (boot_klog d) = []"
  "held (boot_klog d) = []" "cur (boot_klog d) = Some 0" "length (procs (boot_klog d)) = NPROC"
  "log_start (boot_klog d) = 2" "log_size (boot_klog d) = 30" "outstanding (boot_klog d) = 1" "\<not> committing (boot_klog d)"
  "log_dev (boot_klog d) = ROOTDEV" "lh (boot_klog d) = \<lparr>lh_n = 0, lh_block = replicate LOGSIZE 0\<rparr>"
  by (simp_all add: boot_klog_def kbio.extend_def boot_kbio_def bss_kmem_def bss_kproc_def kmem.extend_def kproc.extend_def)

lemma booted_log:
  assumes "\<forall>n. length (d n) = BSIZE" "get32 0 (d 2) = 0"
  shows "\<exists>s. binit (boot_klog d) = Ok s \<and> fresh s \<and> log_inv s \<and> blk s = d \<and> disk s = d \<and> bowner s = (\<lambda>_. None) \<and> busy s = {} \<and>
    held s = [] \<and> cur s = Some 0 \<and> log_start s = 2 \<and> log_size s = 30 \<and> outstanding s = 1 \<and> \<not> committing s \<and>
    lh s = \<lparr>lh_n = 0, lh_block = replicate LOGSIZE 0\<rparr>"
proof -
  obtain bs where bs: "binit (boot_klog d) = Ok ((boot_klog d)\<lparr>bufs := bs\<rparr>)" "binv ((boot_klog d)\<lparr>bufs := bs\<rparr>)"
    "list_all bss_like bs"
    using binit_spec [of "boot_klog d"] assms(1) boot_klog_simps(1,2) by metis
  define s where "s = (boot_klog d)\<lparr>bufs := bs\<rparr>"
  have "length bs = Suc NBUF" using bs(2) by (simp add: binv_def)
  then have f: "blk s = d" "brefs s = (\<lambda>_. 0)" "bowner s = (\<lambda>_. None)" "busy s = {}"
    using fresh_cache [of s] bs(3) by (simp_all add: s_def)
  have "kio s" by (simp add: kio_def kenv_def s_def)
  then have "fresh s" using f(2) bs(2) by (simp add: fresh_def s_def)
  moreover have "log_inv s" using assms(2) f(2) by (simp add: log_inv_def s_def)
  ultimately show ?thesis using bs(1) f by (intro exI [of _ s]) (simp add: s_def)
qed

text \<open>One block read, changed, logged and released.\<close>

lemma one_block_logged:
  assumes "fresh s" "log_inv s" "held s = []" "outstanding s = 1" "lh_n (lh s) = 0" "log_size s = 30"
    "n \<notin> log_area (log_start s) (log_size s)" "length d = BSIZE"
  shows "\<exists>b t u v. bread ROOTDEV n s = Ok (b, t) \<and> log_write b (set_data b d t) = Ok u \<and> brelse b u = Ok v \<and>
    kio v \<and> held v = [] \<and> cur v = cur s \<and> binv v \<and> log_inv v \<and> nlogged v = 1 \<and> home v ` {..<nlogged v} = {n} \<and>
    bowner v = (\<lambda>_. None) \<and> busy v = {n} \<and> blk v = (blk s)(n := d) \<and> disk v = disk s \<and> dwrites v = dwrites s \<and>
    outstanding v = 1 \<and> committing v = committing s \<and> log_start v = log_start s \<and> log_size v = log_size s"
proof -
  have k: "kio s" "binv s" "brefs s = (\<lambda>_. 0)" "busy s = {}" using assms(1) by (auto simp: fresh_def busy_def)
  then have o: "bowner s = (\<lambda>_. None)" using unused_owner [of s] by (intro ext) simp
  obtain b t where t: "bread ROOTDEV n s = Ok (b, t)" "has_buf b n t" "kio t \<and> binv t" "bstep s t" "blk t = blk s"
    "brefs t = (brefs s)(n := Suc (brefs s n))" "bowner t = (bowner s)(n := Some (my_pid s))" "disk t = disk s" "dwrites t = dwrites s"
    "my_pid t = my_pid s"
    using bc.rd_ok [of s n] k o by auto
  define p where "p = set_data b d t"
  have p: "has_buf b n p" "kio p \<and> binv p" "bstep t p" "blk p = (blk s)(n := d)" "brefs p = brefs t"
    "bowner p = (bowner t)(n := Some (my_pid t))" "disk p = disk t" "dwrites p = dwrites t"
    using bc.put_ok [OF t(3,2) assms(8) p_def] t(5) by auto
  have sp: "bstep s p" by (rule bstep_trans [OF t(4) p(3)])
  note l = bstep_log [OF sp] and hs = bstep_sel [OF sp]
  have li: "log_inv p" using assms(2,7) k(3) t(6,8) p(5,7) l by (auto simp: log_inv_def assms(5))
  let ?h = "\<lparr>lh_n = lh_n (lh p) + 1, lh_block = (lh_block (lh p))[nlogged p := n]\<rparr>"
  have new: "n \<notin> home p ` {..<nlogged p}" "brefs p n = 1" using l(4) assms(5) k(3) t(6) p(5) by simp_all
  obtain u where u: "log_write b p = Ok u" "kio u" "binv u" "bstep (p\<lparr>lh := ?h\<rparr>) u" "has_buf b n u" "blk u = blk p"
    "brefs u = (brefs p)(n := Suc (brefs p n))" "bowner u = bowner p" "disk u = disk p" "dwrites u = dwrites p"
    using log_write_new [of p b n] p li new l assms(3-6) hs by (auto simp: okR_def)
  note lu = bstep_log [OF u(4), simplified]
  have ui: "log_inv u" "home u ` {..<nlogged u} = insert n (home p ` {..<nlogged p})" "nlogged u = Suc (nlogged p)"
    using log_write_inv [OF li new(1) _ _ _ _ lu(4) u(7,9) lu(1-3)] assms(5,6,7) l new(2) by simp_all
  have ru: "brefs u n = 2" using u(7) new(2) by simp
  then obtain v where v: "brelse b u = Ok v" "kio v \<and> binv v" "bstep u v" "blk v = blk u" "brefs v = (brefs u)(n := brefs u n - 1)"
    "bowner v = (bowner u)(n := None)" "disk v = disk u" "dwrites v = dwrites u"
    using bc.rel_ok [of u b n] u(2,3,5) by auto
  note lv = bstep_log [OF v(3)] and hv = bstep_sel [OF v(3)] and hu = bstep_sel [OF u(4)]
  have rv: "brefs v = (\<lambda>_. 0)(n := 1)" using v(5) ru u(7) p(5) t(6) k(3) by (simp add: fun_eq_iff)
  have "log_inv v" using ui(1,2) lv v(7) rv l(4) lu(1,2) assms(2,5,7) unfolding log_inv_def
    by (auto simp: l u(9))
  moreover have "busy v = {n}" using rv by (auto simp: busy_def)
  moreover have "bowner v = (\<lambda>_. None)" using v(6) u(8) p(6) t(7) o by (simp add: fun_eq_iff)
  moreover have "nlogged v = 1" "home v ` {..<nlogged v} = {n}" using lv(4) ui(2,3) l(4) assms(5) by simp_all
  moreover have "held v = []" "cur v = cur s" using hv hu hs assms(3) by simp_all
  ultimately show ?thesis
    using t(1) u(1) v(1,2,4,7,8) u(6,9,10) p(4,7,8) t(8,9) lv lu l assms(4)
    by (intro exI [of _ b] exI [of _ t] exI [of _ u] exI [of _ v]) (simp add: p_def)
qed

lemma zero_head: "get32 0 (replicate BSIZE 0) = 0"
  by (simp add: get32_def get_at_def)

subsection \<open>Properties\<close>

text \<open>
  C1: A transaction is atomic under crashes.  Committing succeeds, puts the new contents of
  every logged block in its place on disk, and leaves an empty log.  If the machine stops after
  any number \<open>k\<close> of the disk writes that \<^verbatim>\<open>commit\<close> makes, then \<^verbatim>\<open>initlog\<close> at the next boot
  succeeds, leaves an empty log, and outside the log the disk is as before the transaction if
  the header had not been written, and as after all of the transaction otherwise.
\<close>

theorem commit_is_atomic:
  fixes s :: "'a klog_scheme"
  assumes "kio s" "binv s" "log_inv s" "\<forall>i<nlogged s. bowner s (home s i) = None" "card (busy s) < NBUF"
  shows "\<exists>t ws. commit s = Ok t \<and> log_inv t \<and> lh_n (lh t) = 0 \<and> dwrites t = dwrites s @ ws \<and>
    (\<forall>m. m \<notin> log_area (log_start s) (log_size s) \<longrightarrow> disk t m = apply_writes (disk s) (txn s) m) \<and>
    (\<forall>k sb (r :: 'b klog_scheme). fresh r \<longrightarrow> log_of sb s \<longrightarrow> disk r = apply_writes (disk s) (take k ws) \<longrightarrow>
      (\<exists>u. initlog ROOTDEV sb r = Ok u \<and> log_inv u \<and> lh_n (lh u) = 0 \<and> blk u = disk u \<and>
        (\<forall>m. m \<notin> log_area (log_start s) (log_size s) \<longrightarrow>
          disk u m = (if k \<le> nlogged s then disk s m else apply_writes (disk s) (txn s) m))))"
proof (cases "lh_n (lh s) = 0")
  case True
  have c: "commit s = Ok s" using True by (simp add: commit_def)
  have "recovers_to s (disk s) (disk s)" using assms(3) by (intro recovers_empty) (auto simp: log_inv_def)
  then have r: "\<exists>u. initlog ROOTDEV sb r = Ok u \<and> log_inv u \<and> lh_n (lh u) = 0 \<and> blk u = disk u \<and>
    (\<forall>m. m \<notin> log_area (log_start s) (log_size s) \<longrightarrow> disk u m = disk s m)" if "fresh r" "log_of sb s" "disk r = disk s"
    for sb and r :: "'b klog_scheme" using recover_ok [OF assms(3) that(1,2)] that(3) by simp
  have e: "apply_writes (disk s) (txn s) = disk s" using True by (simp add: txn_def)
  show ?thesis unfolding e if_cancel
    by (rule exI [of _ s], rule exI [of _ "[]"], intro conjI allI impI) (use c assms(3) True in simp_all, rule r, simp_all)
next
  case False
  then have "0 < lh_n (lh s)" using assms(3) by (simp add: log_inv_def)
  then obtain t where t: "commit s = Ok t" "log_step (clear_lh s)
    (\<lambda>m. if m \<in> home s ` {..<nlogged s} then brefs s m - 1 else brefs s m) (commit_writes s) t"
    using commit_ok [OF assms] by (auto simp: okR_def)
  note d = log_stepD [OF t(2)]
  have dk: "disk t m = apply_writes (disk s) (txn s) m" if "m \<notin> log_area (log_start s) (log_size s)" for m
  proof -
    have "m \<noteq> log_start s" using that log_inv_head(1) [OF assms(3)] by blast
    then show ?thesis unfolding d(7) using body_outside [OF assms(3) order_refl] that
      by (simp add: apply_writes_cong clear_lh_def)
  qed
  have r: "\<exists>u. initlog ROOTDEV sb r = Ok u \<and> log_inv u \<and> lh_n (lh u) = 0 \<and> blk u = disk u \<and>
    (\<forall>m. m \<notin> log_area (log_start s) (log_size s) \<longrightarrow> disk u m = (if k \<le> nlogged s then disk s else apply_writes (disk s) (txn s)) m)"
    if "fresh r" "log_of sb s" "disk r = apply_writes (disk s) (take k (commit_writes s))" for k sb and r :: "'b klog_scheme"
    by (rule recover_ok [OF assms(3) that(1,2)]) (use crash_any [OF assms(3,2)] that(3) in metis)
  show ?thesis
  proof (rule exI [of _ t], rule exI [of _ "commit_writes s"], intro conjI allI impI)
    show "dwrites t = dwrites s @ commit_writes s" using d(8) by (simp add: clear_lh_def)
    fix k sb and r :: "'b klog_scheme"
    assume "fresh r" "log_of sb s" "disk r = apply_writes (disk s) (take k (commit_writes s))"
    from r [OF this] show "\<exists>u. initlog ROOTDEV sb r = Ok u \<and> log_inv u \<and> lh_n (lh u) = 0 \<and> blk u = disk u \<and>
        (\<forall>m. m \<notin> log_area (log_start s) (log_size s) \<longrightarrow> disk u m = (if k \<le> nlogged s then disk s m else apply_writes (disk s) (txn s) m))"
      by (cases "k \<le> nlogged s") simp_all
  qed (use t(1) commit_inv [OF assms(3,2) t(2)] dk in simp_all)
qed

theorem commit_is_atomic_witness:
  "\<exists>s b t u v w. binit (boot_klog (\<lambda>_. replicate BSIZE 0)) = Ok s \<and> bread ROOTDEV 40 s = Ok (b, t) \<and>
    log_write b (set_data b (replicate BSIZE 1) t) = Ok u \<and> brelse b u = Ok v \<and> disk v 40 = replicate BSIZE 0 \<and>
    commit v = Ok w \<and> disk w 40 = replicate BSIZE 1"
proof -
  obtain s where s: "binit (boot_klog (\<lambda>_. replicate BSIZE 0)) = Ok s" "fresh s" "log_inv s" "disk s = (\<lambda>_. replicate BSIZE 0)"
    "held s = []" "outstanding s = 1" "lh_n (lh s) = 0" "log_size s = 30" "log_start s = 2"
    using booted_log [OF _ zero_head] by auto
  obtain b t u v where v: "bread ROOTDEV 40 s = Ok (b, t)" "log_write b (set_data b (replicate BSIZE 1) t) = Ok u" "brelse b u = Ok v"
    "kio v" "binv v" "log_inv v" "nlogged v = 1" "home v ` {..<nlogged v} = {40}" "bowner v = (\<lambda>_. None)" "busy v = {40}"
    "blk v = (blk s)(40 := replicate BSIZE 1)" "disk v = disk s" "log_start v = log_start s" "log_size v = log_size s"
    using one_block_logged [OF s(2,3,5-8), of 40 "replicate BSIZE 1"] s(8,9) by (auto simp: log_area_def)
  have h: "home v 0 = 40" using v(7,8) by (simp add: lessThan_Suc)
  then have "txn v = [(40, replicate BSIZE 1)]" using v(7,11) by (simp add: txn_def writes_def)
  moreover obtain w where "commit v = Ok w" "disk w 40 = apply_writes (disk v) (txn v) 40"
    using commit_is_atomic [OF v(4-6)] v(9,10,13,14) s(8,9) by (auto simp: log_area_def)
  ultimately show ?thesis using s v(1-3,12) by (intro exI conjI) auto
qed

text \<open>
  C10: \<^verbatim>\<open>log_write\<close> adds a block to the transaction at most once.  In a log with room, logging a
  block that is locked by the caller and lies outside the log succeeds; the set of logged blocks
  gains that block; a block that was already there takes no new slot and no new pin, a new one
  takes one of each; contents and disk are unchanged, and the invariant of the log is kept.
\<close>

theorem log_write_absorbs:
  assumes "kio s" "log_lock \<notin> set (held s)" "binv s" "log_inv s" "has_buf b n s" "1 \<le> outstanding s"
    "n \<notin> log_area (log_start s) (log_size s)" "lh_n (lh s) < int LOGSIZE" "lh_n (lh s) < log_size s - 1" "brefs s n < 2 ^ 32 - 2"
  shows "\<exists>t. log_write b s = Ok t \<and> kio t \<and> binv t \<and> log_inv t \<and> has_buf b n t \<and>
    home t ` {..<nlogged t} = insert n (home s ` {..<nlogged s}) \<and>
    nlogged t = nlogged s + (if n \<in> home s ` {..<nlogged s} then 0 else 1) \<and>
    brefs t = (brefs s)(n := brefs s n + (if n \<in> home s ` {..<nlogged s} then 0 else 1)) \<and>
    blk t = blk s \<and> bowner t = bowner s \<and> disk t = disk s \<and> dwrites t = dwrites s"
proof (cases "n \<in> home s ` {..<nlogged s}")
  case True
  then have "log_write b s = Ok s" using log_write_again [OF assms(1-6) _ assms(8,9)] by blast
  then show ?thesis using True assms(1,3,4,5) by (intro exI [of _ s]) (simp add: insert_absorb)
next
  case False
  let ?h = "\<lparr>lh_n = lh_n (lh s) + 1, lh_block = (lh_block (lh s))[nlogged s := n]\<rparr>"
  obtain t where t: "log_write b s = Ok t" "kio t" "binv t" "bstep (s\<lparr>lh := ?h\<rparr>) t" "has_buf b n t" "blk t = blk s"
    "brefs t = (brefs s)(n := Suc (brefs s n))" "bowner t = bowner s" "disk t = disk s" "dwrites t = dwrites s"
    using log_write_new [OF assms(1-6) False assms(8,9)] assms(10) by (auto simp: okR_def)
  note l = bstep_log [OF t(4), simplified]
  show ?thesis
    by (rule exI [of _ t]) (use log_write_inv [OF assms(4) False assms(7-10) l(4) t(7,9) l(1-3)] t False in simp)
qed

theorem log_write_absorbs_witness:
  "\<exists>s b t u. binit (boot_klog (\<lambda>_. replicate BSIZE 0)) = Ok s \<and> bread ROOTDEV 40 s = Ok (b, t) \<and> log_write b t = Ok u \<and>
    home u ` {..<nlogged u} = {40} \<and> brefs u 40 = 2"
proof -
  obtain s where s: "binit (boot_klog (\<lambda>_. replicate BSIZE 0)) = Ok s" "fresh s" "log_inv s" "bowner s = (\<lambda>_. None)" "busy s = {}"
    "held s = []" "outstanding s = 1" "lh_n (lh s) = 0" "log_size s = 30" "log_start s = 2"
    using booted_log [OF _ zero_head] by auto
  have k: "kio s" "binv s" "brefs s = (\<lambda>_. 0)" using s(2) by (simp_all add: fresh_def)
  obtain b t where t: "bread ROOTDEV 40 s = Ok (b, t)" "has_buf b 40 t" "kio t \<and> binv t" "bstep s t"
    "brefs t = (brefs s)(40 := Suc (brefs s 40))" "disk t = disk s"
    using bc.rd_ok [of s 40] k s(4,5) by auto
  note l = bstep_log [OF t(4)] and hs = bstep_sel [OF t(4)]
  have "log_inv t" using s(3,8-10) k(3) t(5,6) l by (auto simp: log_inv_def log_area_def)
  then obtain u where "log_write b t = Ok u" "home u ` {..<nlogged u} = insert 40 (home t ` {..<nlogged t})"
    "brefs u = (brefs t)(40 := brefs t 40 + (if 40 \<in> home t ` {..<nlogged t} then 0 else 1))"
    using log_write_absorbs [of t b 40] t(2,3,5) k(3) l hs s(6-10) by (auto simp: log_area_def)
  then show ?thesis using s(1,8) t(1,5) k(3) l(4) by (intro exI conjI) auto
qed

text \<open>
  C11: \<^verbatim>\<open>end_op\<close> commits exactly when the last operation ends.  It succeeds, counts the operation
  out and leaves no other process asleep on the log.  If other operations are outstanding, disk
  and transaction are untouched; if not, the transaction is committed: its blocks are in place
  on disk, the log is empty and further operations may start.
\<close>

theorem end_op_commits_last:
  fixes s :: "'a klog_scheme"
  assumes "kio s" "log_lock \<notin> set (held s)" "binv s" "log_inv s" "\<not> committing s" "1 \<le> outstanding s"
    "outstanding s = 1 \<longrightarrow> (\<forall>i<nlogged s. bowner s (home s i) = None) \<and> card (busy s) < NBUF"
  shows "\<exists>t. end_op s = Ok t \<and> kio t \<and> held t = held s \<and> binv t \<and> log_inv t \<and> \<not> committing t \<and> outstanding t = outstanding s - 1 \<and>
    (\<forall>i<NPROC. cur s \<noteq> Some i \<longrightarrow> \<not> (p_state (procs t ! i) = SLEEPING \<and> p_chan (procs t ! i) = Some log_chan)) \<and>
    (\<forall>m. m \<notin> log_area (log_start s) (log_size s) \<longrightarrow> blk t m = blk s m \<and>
      disk t m = (if outstanding s = 1 then apply_writes (disk s) (txn s) m else disk s m)) \<and>
    (if outstanding s = 1 then lh_n (lh t) = 0 else lh t = lh s \<and> dwrites t = dwrites s)"
proof -
  have env: "length (procs s) = NPROC" "plocks_free s" using assms(1) kenv_plocks by (auto simp: kio_def kenv_def)
  show ?thesis
  proof (cases "outstanding s = 1")
    case False
    define u where "u = s\<lparr>held := log_lock # held s, outstanding := outstanding s - 1\<rparr>"
    define t where "t = s\<lparr>outstanding := outstanding s - 1, procs := wake_from (Some log_chan) (cur s) NPROC (procs s)\<rparr>"
    have "wakeup (Some log_chan) u = Ok (u\<lparr>procs := wake_from (Some log_chan) (cur u) NPROC (procs u)\<rparr>)"
      by (rule wakeup_eq) (use env in \<open>simp_all add: u_def plocks_free_def\<close>)
    then have "end_op s = Ok t"
      unfolding end_op_def using assms(2,5,6) False by (simp add: lock_simps Let_def u_def) (simp add: t_def)
    moreover have "kio t" using assms(1) by (auto simp: kio_def kenv_def t_def)
    moreover note v = cache_view [of t s]
    moreover have "log_inv t" using assms(4) v(2) by (simp add: log_inv_def t_def)
    ultimately show ?thesis
      by (intro exI [of _ t]) (use assms(3,5) False woken_sleepers [OF env(1)] in \<open>auto simp: t_def\<close>)
  next
    case True
    define u where "u = s\<lparr>outstanding := 0, committing := True\<rparr>"
    have v: "blk u = blk s" "brefs u = brefs s" "bowner u = bowner s" "binv u" "busy u = busy s"
      using cache_view [of u s] assms(3) by (simp_all add: u_def)
    have ku: "kio u" "log_inv u" using assms(1,4) v(2) by (simp_all add: kio_def kenv_def log_inv_def u_def)
    obtain w where w: "commit u = Ok w" "kio w" "binv w" "bstep (clear_lh u) w" "log_inv w"
      "\<forall>m. m \<notin> log_area (log_start u) (log_size u) \<longrightarrow> disk w m = apply_writes (disk u) (txn u) m \<and> blk w m = blk u m"
      using commit_effect [OF ku(1) v(4) ku(2)] assms(7) True v(3,5) by (auto simp: u_def)
    have wf: "held w = held s" "cur w = cur s" "outstanding w = 0" "committing w" "lh w = (lh s)\<lparr>lh_n := 0\<rparr>"
      using w(4) bstep_log [OF w(4)] bstep_sel [OF w(4)] by (simp_all add: clear_lh_def u_def)
    have wenv: "length (procs w) = NPROC" "plocks_free w" using w(2) kenv_plocks by (auto simp: kio_def kenv_def)
    define x where "x = w\<lparr>held := log_lock # held w, committing := False\<rparr>"
    define t where "t = w\<lparr>committing := False, procs := wake_from (Some log_chan) (cur w) NPROC (procs w)\<rparr>"
    have "wakeup (Some log_chan) x = Ok (x\<lparr>procs := wake_from (Some log_chan) (cur x) NPROC (procs x)\<rparr>)"
      by (rule wakeup_eq) (use wenv in \<open>simp_all add: x_def plocks_free_def\<close>)
    then have "end_op s = Ok t"
      unfolding end_op_def using assms(2,5) True w(1) wf(1) by (simp add: lock_simps Let_def u_def x_def) (simp add: t_def)
    moreover have "kio t" using w(2) by (auto simp: kio_def kenv_def t_def)
    moreover note tv = cache_view [of t w]
    moreover have "log_inv t" using w(5) tv(2) by (simp add: log_inv_def t_def)
    moreover have "txn u = txn s" by (simp add: txn_def u_def v(1) [unfolded u_def])
    ultimately show ?thesis
      by (intro exI [of _ t]) (use w wf v True woken_sleepers [OF wenv(1)] in \<open>auto simp: t_def u_def\<close>)
  qed
qed

theorem end_op_commits_last_witness:
  "\<exists>s b t u v w. binit (boot_klog (\<lambda>_. replicate BSIZE 0)) = Ok s \<and> bread ROOTDEV 40 s = Ok (b, t) \<and>
    log_write b (set_data b (replicate BSIZE 1) t) = Ok u \<and> brelse b u = Ok v \<and> end_op v = Ok w \<and>
    disk w 40 = replicate BSIZE 1 \<and> outstanding w = 0"
proof -
  obtain s where s: "binit (boot_klog (\<lambda>_. replicate BSIZE 0)) = Ok s" "fresh s" "log_inv s" "disk s = (\<lambda>_. replicate BSIZE 0)"
    "held s = []" "outstanding s = 1" "lh_n (lh s) = 0" "log_size s = 30" "log_start s = 2" "\<not> committing s"
    using booted_log [OF _ zero_head] by auto
  obtain b t u v where v: "bread ROOTDEV 40 s = Ok (b, t)" "log_write b (set_data b (replicate BSIZE 1) t) = Ok u" "brelse b u = Ok v"
    "kio v" "held v = []" "binv v" "log_inv v" "nlogged v = 1" "home v ` {..<nlogged v} = {40}" "bowner v = (\<lambda>_. None)" "busy v = {40}"
    "blk v = (blk s)(40 := replicate BSIZE 1)" "log_start v = log_start s" "log_size v = log_size s" "outstanding v = 1"
    "committing v = committing s"
    using one_block_logged [OF s(2,3,5-8), of 40 "replicate BSIZE 1"] s(8,9) by (auto simp: log_area_def)
  have "home v 0 = 40" using v(8,9) by (simp add: lessThan_Suc)
  then have "txn v = [(40, replicate BSIZE 1)]" using v(8,12) by (simp add: txn_def writes_def)
  moreover obtain w where "end_op v = Ok w" "outstanding w = 0" "disk w 40 = apply_writes (disk v) (txn v) 40"
    using end_op_commits_last [of v] v s by (auto simp: log_area_def)
  ultimately show ?thesis using s v(1-3) by (intro exI conjI) auto
qed

subsection \<open>The reservation of log space\<close>

text \<open>
  \<^verbatim>\<open>begin_op\<close> admits a third operation when the log is empty, and each operation may log
  \<open>MAXOPBLOCKS\<close> blocks, but in a log of \<open>LOGSIZE\<close> blocks \<^verbatim>\<open>log_write\<close> panics when it is called
  with 29 blocks logged.
\<close>

lemma log_reservation_short:
  shows "log_lock \<notin> set (held s) \<Longrightarrow> \<not> committing s \<Longrightarrow> outstanding s = 2 \<Longrightarrow> lh_n (lh s) = 0 \<Longrightarrow>
      begin_op s = Ok (s\<lparr>outstanding := 3\<rparr>)"
    and "log_lock \<notin> set (held t) \<Longrightarrow> log_size t = int LOGSIZE \<Longrightarrow> lh_n (lh t) = 29 \<Longrightarrow>
      log_write b t = Panic ''too big a transaction''"
  by (simp_all add: begin_op_def log_write_def lock_simps)

end
