(* ===== verification/Procmem.thy ===== *)
theory Procmem
  imports Sleeplock Vm
begin

section \<open>Processes and their memory: \<^verbatim>\<open>kernel/proc.c\<close>\<close>

text \<open>
  The parts of \<^verbatim>\<open>proc.c\<close> that allocate and free processes with their trap frames and page
  tables, grow them, and copy between them and the kernel.  A trap frame is a page of
  physical memory whose 64-bit fields lie at the byte offsets noted in \<^verbatim>\<open>proc.h\<close>.  The
  physical address of the trampoline page, which the linker fixes, and that of
  \<^verbatim>\<open>forkret\<close> are arguments.
\<close>

subsection \<open>Trap frames\<close>

abbreviation (input) tf_kernel_satp :: uint64 where "tf_kernel_satp \<equiv> 0"
abbreviation (input) tf_kernel_sp :: uint64 where "tf_kernel_sp \<equiv> 8"
abbreviation (input) tf_kernel_trap :: uint64 where "tf_kernel_trap \<equiv> 16"
abbreviation (input) tf_epc :: uint64 where "tf_epc \<equiv> 24"
abbreviation (input) tf_kernel_hartid :: uint64 where "tf_kernel_hartid \<equiv> 32"
abbreviation (input) tf_sp :: uint64 where "tf_sp \<equiv> 48"
abbreviation (input) tf_a0 :: uint64 where "tf_a0 \<equiv> 112"
abbreviation (input) tf_a1 :: uint64 where "tf_a1 \<equiv> 120"
abbreviation (input) tf_a7 :: uint64 where "tf_a7 \<equiv> 168"

text \<open>\<^verbatim>\<open>sizeof(struct trapframe)\<close>: 36 words.\<close>

abbreviation (input) TF_SIZE :: nat where "TF_SIZE \<equiv> 288"

definition tf_get :: "nat \<Rightarrow> uint64 \<Rightarrow> 'a kmem_scheme \<Rightarrow> uint64" where
  "tf_get p off s = load64 (mem s) (p_trapframe (procs s ! p) + off)"

definition tf_set :: "nat \<Rightarrow> uint64 \<Rightarrow> uint64 \<Rightarrow> 'a kmem_scheme \<Rightarrow> 'a kmem_scheme" where
  "tf_set p off v s = s\<lparr>mem := store64 (mem s) (p_trapframe (procs s ! p) + off) v\<rparr>"

subsection \<open>Copies between a process and the kernel\<close>

text \<open>
  \<^verbatim>\<open>either_copyout\<close> and \<^verbatim>\<open>either_copyin\<close>, \<open>tot\<close> bytes after an address: a user address, a kernel address in
  physical memory, or the address of a local variable of the caller, which is the bytes of that
  variable and is returned with the bytes copied stored in it.  Bytes outside a local variable
  are an access C leaves undefined.
\<close>

datatype dst = DUser uint64 | DKern uint64 | DLocal "uint8 list"
datatype src = SUser uint64 | SKern uint64 | SLocal "uint8 list"

fun local_bytes :: "dst \<Rightarrow> uint8 list" where
  "local_bytes (DLocal v) = v"
| "local_bytes _ = []"

definition either_copyout :: "dst \<Rightarrow> uint64 \<Rightarrow> uint8 list \<Rightarrow> 'a kmem_scheme \<Rightarrow> (int \<times> dst \<times> 'a kmem_scheme) res" where
  "either_copyout d tot bs s =
     (case d of
        DUser a \<Rightarrow> bindR (myproc s) (\<lambda>p.
          bindR (copyout (p_pagetable (procs s ! p)) (a + tot) bs s) (\<lambda>(r, s). Ok (r, d, s)))
      | DKern a \<Rightarrow> Ok (0, d, s\<lparr>mem := mem_put (mem s) (a + tot) bs\<rparr>)
      | DLocal v \<Rightarrow> if unat tot + length bs \<le> length v then Ok (0, DLocal (put_at (unat tot) bs v), s) else Undef)"

definition either_copyin :: "src \<Rightarrow> uint64 \<Rightarrow> nat \<Rightarrow> 'a kmem_scheme \<Rightarrow> (int \<times> uint8 list) res" where
  "either_copyin a tot len s =
     (case a of
        SUser v \<Rightarrow> bindR (myproc s) (\<lambda>p. copyin (p_pagetable (procs s ! p)) (v + tot) len s)
      | SKern v \<Rightarrow> Ok (0, mem_get (mem s) (v + tot) len)
      | SLocal v \<Rightarrow> if unat tot + len \<le> length v then Ok (0, get_at (unat tot) len v) else Undef)"

subsection \<open>Page tables of processes\<close>

definition proc_pagetable :: "uint64 \<Rightarrow> uint64 \<Rightarrow> 'a kmem_scheme \<Rightarrow> (uint64 \<times> 'a kmem_scheme) res" where
  "proc_pagetable trampoline trapframe s =
     bindR (uvmcreate s) (\<lambda>(pt, s).
     if pt = 0 then Ok (0, s)
     else bindR (mappages pt TRAMPOLINE PGSIZE trampoline (PTE_R OR PTE_X) s) (\<lambda>(r, s).
     if r < 0 then bindR (uvmfree pt 0 s) (\<lambda>s. Ok (0, s))
     else bindR (mappages pt TRAPFRAME PGSIZE trapframe (PTE_R OR PTE_W) s) (\<lambda>(r, s).
     if r < 0
     then bindR (uvmunmap pt TRAMPOLINE 1 False s) (\<lambda>s.
          bindR (uvmfree pt 0 s) (\<lambda>s. Ok (0, s)))
     else Ok (pt, s))))"

definition proc_freepagetable :: "uint64 \<Rightarrow> uint64 \<Rightarrow> 'a kmem_scheme \<Rightarrow> 'a kmem_scheme res" where
  "proc_freepagetable pt sz s =
     bindR (uvmunmap pt TRAMPOLINE 1 False s) (\<lambda>s.
     bindR (uvmunmap pt TRAPFRAME 1 False s) (\<lambda>s.
     uvmfree pt sz s))"

subsection \<open>Allocating and freeing processes\<close>

definition freeproc :: "nat \<Rightarrow> 'a kmem_scheme \<Rightarrow> 'a kmem_scheme res" where
  "freeproc p s =
     bindR (if p_trapframe (procs s ! p) \<noteq> 0 then kfree (p_trapframe (procs s ! p)) s else Ok s) (\<lambda>s.
     let s = upd_proc p (\<lambda>q. q\<lparr>p_trapframe := 0\<rparr>) s in
     bindR (if p_pagetable (procs s ! p) \<noteq> 0
            then proc_freepagetable (p_pagetable (procs s ! p)) (p_sz (procs s ! p)) s else Ok s) (\<lambda>s.
     Ok (upd_proc p (\<lambda>q. q\<lparr>p_pagetable := 0, p_sz := 0, p_pid := 0, p_parent := None,
           p_name := (p_name q)[0 := 0], p_chan := None, p_killed := False, p_xstate := 0,
           p_state := UNUSED\<rparr>) s)))"

definition allocproc_at :: "nat \<Rightarrow> 'a kmem_scheme \<Rightarrow> (nat option \<times> 'a kmem_scheme) res" where
  "allocproc_at p s =
     bindR (acquire (plock p) s) (\<lambda>s.
     if p_state (procs s ! p) = UNUSED then Ok (Some p, s)
     else bindR (release (plock p) s) (\<lambda>s. Ok (None, s)))"

definition allocproc :: "uint64 \<Rightarrow> uint64 \<Rightarrow> 'a kmem_scheme \<Rightarrow> (nat option \<times> 'a kmem_scheme) res" where
  "allocproc trampoline forkret s =
     bindR (foreach_ret allocproc_at 0 NPROC s) (\<lambda>(r, s).
     case r of
       None \<Rightarrow> Ok (None, s)
     | Some p \<Rightarrow>
         bindR (allocpid s) (\<lambda>(pid, s).
         let s = upd_proc p (\<lambda>q. q\<lparr>p_pid := pid, p_state := USED\<rparr>) s in
         bindR (kalloc s) (\<lambda>(tf, s).
         let s = upd_proc p (\<lambda>q. q\<lparr>p_trapframe := tf\<rparr>) s in
         if tf = 0 then bindR (freeproc p s) (\<lambda>s. bindR (release (plock p) s) (\<lambda>s. Ok (None, s)))
         else bindR (proc_pagetable trampoline tf s) (\<lambda>(pt, s).
              let s = upd_proc p (\<lambda>q. q\<lparr>p_pagetable := pt\<rparr>) s in
              if pt = 0 then bindR (freeproc p s) (\<lambda>s. bindR (release (plock p) s) (\<lambda>s. Ok (None, s)))
              else Ok (Some p, upd_proc p (\<lambda>q. q\<lparr>p_context :=
                \<lparr>ctx_ra = forkret, ctx_sp = p_kstack q + PGSIZE, ctx_s = replicate 12 0\<rparr>\<rparr>) s)))))"

text \<open>\<^verbatim>\<open>growproc\<close> keeps the size in a 32-bit \<^verbatim>\<open>uint\<close>; \<open>n\<close> is the bits of the \<^verbatim>\<open>int\<close>.\<close>

definition growproc :: "uint32 \<Rightarrow> 'a kmem_scheme \<Rightarrow> (int \<times> 'a kmem_scheme) res" where
  "growproc n s =
     bindR (myproc s) (\<lambda>p.
     let sz = ucast (p_sz (procs s ! p)) :: uint32; pt = p_pagetable (procs s ! p);
         set_sz = (\<lambda>sz s. Ok (0, upd_proc p (\<lambda>q. q\<lparr>p_sz := ucast (sz :: uint32)\<rparr>) s)) in
     if sint n > 0
     then bindR (uvmalloc pt (ucast sz) (ucast (sz + n)) s) (\<lambda>(r, s).
          if (ucast r :: uint32) = 0 then Ok (-1, s) else set_sz (ucast r) s)
     else if sint n < 0
     then bindR (uvmdealloc pt (ucast sz) (ucast (sz + n)) s) (\<lambda>(r, s). set_sz (ucast r) s)
     else set_sz sz s)"

end
