(* ===== verification/Fs.thy ===== *)
theory Fs
  imports Log Procmem
begin

section \<open>The file system: \<^verbatim>\<open>kernel/fs.c\<close>\<close>

text \<open>
  Blocks, inodes, file contents, directories and path names, on top of the log and the
  buffer cache.  An in-memory inode is named by its index in \<open>inodes\<close>; the structures on
  disk are byte fields of blocks.  A C string is the list of its bytes before the NUL.
\<close>

abbreviation (input) NINODE :: nat where "NINODE \<equiv> 50"
abbreviation (input) NDIRECT :: nat where "NDIRECT \<equiv> 12"
abbreviation (input) NINDIRECT :: nat where "NINDIRECT \<equiv> 256"
abbreviation (input) DIRSIZ :: nat where "DIRSIZ \<equiv> 14"
abbreviation (input) FSMAGIC :: uint32 where "FSMAGIC \<equiv> 0x10203040"
abbreviation (input) ROOTINO :: uint32 where "ROOTINO \<equiv> 1"
abbreviation (input) IPB :: uint32 where "IPB \<equiv> 16"
abbreviation (input) BPB :: uint32 where "BPB \<equiv> 8192"
abbreviation (input) T_DIR :: uint16 where "T_DIR \<equiv> 1"
abbreviation (input) T_FILE :: uint16 where "T_FILE \<equiv> 2"
abbreviation (input) T_DEVICE :: uint16 where "T_DEVICE \<equiv> 3"

subsection \<open>State\<close>

record inode =
  i_dev :: uint32
  i_inum :: uint32
  i_ref :: int
  i_lock :: sleeplock
  i_valid :: bool
  i_type :: uint16
  i_major :: uint16
  i_minor :: uint16
  i_nlink :: uint16
  i_size :: uint32
  i_addrs :: "uint32 list"

record kfs = klog +
  sb :: superblock
  inodes :: "inode list"

abbreviation (input) itable_lock :: lockid where "itable_lock \<equiv> Lock ''itable'' 0"
abbreviation (input) inode_lock :: "nat \<Rightarrow> lockid" where "inode_lock i \<equiv> Lock ''inode'' i"
abbreviation (input) inode_chan :: "nat \<Rightarrow> chan" where "inode_chan i \<equiv> Chan ''inode'' i"

definition upd_inode :: "nat \<Rightarrow> (inode \<Rightarrow> inode) \<Rightarrow> 'a kfs_scheme \<Rightarrow> 'a kfs_scheme" where
  "upd_inode i f s = s\<lparr>inodes := (inodes s)[i := f (inodes s ! i)]\<rparr>"

definition optR :: "'a option \<Rightarrow> 'a res" where
  "optR x = (case x of None \<Rightarrow> Undef | Some y \<Rightarrow> Ok y)"

definition IBLOCK :: "uint32 \<Rightarrow> superblock \<Rightarrow> uint32" where
  "IBLOCK i b = i div IPB + sb_inodestart b"

definition BBLOCK :: "uint32 \<Rightarrow> superblock \<Rightarrow> uint32" where
  "BBLOCK n b = n div BPB + sb_bmapstart b"

subsection \<open>The super block\<close>

definition get_sb :: "block \<Rightarrow> superblock" where
  "get_sb d = \<lparr>sb_magic = get32 0 d, sb_size = get32 4 d, sb_nblocks = get32 8 d, sb_ninodes = get32 12 d,
     sb_nlog = get32 16 d, sb_logstart = get32 20 d, sb_inodestart = get32 24 d, sb_bmapstart = get32 28 d\<rparr>"

definition readsb :: "uint32 \<Rightarrow> 'a kfs_scheme \<Rightarrow> 'a kfs_scheme res" where
  "readsb dev s =
     bindR (bread dev 1 s) (\<lambda>(b, s).
     brelse b (s\<lparr>sb := get_sb (bdata b s)\<rparr>))"

definition fsinit :: "uint32 \<Rightarrow> 'a kfs_scheme \<Rightarrow> 'a kfs_scheme res" where
  "fsinit dev s =
     bindR (readsb dev s) (\<lambda>s.
     if sb_magic (sb s) \<noteq> FSMAGIC then Panic ''invalid file system''
     else initlog dev (sb s) s)"

subsection \<open>Blocks\<close>

definition bzero :: "uint32 \<Rightarrow> uint32 \<Rightarrow> 'a kfs_scheme \<Rightarrow> 'a kfs_scheme res" where
  "bzero dev bno s =
     bindR (bread dev bno s) (\<lambda>(b, s).
     bindR (log_write b (set_data b (replicate BSIZE 0) s)) (brelse b))"

definition bit_mask :: "nat \<Rightarrow> uint8" where
  "bit_mask bi = push_bit (bi mod 8) 1"

text \<open>The inner loop of \<^verbatim>\<open>balloc\<close>: the first of \<open>n\<close> bits from \<open>bi\<close> on that is clear.\<close>

fun first_clear :: "block \<Rightarrow> nat \<Rightarrow> nat \<Rightarrow> nat option" where
  "first_clear d bi 0 = None"
| "first_clear d bi (Suc n) =
     (if d ! (bi div 8) AND bit_mask bi = 0 then Some bi else first_clear d (Suc bi) n)"

definition balloc_at :: "uint32 \<Rightarrow> nat \<Rightarrow> 'a kfs_scheme \<Rightarrow> (uint32 option \<times> 'a kfs_scheme) res" where
  "balloc_at dev k s =
     (let b = unat BPB * k in
      bindR (bread dev (BBLOCK (of_nat b) (sb s)) s) (\<lambda>(bp, s).
      case first_clear (bdata bp s) 0 (min (unat BPB) (unat (sb_size (sb s)) - b)) of
        Some bi \<Rightarrow>
          let d = bdata bp s; s = set_data bp (d[bi div 8 := d ! (bi div 8) OR bit_mask bi]) s in
          bindR (log_write bp s) (\<lambda>s.
          bindR (brelse bp s) (\<lambda>s.
          bindR (bzero dev (of_nat (b + bi)) s) (\<lambda>s.
          Ok (Some (of_nat (b + bi)), s))))
      | None \<Rightarrow> bindR (brelse bp s) (\<lambda>s. Ok (None, s))))"

text \<open>\<^verbatim>\<open>for(b = 0; b < sb.size; b += BPB)\<close>: one round per block of the bitmap.\<close>

definition balloc :: "uint32 \<Rightarrow> 'a kfs_scheme \<Rightarrow> (uint32 \<times> 'a kfs_scheme) res" where
  "balloc dev s =
     bindR (foreach_ret (balloc_at dev) 0 ((unat (sb_size (sb s)) + unat BPB - 1) div unat BPB) s) (\<lambda>(r, s).
     case r of Some n \<Rightarrow> Ok (n, s) | None \<Rightarrow> Panic ''balloc: out of blocks'')"

definition bfree :: "uint32 \<Rightarrow> uint32 \<Rightarrow> 'a kfs_scheme \<Rightarrow> 'a kfs_scheme res" where
  "bfree dev n s =
     bindR (bread dev (BBLOCK n (sb s)) s) (\<lambda>(bp, s).
     let d = bdata bp s; bi = unat (n mod BPB) in
     if d ! (bi div 8) AND bit_mask bi = 0 then Panic ''freeing free block''
     else bindR (log_write bp (set_data bp (d[bi div 8 := d ! (bi div 8) AND NOT (bit_mask bi)]) s)) (brelse bp))"

subsection \<open>Inodes\<close>

text \<open>
  A \<^verbatim>\<open>struct dinode\<close> takes 64 bytes: type, major, minor and nlink, two bytes each, size, and
  the 13 block addresses.
\<close>

definition din_off :: "uint32 \<Rightarrow> nat" where
  "din_off inum = 64 * unat (inum mod IPB)"

definition get_addrs :: "nat \<Rightarrow> block \<Rightarrow> uint32 list" where
  "get_addrs off d = map (\<lambda>i. get32 (off + 12 + 4 * i) d) [0..<Suc NDIRECT]"

definition put_addrs :: "nat \<Rightarrow> uint32 list \<Rightarrow> block \<Rightarrow> block" where
  "put_addrs off as d = foldl (\<lambda>d i. put32 (off + 12 + 4 * i) (as ! i) d) d [0..<Suc NDIRECT]"

definition put_dinode :: "nat \<Rightarrow> inode \<Rightarrow> block \<Rightarrow> block" where
  "put_dinode off ip d =
     put_addrs off (i_addrs ip)
       (put32 (off + 8) (i_size ip) (put16 (off + 6) (i_nlink ip) (put16 (off + 4) (i_minor ip)
         (put16 (off + 2) (i_major ip) (put16 off (i_type ip) d)))))"

definition get_dinode :: "nat \<Rightarrow> block \<Rightarrow> inode \<Rightarrow> inode" where
  "get_dinode off d ip = ip\<lparr>i_type := get16 off d, i_major := get16 (off + 2) d, i_minor := get16 (off + 4) d,
     i_nlink := get16 (off + 6) d, i_size := get32 (off + 8) d, i_addrs := get_addrs off d\<rparr>"

definition iinit :: "'a kfs_scheme \<Rightarrow> 'a kfs_scheme res" where
  "iinit s = foreach (\<lambda>i s. Ok (upd_inode i (\<lambda>ip. ip\<lparr>i_lock := initsleeplock\<rparr>) s)) 0 NINODE s"

text \<open>The scan of \<^verbatim>\<open>iget\<close>: the entry of the inode, or the first unused entry seen.\<close>

fun iget_scan :: "inode list \<Rightarrow> uint32 \<Rightarrow> uint32 \<Rightarrow> nat \<Rightarrow> nat \<Rightarrow> nat option \<Rightarrow> nat option \<times> nat option" where
  "iget_scan ips dev inum i 0 emp = (None, emp)"
| "iget_scan ips dev inum i (Suc n) emp =
     (if i_ref (ips ! i) > 0 \<and> i_dev (ips ! i) = dev \<and> i_inum (ips ! i) = inum then (Some i, emp)
      else iget_scan ips dev inum (Suc i) n (if emp = None \<and> i_ref (ips ! i) = 0 then Some i else emp))"

definition iget :: "uint32 \<Rightarrow> uint32 \<Rightarrow> 'a kfs_scheme \<Rightarrow> (nat \<times> 'a kfs_scheme) res" where
  "iget dev inum s =
     bindR (acquire itable_lock s) (\<lambda>s.
     case iget_scan (inodes s) dev inum 0 NINODE None of
       (Some i, _) \<Rightarrow>
         bindR (release itable_lock (upd_inode i (\<lambda>ip. ip\<lparr>i_ref := i_ref ip + 1\<rparr>) s)) (\<lambda>s. Ok (i, s))
     | (None, None) \<Rightarrow> Panic ''iget: no inodes''
     | (None, Some i) \<Rightarrow>
         bindR (release itable_lock (upd_inode i (\<lambda>ip. ip\<lparr>i_dev := dev, i_inum := inum, i_ref := 1, i_valid := False\<rparr>) s))
           (\<lambda>s. Ok (i, s)))"

definition ialloc_at :: "uint32 \<Rightarrow> uint16 \<Rightarrow> nat \<Rightarrow> 'a kfs_scheme \<Rightarrow> (nat option \<times> 'a kfs_scheme) res" where
  "ialloc_at dev type inum s =
     bindR (bread dev (IBLOCK (of_nat inum) (sb s)) s) (\<lambda>(bp, s).
     let off = din_off (of_nat inum); d = bdata bp s in
     if get16 off d = 0
     then let s = set_data bp (put16 off type (put_at off (replicate 64 0) d)) s in
          bindR (log_write bp s) (\<lambda>s.
          bindR (brelse bp s) (\<lambda>s.
          bindR (iget dev (of_nat inum) s) (\<lambda>(i, s). Ok (Some i, s))))
     else bindR (brelse bp s) (\<lambda>s. Ok (None, s)))"

definition ialloc :: "uint32 \<Rightarrow> uint16 \<Rightarrow> 'a kfs_scheme \<Rightarrow> (nat \<times> 'a kfs_scheme) res" where
  "ialloc dev type s =
     bindR (foreach_ret (ialloc_at dev type) 1 (unat (sb_ninodes (sb s)) - 1) s) (\<lambda>(r, s).
     case r of Some i \<Rightarrow> Ok (i, s) | None \<Rightarrow> Panic ''ialloc: no inodes'')"

definition iupdate :: "nat \<Rightarrow> 'a kfs_scheme \<Rightarrow> 'a kfs_scheme res" where
  "iupdate i s =
     bindR (bread (i_dev (inodes s ! i)) (IBLOCK (i_inum (inodes s ! i)) (sb s)) s) (\<lambda>(bp, s).
     let s = set_data bp (put_dinode (din_off (i_inum (inodes s ! i))) (inodes s ! i) (bdata bp s)) s in
     bindR (log_write bp s) (brelse bp))"

definition idup :: "nat \<Rightarrow> 'a kfs_scheme \<Rightarrow> (nat \<times> 'a kfs_scheme) res" where
  "idup i s =
     bindR (acquire itable_lock s) (\<lambda>s.
     bindR (release itable_lock (upd_inode i (\<lambda>ip. ip\<lparr>i_ref := i_ref ip + 1\<rparr>) s)) (\<lambda>s. Ok (i, s)))"

definition inode_acquiresleep :: "nat \<Rightarrow> 'a kfs_scheme \<Rightarrow> 'a kfs_scheme res" where
  "inode_acquiresleep i s =
     bindR (acquiresleep (inode_lock i) (inode_chan i) (i_lock (inodes s ! i)) s) (\<lambda>(lk, s).
     Ok (upd_inode i (\<lambda>ip. ip\<lparr>i_lock := lk\<rparr>) s))"

definition inode_releasesleep :: "nat \<Rightarrow> 'a kfs_scheme \<Rightarrow> 'a kfs_scheme res" where
  "inode_releasesleep i s =
     bindR (releasesleep (inode_lock i) (inode_chan i) (i_lock (inodes s ! i)) s) (\<lambda>(lk, s).
     Ok (upd_inode i (\<lambda>ip. ip\<lparr>i_lock := lk\<rparr>) s))"

definition ilock :: "nat option \<Rightarrow> 'a kfs_scheme \<Rightarrow> 'a kfs_scheme res" where
  "ilock p s =
     (case p of None \<Rightarrow> Panic ''ilock''
      | Some i \<Rightarrow>
          if i_ref (inodes s ! i) < 1 then Panic ''ilock''
          else bindR (inode_acquiresleep i s) (\<lambda>s.
               if i_valid (inodes s ! i) then Ok s
               else bindR (bread (i_dev (inodes s ! i)) (IBLOCK (i_inum (inodes s ! i)) (sb s)) s) (\<lambda>(bp, s).
                    let s = upd_inode i (get_dinode (din_off (i_inum (inodes s ! i))) (bdata bp s)) s in
                    bindR (brelse bp s) (\<lambda>s.
                    let s = upd_inode i (\<lambda>ip. ip\<lparr>i_valid := True\<rparr>) s in
                    if i_type (inodes s ! i) = 0 then Panic ''ilock: no type'' else Ok s))))"

definition iunlock :: "nat option \<Rightarrow> 'a kfs_scheme \<Rightarrow> 'a kfs_scheme res" where
  "iunlock p s =
     (case p of None \<Rightarrow> Panic ''iunlock''
      | Some i \<Rightarrow>
          bindR (holdingsleep (inode_lock i) (i_lock (inodes s ! i)) s) (\<lambda>(h, s).
          if \<not> h \<or> i_ref (inodes s ! i) < 1 then Panic ''iunlock'' else inode_releasesleep i s))"

subsection \<open>File contents\<close>

definition bmap :: "nat \<Rightarrow> uint32 \<Rightarrow> 'a kfs_scheme \<Rightarrow> (uint32 \<times> 'a kfs_scheme) res" where
  "bmap i bn s =
     (if bn < of_nat NDIRECT
      then let addr = i_addrs (inodes s ! i) ! unat bn in
           if addr = 0
           then bindR (balloc (i_dev (inodes s ! i)) s) (\<lambda>(addr, s).
                Ok (addr, upd_inode i (\<lambda>ip. ip\<lparr>i_addrs := (i_addrs ip)[unat bn := addr]\<rparr>) s))
           else Ok (addr, s)
      else let bn = bn - of_nat NDIRECT in
      if bn < of_nat NINDIRECT
      then bindR (let addr = i_addrs (inodes s ! i) ! NDIRECT in
                  if addr = 0
                  then bindR (balloc (i_dev (inodes s ! i)) s) (\<lambda>(addr, s).
                       Ok (addr, upd_inode i (\<lambda>ip. ip\<lparr>i_addrs := (i_addrs ip)[NDIRECT := addr]\<rparr>) s))
                  else Ok (addr, s)) (\<lambda>(ind, s).
           bindR (bread (i_dev (inodes s ! i)) ind s) (\<lambda>(bp, s).
           let addr = get32 (4 * unat bn) (bdata bp s) in
           if addr = 0
           then bindR (balloc (i_dev (inodes s ! i)) s) (\<lambda>(addr, s).
                bindR (log_write bp (set_data bp (put32 (4 * unat bn) addr (bdata bp s)) s)) (\<lambda>s.
                bindR (brelse bp s) (\<lambda>s. Ok (addr, s))))
           else bindR (brelse bp s) (\<lambda>s. Ok (addr, s))))
      else Panic ''bmap: out of range'')"

definition itrunc_direct :: "nat \<Rightarrow> nat \<Rightarrow> 'a kfs_scheme \<Rightarrow> 'a kfs_scheme res" where
  "itrunc_direct i k s =
     (if i_addrs (inodes s ! i) ! k \<noteq> 0
      then bindR (bfree (i_dev (inodes s ! i)) (i_addrs (inodes s ! i) ! k) s) (\<lambda>s.
           Ok (upd_inode i (\<lambda>ip. ip\<lparr>i_addrs := (i_addrs ip)[k := 0]\<rparr>) s))
      else Ok s)"

definition itrunc_indirect :: "nat \<Rightarrow> nat \<Rightarrow> nat \<Rightarrow> 'a kfs_scheme \<Rightarrow> 'a kfs_scheme res" where
  "itrunc_indirect i bp j s =
     (if get32 (4 * j) (bdata bp s) \<noteq> 0
      then bfree (i_dev (inodes s ! i)) (get32 (4 * j) (bdata bp s)) s else Ok s)"

definition itrunc :: "nat \<Rightarrow> 'a kfs_scheme \<Rightarrow> 'a kfs_scheme res" where
  "itrunc i s =
     bindR (foreach (itrunc_direct i) 0 NDIRECT s) (\<lambda>s.
     bindR (if i_addrs (inodes s ! i) ! NDIRECT \<noteq> 0
            then bindR (bread (i_dev (inodes s ! i)) (i_addrs (inodes s ! i) ! NDIRECT) s) (\<lambda>(bp, s).
                 bindR (foreach (itrunc_indirect i bp) 0 NINDIRECT s) (\<lambda>s.
                 bindR (brelse bp s) (\<lambda>s.
                 bindR (bfree (i_dev (inodes s ! i)) (i_addrs (inodes s ! i) ! NDIRECT) s) (\<lambda>s.
                 Ok (upd_inode i (\<lambda>ip. ip\<lparr>i_addrs := (i_addrs ip)[NDIRECT := 0]\<rparr>) s)))))
            else Ok s) (\<lambda>s.
     iupdate i (upd_inode i (\<lambda>ip. ip\<lparr>i_size := 0\<rparr>) s)))"

definition iput :: "nat \<Rightarrow> 'a kfs_scheme \<Rightarrow> 'a kfs_scheme res" where
  "iput i s =
     bindR (acquire itable_lock s) (\<lambda>s.
     bindR (if i_ref (inodes s ! i) = 1 \<and> i_valid (inodes s ! i) \<and> i_nlink (inodes s ! i) = 0
            then bindR (inode_acquiresleep i s) (\<lambda>s.
                 bindR (release itable_lock s) (\<lambda>s.
                 bindR (itrunc i s) (\<lambda>s.
                 bindR (iupdate i (upd_inode i (\<lambda>ip. ip\<lparr>i_type := 0\<rparr>) s)) (\<lambda>s.
                 bindR (inode_releasesleep i (upd_inode i (\<lambda>ip. ip\<lparr>i_valid := False\<rparr>) s)) (acquire itable_lock)))))
            else Ok s) (\<lambda>s.
     release itable_lock (upd_inode i (\<lambda>ip. ip\<lparr>i_ref := i_ref ip - 1\<rparr>) s)))"

definition iunlockput :: "nat \<Rightarrow> 'a kfs_scheme \<Rightarrow> 'a kfs_scheme res" where
  "iunlockput i s = bindR (iunlock (Some i) s) (iput i)"

record stat =
  st_dev :: uint32
  st_ino :: uint32
  st_type :: uint16
  st_nlink :: uint16
  st_size :: uint64

definition stati :: "nat \<Rightarrow> 'a kfs_scheme \<Rightarrow> stat" where
  "stati i s = \<lparr>st_dev = i_dev (inodes s ! i), st_ino = i_inum (inodes s ! i), st_type = i_type (inodes s ! i),
     st_nlink = i_nlink (inodes s ! i), st_size = ucast (i_size (inodes s ! i))\<rparr>"

text \<open>The bytes of one round of \<^verbatim>\<open>readi\<close> or \<^verbatim>\<open>writei\<close>: \<^verbatim>\<open>min(n - tot, BSIZE - off%BSIZE)\<close>.\<close>

definition chunk :: "uint32 \<Rightarrow> uint32 \<Rightarrow> uint32 \<Rightarrow> uint32" where
  "chunk n tot off = min (n - tot) (of_nat BSIZE - off mod of_nat BSIZE)"

lemma chunk_pos:
  assumes "tot < n"
  shows "0 < chunk n tot off" "chunk n tot off \<le> n - tot"
proof -
  have "off mod 1024 < 1024" by (rule word_mod_less_divisor) simp
  then have "0 < 1024 - off mod 1024" by (simp add: word_gt_0)
  moreover have "0 < n - tot" using assms by (simp add: word_gt_0)
  ultimately show "0 < chunk n tot off" by (simp add: chunk_def)
  show "chunk n tot off \<le> n - tot" by (simp add: chunk_def)
qed

lemma chunk_decreases:
  assumes "tot < n"
  shows "unat (n - (tot + chunk n tot off)) < unat (n - tot)"
proof -
  have eq: "n - (tot + chunk n tot off) = (n - tot) - chunk n tot off" by simp
  have "unat ((n - tot) - chunk n tot off) = unat (n - tot) - unat (chunk n tot off)"
    using chunk_pos(2) [OF assms] by (simp add: unat_sub)
  moreover have "0 < unat (chunk n tot off)" "unat (chunk n tot off) \<le> unat (n - tot)"
    using chunk_pos [OF assms, of off] by (simp_all add: word_le_nat_alt unat_gt_0)
  ultimately show ?thesis unfolding eq by linarith
qed

text \<open>The loop of \<^verbatim>\<open>readi\<close>.  The destination is returned, as it may be a local variable of the caller.\<close>

function readi_loop ::
  "nat \<Rightarrow> dst \<Rightarrow> uint32 \<Rightarrow> uint32 \<Rightarrow> uint32 \<Rightarrow> 'a kfs_scheme \<Rightarrow> (uint32 \<times> dst \<times> 'a kfs_scheme) res" where
  "readi_loop i dst off n tot s =
     (if \<not> tot < n then Ok (tot, dst, s)
      else bindR (bmap i (off div of_nat BSIZE) s) (\<lambda>(addr, s).
           bindR (bread (i_dev (inodes s ! i)) addr s) (\<lambda>(bp, s).
           let m = chunk n tot off; bs = get_at (unat (off mod of_nat BSIZE)) (unat m) (bdata bp s) in
           bindR (either_copyout dst (ucast tot) bs s) (\<lambda>(r, dst, s).
           if r = -1 then bindR (brelse bp s) (\<lambda>s. Ok (-1, dst, s))
           else bindR (brelse bp s) (\<lambda>s. readi_loop i dst (off + m) n (tot + m) s)))))"
  by pat_completeness auto

termination
  using chunk_decreases by (relation "measure (\<lambda>(_, _, _, n, tot, _). unat (n - tot))") auto

declare readi_loop.simps [simp del]

definition readi ::
  "nat \<Rightarrow> dst \<Rightarrow> uint32 \<Rightarrow> uint32 \<Rightarrow> 'a kfs_scheme \<Rightarrow> (int \<times> dst \<times> 'a kfs_scheme) res" where
  "readi i dst off n s =
     (let size = i_size (inodes s ! i) in
      if off > size \<or> off + n < off then Ok (0, dst, s)
      else let n = (if off + n > size then size - off else n) in
           bindR (readi_loop i dst off n 0 s) (\<lambda>(tot, dst, s). Ok (sint tot, dst, s)))"

text \<open>
  The loop of \<^verbatim>\<open>writei\<close>: the bytes written and the offset reached.  When the copy from the
  caller fails, what it has copied before stays in the buffer, which is released without
  being logged.
\<close>

function writei_loop ::
  "nat \<Rightarrow> src \<Rightarrow> uint32 \<Rightarrow> uint32 \<Rightarrow> uint32 \<Rightarrow> 'a kfs_scheme \<Rightarrow> (uint32 \<times> uint32 \<times> 'a kfs_scheme) res" where
  "writei_loop i src off n tot s =
     (if \<not> tot < n then Ok (tot, off, s)
      else bindR (bmap i (off div of_nat BSIZE) s) (\<lambda>(addr, s).
           bindR (bread (i_dev (inodes s ! i)) addr s) (\<lambda>(bp, s).
           let m = chunk n tot off in
           bindR (either_copyin src (ucast tot) (unat m) s) (\<lambda>(r, bs).
           let s = set_data bp (put_at (unat (off mod of_nat BSIZE)) bs (bdata bp s)) s in
           if r = -1 then bindR (brelse bp s) (\<lambda>s. Ok (tot, off, s))
           else bindR (log_write bp s) (\<lambda>s.
                bindR (brelse bp s) (\<lambda>s. writei_loop i src (off + m) n (tot + m) s))))))"
  by pat_completeness auto

termination
  using chunk_decreases by (relation "measure (\<lambda>(_, _, _, n, tot, _). unat (n - tot))") auto

declare writei_loop.simps [simp del]

abbreviation (input) MAXFILE :: nat where "MAXFILE \<equiv> NDIRECT + NINDIRECT"

definition writei :: "nat \<Rightarrow> src \<Rightarrow> uint32 \<Rightarrow> uint32 \<Rightarrow> 'a kfs_scheme \<Rightarrow> (int \<times> 'a kfs_scheme) res" where
  "writei i src off n s =
     (if off > i_size (inodes s ! i) \<or> off + n < off then Ok (-1, s)
      else if off + n > of_nat (MAXFILE * BSIZE) then Ok (-1, s)
      else bindR (writei_loop i src off n 0 s) (\<lambda>(tot, off, s).
           let s = (if off > i_size (inodes s ! i) then upd_inode i (\<lambda>ip. ip\<lparr>i_size := off\<rparr>) s else s) in
           bindR (iupdate i s) (\<lambda>s. Ok (sint tot, s))))"

subsection \<open>Directories\<close>

text \<open>A \<^verbatim>\<open>struct dirent\<close> takes 16 bytes: the inode number and the name, padded with NULs.\<close>

abbreviation (input) DE_SIZE :: nat where "DE_SIZE \<equiv> 16"

definition de_inum :: "uint8 list \<Rightarrow> uint16" where
  "de_inum de = get16 0 de"

definition de_name :: "uint8 list \<Rightarrow> uint8 list" where
  "de_name de = get_at 2 DIRSIZ de"

definition namecmp :: "uint8 list \<Rightarrow> uint8 list \<Rightarrow> int res" where
  "namecmp a b = optR (strncmp a b DIRSIZ)"

definition read_de :: "nat \<Rightarrow> nat \<Rightarrow> string \<Rightarrow> 'a kfs_scheme \<Rightarrow> (uint8 list \<times> 'a kfs_scheme) res" where
  "read_de i off msg s =
     bindR (readi i (DLocal (replicate DE_SIZE 0)) (of_nat off) (of_nat DE_SIZE) s) (\<lambda>(r, de, s).
     if r \<noteq> int DE_SIZE then Panic msg else Ok (local_bytes de, s))"

text \<open>
  \<^verbatim>\<open>for(off = 0; off < dp->size; off += sizeof(de))\<close>: the size stays what it is during the
  loop, since reading a locked inode does not change it.
\<close>

definition de_count :: "uint32 \<Rightarrow> nat" where
  "de_count sz = (unat sz + DE_SIZE - 1) div DE_SIZE"

definition dirlookup_at ::
  "nat \<Rightarrow> uint8 list \<Rightarrow> nat \<Rightarrow> 'a kfs_scheme \<Rightarrow> ((nat \<times> uint32) option \<times> 'a kfs_scheme) res" where
  "dirlookup_at i name k s =
     bindR (read_de i (DE_SIZE * k) ''dirlookup read'' s) (\<lambda>(de, s).
     if de_inum de = 0 then Ok (None, s)
     else bindR (namecmp name (de_name de)) (\<lambda>c.
          if c = 0
          then bindR (iget (i_dev (inodes s ! i)) (ucast (de_inum de)) s) (\<lambda>(j, s). Ok (Some (j, of_nat (DE_SIZE * k)), s))
          else Ok (None, s)))"

definition dirlookup :: "nat \<Rightarrow> uint8 list \<Rightarrow> 'a kfs_scheme \<Rightarrow> ((nat \<times> uint32) option \<times> 'a kfs_scheme) res" where
  "dirlookup i name s =
     (if i_type (inodes s ! i) \<noteq> T_DIR then Panic ''dirlookup not DIR''
      else foreach_ret (dirlookup_at i name) 0 (de_count (i_size (inodes s ! i))) s)"

definition dirlink_at :: "nat \<Rightarrow> nat \<Rightarrow> 'a kfs_scheme \<Rightarrow> (nat option \<times> 'a kfs_scheme) res" where
  "dirlink_at i k s =
     bindR (read_de i (DE_SIZE * k) ''dirlink read'' s) (\<lambda>(de, s).
     Ok (if de_inum de = 0 then Some k else None, s))"

definition dirlink :: "nat \<Rightarrow> uint8 list \<Rightarrow> uint32 \<Rightarrow> 'a kfs_scheme \<Rightarrow> (int \<times> 'a kfs_scheme) res" where
  "dirlink i name inum s =
     bindR (dirlookup i name s) (\<lambda>(r, s).
     case r of
       Some (j, _) \<Rightarrow> bindR (iput j s) (\<lambda>s. Ok (-1, s))
     | None \<Rightarrow>
         let n = de_count (i_size (inodes s ! i)) in
         bindR (foreach_ret (dirlink_at i) 0 n s) (\<lambda>(k, s).
         let off = DE_SIZE * (case k of Some k \<Rightarrow> k | None \<Rightarrow> n) in
         bindR (optR (strncpy (replicate DIRSIZ 0) name DIRSIZ)) (\<lambda>nm.
         bindR (writei i (SLocal (le_bytes 2 (ucast inum :: uint16) @ nm)) (of_nat off) (of_nat DE_SIZE) s) (\<lambda>(r, s).
         if r \<noteq> int DE_SIZE then Panic ''dirlink'' else Ok (0, s)))))"

subsection \<open>Path names\<close>

abbreviation (input) slash :: uint8 where "slash \<equiv> 47"

text \<open>
  The element and the rest of the path; the element is what is stored in \<^verbatim>\<open>name\<close>: its first
  \<open>DIRSIZ\<close> bytes, with a NUL if there is room.
\<close>

definition skipelem :: "uint8 list \<Rightarrow> (uint8 list \<times> uint8 list) option" where
  "skipelem path =
     (let p = dropWhile (\<lambda>c. c = slash) path in
      if p = [] then None
      else let el = takeWhile (\<lambda>c. c \<noteq> slash) p; rest = dropWhile (\<lambda>c. c \<noteq> slash) p;
               name = (if length el \<ge> DIRSIZ then take DIRSIZ el else el @ [0])
           in Some (name, dropWhile (\<lambda>c. c = slash) rest))"

lemma skipelem_shrinks:
  assumes "skipelem path = Some (name, rest)"
  shows "length rest < length path"
proof -
  define p where "p = dropWhile (\<lambda>c. c = slash) path"
  have p: "p \<noteq> []" "rest = dropWhile (\<lambda>c. c = slash) (dropWhile (\<lambda>c. c \<noteq> slash) p)"
    using assms by (auto simp: skipelem_def p_def Let_def split: if_splits)
  then have "hd p \<noteq> slash" using hd_dropWhile [of "\<lambda>c. c = slash" path] by (simp add: p_def)
  then have "length (dropWhile (\<lambda>c. c \<noteq> slash) p) < length p"
    using p(1) length_dropWhile_le [of "\<lambda>c. c \<noteq> slash" "tl p"] by (cases p) auto
  then show ?thesis
    using p(2) length_dropWhile_le [of "\<lambda>c. c = slash" "dropWhile (\<lambda>c. c \<noteq> slash) p"]
      length_dropWhile_le [of "\<lambda>c. c = slash" path] by (simp add: p_def)
qed

text \<open>The loop of \<^verbatim>\<open>namex\<close> from inode \<open>i\<close> on; the result has the inode and the last element.\<close>

function namex_loop ::
  "bool \<Rightarrow> uint8 list \<Rightarrow> uint8 list \<Rightarrow> nat \<Rightarrow> 'a kfs_scheme \<Rightarrow> ((nat \<times> uint8 list) option \<times> 'a kfs_scheme) res" where
  "namex_loop parent path name i s =
     (case skipelem path of
        None \<Rightarrow> if parent then bindR (iput i s) (\<lambda>s. Ok (None, s)) else Ok (Some (i, name), s)
      | Some (name, path) \<Rightarrow>
          bindR (ilock (Some i) s) (\<lambda>s.
          if i_type (inodes s ! i) \<noteq> T_DIR then bindR (iunlockput i s) (\<lambda>s. Ok (None, s))
          else if parent \<and> path = [] then bindR (iunlock (Some i) s) (\<lambda>s. Ok (Some (i, name), s))
          else bindR (dirlookup i name s) (\<lambda>(r, s).
               bindR (iunlockput i s) (\<lambda>s.
               case r of None \<Rightarrow> Ok (None, s) | Some (j, _) \<Rightarrow> namex_loop parent path name j s))))"
  by pat_completeness auto

termination
  by (relation "measure (\<lambda>(_, path, _). length path)") (auto dest: skipelem_shrinks)

declare namex_loop.simps [simp del]

definition namex :: "bool \<Rightarrow> uint8 list \<Rightarrow> 'a kfs_scheme \<Rightarrow> ((nat \<times> uint8 list) option \<times> 'a kfs_scheme) res" where
  "namex parent path s =
     bindR (if path \<noteq> [] \<and> hd path = slash then iget ROOTDEV ROOTINO s
            else bindR (myproc s) (\<lambda>p. case p_cwd (procs s ! p) of None \<Rightarrow> Panic ''kerneltrap'' | Some i \<Rightarrow> idup i s)) (\<lambda>(i, s).
     namex_loop parent path [] i s)"

definition namei :: "uint8 list \<Rightarrow> 'a kfs_scheme \<Rightarrow> (nat option \<times> 'a kfs_scheme) res" where
  "namei path s = bindR (namex False path s) (\<lambda>(r, s). Ok (map_option fst r, s))"

definition nameiparent :: "uint8 list \<Rightarrow> 'a kfs_scheme \<Rightarrow> ((nat \<times> uint8 list) option \<times> 'a kfs_scheme) res" where
  "nameiparent path s = namex True path s"

end
