(* ===== verification/Console.thy ===== *)
theory Console
  imports Fs
begin

section \<open>Console, UART and kernel printf: \<^verbatim>\<open>console.c\<close>, \<^verbatim>\<open>uart.c\<close>, \<^verbatim>\<open>printf.c\<close>\<close>

text \<open>
  The serial port is hardware: the state holds the input bytes it has received, how many
  more bytes its transmitter takes before it reports itself busy, the bytes it has been
  given, and the register writes of its initialisation.  A function that goes to sleep in the
  middle of its work returns \<open>Sleep\<close> with the progress it has made, in the state in which it
  calls \<^verbatim>\<open>swtch\<close>; the \<open>resume\<close> definitions continue from there.  \<open>Gone\<close> is the result of a
  call after which the process never runs again.
\<close>

subsection \<open>State\<close>

datatype ret = Ret int | Sleep nat | Gone

abbreviation (input) INPUT_BUF :: nat where "INPUT_BUF \<equiv> 128"
abbreviation (input) UART_TX_BUF_SIZE :: nat where "UART_TX_BUF_SIZE \<equiv> 32"

record kcons = kfs +
  cons_buf :: "uint8 list"
  cons_r :: uint32
  cons_w :: uint32
  cons_e :: uint32
  uart_tx_buf :: "uint8 list"
  uart_tx_w :: uint64
  uart_tx_r :: uint64
  panicked :: bool
  pr_locking :: bool
  u_in :: "uint8 list"              \<comment> \<open>received bytes not read yet\<close>
  u_idle :: nat                     \<comment> \<open>bytes the transmitter takes before it is busy\<close>
  u_out :: "uint8 list"             \<comment> \<open>bytes given to the transmitter\<close>
  u_regs :: "(nat \<times> uint8) list"   \<comment> \<open>writes to the control registers\<close>

abbreviation (input) cons_lock :: lockid where "cons_lock \<equiv> Lock ''cons'' 0"
abbreviation (input) uart_tx_lock :: lockid where "uart_tx_lock \<equiv> Lock ''uart'' 0"
abbreviation (input) pr_lock :: lockid where "pr_lock \<equiv> Lock ''pr'' 0"
abbreviation (input) cons_chan :: chan where "cons_chan \<equiv> Chan ''cons.r'' 0"
abbreviation (input) uart_chan :: chan where "uart_chan \<equiv> Chan ''uart_tx_r'' 0"

subsection \<open>The UART driver\<close>

definition WriteReg :: "nat \<Rightarrow> uint8 \<Rightarrow> 'a kcons_scheme \<Rightarrow> 'a kcons_scheme" where
  "WriteReg r v s = s\<lparr>u_regs := u_regs s @ [(r, v)]\<rparr>"

text \<open>The registers are IER = 1, FCR = 2 and LCR = 3; 0 and 1 set the baud rate in latch mode.\<close>

definition uartinit :: "'a kcons_scheme \<Rightarrow> 'a kcons_scheme" where
  "uartinit s =
     (let s = WriteReg 1 0x00 s;
          s = WriteReg 3 0x80 s;
          s = WriteReg 0 0x03 s;
          s = WriteReg 1 0x00 s;
          s = WriteReg 3 0x03 s;
          s = WriteReg 2 (0x01 OR 0x06) s
      in WriteReg 1 (0x02 OR 0x01) s)"

definition putTHR :: "uint8 \<Rightarrow> 'a kcons_scheme \<Rightarrow> 'a kcons_scheme" where
  "putTHR c s = s\<lparr>u_out := u_out s @ [c], u_idle := u_idle s - 1\<rparr>"

text \<open>
  \<^verbatim>\<open>uartstart\<close>: the loop goes round at most once per character in the buffer, so it gets
  their number as its bound.
\<close>

fun uartstart_loop :: "nat \<Rightarrow> 'a kcons_scheme \<Rightarrow> 'a kcons_scheme res" where
  "uartstart_loop 0 s = Ok s"
| "uartstart_loop (Suc n) s =
     (if uart_tx_w s = uart_tx_r s then Ok s
      else if u_idle s = 0 then Ok s
      else let c = uart_tx_buf s ! (unat (uart_tx_r s) mod UART_TX_BUF_SIZE) in
           bindR (wakeup (Some uart_chan) (s\<lparr>uart_tx_r := uart_tx_r s + 1\<rparr>)) (\<lambda>s.
           uartstart_loop n (putTHR c s)))"

definition uartstart :: "'a kcons_scheme \<Rightarrow> 'a kcons_scheme res" where
  "uartstart s = uartstart_loop (unat (uart_tx_w s - uart_tx_r s)) s"

text \<open>From the head of the loop of \<^verbatim>\<open>uartputc\<close>, with the lock held.\<close>

definition uartputc_loop :: "uint8 \<Rightarrow> 'a kcons_scheme \<Rightarrow> (ret \<times> 'a kcons_scheme) res" where
  "uartputc_loop c s =
     (if uart_tx_w s = uart_tx_r s + of_nat UART_TX_BUF_SIZE
      then bindR (sleep_out uart_chan uart_tx_lock s) (\<lambda>s. Ok (Sleep 0, s))
      else let s = s\<lparr>uart_tx_buf := (uart_tx_buf s)[unat (uart_tx_w s) mod UART_TX_BUF_SIZE := c],
                     uart_tx_w := uart_tx_w s + 1\<rparr> in
           bindR (uartstart s) (\<lambda>s.
           bindR (release uart_tx_lock s) (\<lambda>s. Ok (Ret 0, s))))"

definition uartputc :: "uint8 \<Rightarrow> 'a kcons_scheme \<Rightarrow> (ret \<times> 'a kcons_scheme) res" where
  "uartputc c s =
     bindR (acquire uart_tx_lock s) (\<lambda>s. if panicked s then Loop else uartputc_loop c s)"

definition uartputc_resume :: "uint8 \<Rightarrow> 'a kcons_scheme \<Rightarrow> (ret \<times> 'a kcons_scheme) res" where
  "uartputc_resume c s = bindR (sleep_in uart_tx_lock s) (uartputc_loop c)"

text \<open>\<^verbatim>\<open>uartputc_sync\<close> waits for the transmitter, which drains by itself.\<close>

definition uartputc_sync :: "uint8 \<Rightarrow> 'a kcons_scheme \<Rightarrow> 'a kcons_scheme res" where
  "uartputc_sync c s = (if panicked s then Loop else Ok (putTHR c s))"

definition uartgetc :: "'a kcons_scheme \<Rightarrow> uint8 option \<times> 'a kcons_scheme" where
  "uartgetc s = (case u_in s of [] \<Rightarrow> (None, s) | c # cs \<Rightarrow> (Some c, s\<lparr>u_in := cs\<rparr>))"

subsection \<open>Echo and printf\<close>

definition BACKSPACE :: nat where "BACKSPACE = 0x100"

definition consputc :: "nat \<Rightarrow> 'a kcons_scheme \<Rightarrow> 'a kcons_scheme res" where
  "consputc c s =
     (if c = BACKSPACE
      then bindR (uartputc_sync 8 s) (\<lambda>s. bindR (uartputc_sync 32 s) (uartputc_sync 8))
      else uartputc_sync (of_nat c) s)"

fun consputs :: "uint8 list \<Rightarrow> 'a kcons_scheme \<Rightarrow> 'a kcons_scheme res" where
  "consputs [] s = Ok s"
| "consputs (c # cs) s = bindR (consputc (unat c) s) (consputs cs)"

definition digit :: "nat \<Rightarrow> uint8" where
  "digit d = (if d < 10 then of_nat (48 + d) else of_nat (87 + d))"

text \<open>
  The digits of \<open>x\<close>, last one first.  The code calls it with base 10 and 16 only; the test
  for a smaller base is there to make the recursion end for all arguments.
\<close>

function print_digits :: "nat \<Rightarrow> nat \<Rightarrow> uint8 list" where
  "print_digits b x = digit (x mod b) # (if x div b = 0 \<or> b < 2 then [] else print_digits b (x div b))"
  by pat_completeness auto

termination
  by (relation "measure snd") (auto intro!: div_less_dividend gr0I)

declare print_digits.simps [simp del]

definition print_num :: "uint32 \<Rightarrow> nat \<Rightarrow> bool \<Rightarrow> uint8 list" where
  "print_num xx base sign =
     (let neg = (sign \<and> sint xx < 0); x = (if neg then - xx else xx);
          buf = print_digits base (unat x) @ (if neg then [45] else [])
      in rev buf)"

definition printint :: "uint32 \<Rightarrow> nat \<Rightarrow> bool \<Rightarrow> 'a kcons_scheme \<Rightarrow> 'a kcons_scheme res" where
  "printint xx base sign = consputs (print_num xx base sign)"

fun ptr_digits :: "nat \<Rightarrow> uint64 \<Rightarrow> uint8 list" where
  "ptr_digits 0 x = []"
| "ptr_digits (Suc n) x = digit (unat (drop_bit 60 x)) # ptr_digits n (push_bit 4 x)"

definition printptr :: "uint64 \<Rightarrow> 'a kcons_scheme \<Rightarrow> 'a kcons_scheme res" where
  "printptr x s =
     bindR (consputc 48 s) (\<lambda>s. bindR (consputc 120 s) (consputs (ptr_digits 16 x)))"

datatype arg = AInt uint32 | APtr uint64 | AStr "uint8 list option"

text \<open>
  The loop of \<^verbatim>\<open>printf\<close> over the format string.  An argument that is missing or of another
  kind than the format asks for is undefined in C.
\<close>

fun printf_loop :: "uint8 list \<Rightarrow> arg list \<Rightarrow> 'a kcons_scheme \<Rightarrow> 'a kcons_scheme res" where
  "printf_loop [] as s = Ok s"
| "printf_loop (c # fmt) as s =
     (if c \<noteq> 37 then bindR (consputc (unat c) s) (printf_loop fmt as)
      else case fmt of
        [] \<Rightarrow> Ok s
      | d # fmt' \<Rightarrow>
          if d = 100 then (case as of AInt x # as' \<Rightarrow> bindR (printint x 10 True s) (printf_loop fmt' as') | _ \<Rightarrow> Undef)
          else if d = 120 then (case as of AInt x # as' \<Rightarrow> bindR (printint x 16 True s) (printf_loop fmt' as') | _ \<Rightarrow> Undef)
          else if d = 112 then (case as of APtr x # as' \<Rightarrow> bindR (printptr x s) (printf_loop fmt' as') | _ \<Rightarrow> Undef)
          else if d = 115 then (case as of
              AStr x # as' \<Rightarrow> bindR (consputs (case x of None \<Rightarrow> [40, 110, 117, 108, 108, 41] | Some cs \<Rightarrow> cs) s) (printf_loop fmt' as')
            | _ \<Rightarrow> Undef)
          else if d = 37 then bindR (consputc 37 s) (printf_loop fmt' as)
          else bindR (consputc 37 s) (\<lambda>s. bindR (consputc (unat d) s) (printf_loop fmt' as)))"

definition bytes_of :: "string \<Rightarrow> uint8 list" where
  "bytes_of cs = map (\<lambda>c. of_nat (of_char c)) cs"

definition kprintf :: "string \<Rightarrow> arg list \<Rightarrow> 'a kcons_scheme \<Rightarrow> 'a kcons_scheme res" where
  "kprintf fmt as s =
     (if pr_locking s
      then bindR (acquire pr_lock s) (\<lambda>s. bindR (printf_loop (bytes_of fmt) as s) (release pr_lock))
      else printf_loop (bytes_of fmt) as s)"

text \<open>What \<^verbatim>\<open>panic\<close> does before it stops for good.\<close>

definition panic_print :: "string \<Rightarrow> 'a kcons_scheme \<Rightarrow> 'a kcons_scheme res" where
  "panic_print msg s =
     bindR (kprintf ''panic: '' [] (s\<lparr>pr_locking := False\<rparr>)) (\<lambda>s.
     bindR (kprintf msg [] s) (\<lambda>s.
     bindR (kprintf [CHR 0x0A] [] s) (\<lambda>s. Ok (s\<lparr>panicked := True\<rparr>))))"

definition printfinit :: "'a kcons_scheme \<Rightarrow> 'a kcons_scheme" where
  "printfinit s = s\<lparr>pr_locking := True\<rparr>"

text \<open>\<^verbatim>\<open>procdump\<close> has names for all states but \<^verbatim>\<open>USED\<close>.\<close>

definition state_name :: "procstate \<Rightarrow> string" where
  "state_name st = (case st of UNUSED \<Rightarrow> ''unused'' | USED \<Rightarrow> ''???'' | SLEEPING \<Rightarrow> ''sleep '' | RUNNABLE \<Rightarrow> ''runble''
     | RUNNING \<Rightarrow> ''run   '' | ZOMBIE \<Rightarrow> ''zombie'')"

definition procdump_at :: "nat \<Rightarrow> 'a kcons_scheme \<Rightarrow> 'a kcons_scheme res" where
  "procdump_at i s =
     (let p = procs s ! i in
      if p_state p = UNUSED then Ok s
      else bindR (kprintf ''%d %s %s'' [AInt (word_of_int (p_pid p)), AStr (Some (bytes_of (state_name (p_state p)))),
                AStr (Some (cstr (p_name p)))] s)
           (kprintf [CHR 0x0A] []))"

definition procdump :: "'a kcons_scheme \<Rightarrow> 'a kcons_scheme res" where
  "procdump s = bindR (kprintf [CHR 0x0A] [] s) (foreach procdump_at 0 NPROC)"

subsection \<open>Console input and output\<close>

text \<open>\<^verbatim>\<open>consolewrite\<close> from byte \<open>i\<close> on, with \<open>n\<close> bytes to go.\<close>

fun consolewrite_from :: "nat \<Rightarrow> nat \<Rightarrow> src \<Rightarrow> 'a kcons_scheme \<Rightarrow> (ret \<times> 'a kcons_scheme) res" where
  "consolewrite_from 0 i a s = Ok (Ret (int i), s)"
| "consolewrite_from (Suc n) i a s =
     bindR (either_copyin a (of_nat i) 1 s) (\<lambda>(r, bs).
     if r = -1 then Ok (Ret (int i), s)
     else bindR (uartputc (hd bs) s) (\<lambda>(r, s).
          case r of Ret _ \<Rightarrow> consolewrite_from n (Suc i) a s | _ \<Rightarrow> Ok (Sleep i, s)))"

definition consolewrite :: "src \<Rightarrow> int \<Rightarrow> 'a kcons_scheme \<Rightarrow> (ret \<times> 'a kcons_scheme) res" where
  "consolewrite a n s = consolewrite_from (nat n) 0 a s"

definition killed :: "'a kproc_scheme \<Rightarrow> bool res" where
  "killed s = bindR (myproc s) (\<lambda>p. Ok (p_killed (procs s ! p)))"

text \<open>
  \<^verbatim>\<open>consoleread\<close> from the head of its loop, with \<open>n\<close> of \<open>target\<close> bytes to go and the lock
  held.
\<close>

fun consoleread_loop :: "nat \<Rightarrow> nat \<Rightarrow> dst \<Rightarrow> 'a kcons_scheme \<Rightarrow> (ret \<times> 'a kcons_scheme) res" where
  "consoleread_loop target 0 d s = bindR (release cons_lock s) (\<lambda>s. Ok (Ret (int target), s))"
| "consoleread_loop target (Suc n) d s =
     (if cons_r s = cons_w s
      then bindR (killed s) (\<lambda>k.
           if k then bindR (release cons_lock s) (\<lambda>s. Ok (Ret (-1), s))
           else bindR (sleep_out cons_chan cons_lock s) (\<lambda>s. Ok (Sleep (target - Suc n), s)))
      else let c = cons_buf s ! (unat (cons_r s) mod INPUT_BUF);
               stop = (\<lambda>k s. bindR (release cons_lock s) (\<lambda>s. Ok (Ret (int target - int k), s)));
               s = s\<lparr>cons_r := cons_r s + 1\<rparr> in
           if c = 4
           then stop (Suc n) (if Suc n < target then s\<lparr>cons_r := cons_r s - 1\<rparr> else s)
           else bindR (either_copyout d (of_nat (target - Suc n)) [c] s) (\<lambda>(r, d, s).
                if r = -1 then stop (Suc n) s
                else if c = 10 then stop n s
                else consoleread_loop target n d s))"

definition consoleread :: "dst \<Rightarrow> int \<Rightarrow> 'a kcons_scheme \<Rightarrow> (ret \<times> 'a kcons_scheme) res" where
  "consoleread d n s =
     bindR (acquire cons_lock s) (\<lambda>s.
     if n \<le> 0 then bindR (release cons_lock s) (\<lambda>s. Ok (Ret 0, s))
     else consoleread_loop (nat n) (nat n) d s)"

definition consoleread_resume :: "dst \<Rightarrow> int \<Rightarrow> nat \<Rightarrow> 'a kcons_scheme \<Rightarrow> (ret \<times> 'a kcons_scheme) res" where
  "consoleread_resume d n done s =
     bindR (sleep_in cons_lock s) (consoleread_loop (nat n) (nat n - done) d)"

text \<open>The loop of ``kill line'': at most as many rounds as characters are being edited.\<close>

fun kill_line :: "nat \<Rightarrow> 'a kcons_scheme \<Rightarrow> 'a kcons_scheme res" where
  "kill_line 0 s = Ok s"
| "kill_line (Suc n) s =
     (if cons_e s \<noteq> cons_w s \<and> cons_buf s ! (unat (cons_e s - 1) mod INPUT_BUF) \<noteq> 10
      then bindR (consputc BACKSPACE (s\<lparr>cons_e := cons_e s - 1\<rparr>)) (kill_line n)
      else Ok s)"

definition consoleintr :: "uint8 \<Rightarrow> 'a kcons_scheme \<Rightarrow> 'a kcons_scheme res" where
  "consoleintr c s =
     bindR (acquire cons_lock s) (\<lambda>s.
     bindR (if c = 16 then procdump s
            else if c = 21 then kill_line (unat (cons_e s - cons_w s)) s
            else if c = 8 \<or> c = 127
            then if cons_e s \<noteq> cons_w s then consputc BACKSPACE (s\<lparr>cons_e := cons_e s - 1\<rparr>) else Ok s
            else if c \<noteq> 0 \<and> cons_e s - cons_r s < of_nat INPUT_BUF
            then let c = (if c = 13 then 10 else c) in
                 bindR (consputc (unat c) s) (\<lambda>s.
                 let s = s\<lparr>cons_buf := (cons_buf s)[unat (cons_e s) mod INPUT_BUF := c], cons_e := cons_e s + 1\<rparr> in
                 if c = 10 \<or> c = 4 \<or> cons_e s = cons_r s + of_nat INPUT_BUF
                 then wakeup (Some cons_chan) (s\<lparr>cons_w := cons_e s\<rparr>) else Ok s)
            else Ok s)
     (release cons_lock))"

text \<open>\<^verbatim>\<open>uartintr\<close> reads until the port has no more input.\<close>

fun uartintr_loop :: "nat \<Rightarrow> 'a kcons_scheme \<Rightarrow> 'a kcons_scheme res" where
  "uartintr_loop 0 s = Ok s"
| "uartintr_loop (Suc n) s =
     (case uartgetc s of (None, s) \<Rightarrow> Ok s | (Some c, s) \<Rightarrow> bindR (consoleintr c s) (uartintr_loop n))"

definition uartintr :: "'a kcons_scheme \<Rightarrow> 'a kcons_scheme res" where
  "uartintr s =
     bindR (uartintr_loop (length (u_in s)) s) (\<lambda>s.
     bindR (acquire uart_tx_lock s) (\<lambda>s.
     bindR (uartstart s) (release uart_tx_lock)))"

end
