(* ===== verification/Pipe.thy ===== *)
theory Pipe
  imports Console
begin

section \<open>Pipes: \<^verbatim>\<open>kernel/pipe.c\<close>\<close>

text \<open>
  A pipe is a ring buffer of \<open>PIPESIZE\<close> bytes with free-running 32-bit read and write
  counters, in a page of its own; \<open>pipes\<close> gives the pipe that lives in a page.
  \<^verbatim>\<open>pipealloc\<close>, which also allocates files, is in the theory of files.
\<close>

abbreviation (input) PIPESIZE :: nat where "PIPESIZE \<equiv> 512"

subsection \<open>State\<close>

record pipe =
  pi_data :: "uint8 list"
  nread :: uint32
  nwrite :: uint32
  readopen :: bool
  writeopen :: bool

record kpipe = kcons +
  pipes :: "uint64 \<Rightarrow> pipe"

abbreviation (input) pipe_lock :: "uint64 \<Rightarrow> lockid" where "pipe_lock pi \<equiv> Lock ''pipe'' (unat pi)"
abbreviation (input) nread_chan :: "uint64 \<Rightarrow> chan" where "nread_chan pi \<equiv> Chan ''nread'' (unat pi)"
abbreviation (input) nwrite_chan :: "uint64 \<Rightarrow> chan" where "nwrite_chan pi \<equiv> Chan ''nwrite'' (unat pi)"

definition upd_pipe :: "uint64 \<Rightarrow> (pipe \<Rightarrow> pipe) \<Rightarrow> 'a kpipe_scheme \<Rightarrow> 'a kpipe_scheme" where
  "upd_pipe pi f s = s\<lparr>pipes := (pipes s)(pi := f (pipes s pi))\<rparr>"

subsection \<open>Operations\<close>

definition pipeclose :: "uint64 \<Rightarrow> bool \<Rightarrow> 'a kpipe_scheme \<Rightarrow> 'a kpipe_scheme res" where
  "pipeclose pi writable s =
     bindR (acquire (pipe_lock pi) s) (\<lambda>s.
     bindR (if writable then wakeup (Some (nread_chan pi)) (upd_pipe pi (\<lambda>p. p\<lparr>writeopen := False\<rparr>) s)
            else wakeup (Some (nwrite_chan pi)) (upd_pipe pi (\<lambda>p. p\<lparr>readopen := False\<rparr>) s)) (\<lambda>s.
     if \<not> readopen (pipes s pi) \<and> \<not> writeopen (pipes s pi)
     then bindR (release (pipe_lock pi) s) (kfree pi)
     else release (pipe_lock pi) s))"

definition pipe_put :: "uint8 \<Rightarrow> pipe \<Rightarrow> pipe" where
  "pipe_put ch p = p\<lparr>pi_data := (pi_data p)[unat (nwrite p) mod PIPESIZE := ch], nwrite := nwrite p + 1\<rparr>"

text \<open>
  The loop of \<^verbatim>\<open>pipewrite\<close> with \<open>n\<close> bytes to go, \<open>i\<close> written, the lock held.  A full pipe
  wakes the readers and puts the writer to sleep.
\<close>

definition pipewrite_end :: "uint64 \<Rightarrow> nat \<Rightarrow> 'a kpipe_scheme \<Rightarrow> (ret \<times> 'a kpipe_scheme) res" where
  "pipewrite_end pi i s =
     bindR (wakeup (Some (nread_chan pi)) s) (\<lambda>s.
     bindR (release (pipe_lock pi) s) (\<lambda>s. Ok (Ret (int i), s)))"

fun pipewrite_loop :: "uint64 \<Rightarrow> uint64 \<Rightarrow> nat \<Rightarrow> nat \<Rightarrow> 'a kpipe_scheme \<Rightarrow> (ret \<times> 'a kpipe_scheme) res" where
  "pipewrite_loop pi addr 0 i s = pipewrite_end pi i s"
| "pipewrite_loop pi addr (Suc n) i s =
     bindR (myproc s) (\<lambda>pr.
     if \<not> readopen (pipes s pi) \<or> p_killed (procs s ! pr)
     then bindR (release (pipe_lock pi) s) (\<lambda>s. Ok (Ret (-1), s))
     else if nwrite (pipes s pi) = nread (pipes s pi) + of_nat PIPESIZE
     then bindR (wakeup (Some (nread_chan pi)) s) (\<lambda>s.
          bindR (sleep_out (nwrite_chan pi) (pipe_lock pi) s) (\<lambda>s. Ok (Sleep i, s)))
     else bindR (copyin (p_pagetable (procs s ! pr)) (addr + of_nat i) 1 s) (\<lambda>(r, bs).
          if r = -1 then pipewrite_end pi i s
          else pipewrite_loop pi addr n (Suc i) (upd_pipe pi (pipe_put (hd bs)) s)))"

definition pipewrite :: "uint64 \<Rightarrow> uint64 \<Rightarrow> int \<Rightarrow> 'a kpipe_scheme \<Rightarrow> (ret \<times> 'a kpipe_scheme) res" where
  "pipewrite pi addr n s =
     bindR (acquire (pipe_lock pi) s) (pipewrite_loop pi addr (nat n) 0)"

definition pipewrite_resume :: "uint64 \<Rightarrow> uint64 \<Rightarrow> int \<Rightarrow> nat \<Rightarrow> 'a kpipe_scheme \<Rightarrow> (ret \<times> 'a kpipe_scheme) res" where
  "pipewrite_resume pi addr n i s =
     bindR (sleep_in (pipe_lock pi) s) (pipewrite_loop pi addr (nat n - i) i)"

text \<open>The copying loop of \<^verbatim>\<open>piperead\<close>.\<close>

fun piperead_copy :: "uint64 \<Rightarrow> uint64 \<Rightarrow> nat \<Rightarrow> nat \<Rightarrow> 'a kpipe_scheme \<Rightarrow> (nat \<times> 'a kpipe_scheme) res" where
  "piperead_copy pi addr 0 i s = Ok (i, s)"
| "piperead_copy pi addr (Suc n) i s =
     (if nread (pipes s pi) = nwrite (pipes s pi) then Ok (i, s)
      else let ch = pi_data (pipes s pi) ! (unat (nread (pipes s pi)) mod PIPESIZE);
               s = upd_pipe pi (\<lambda>p. p\<lparr>nread := nread p + 1\<rparr>) s in
           bindR (myproc s) (\<lambda>pr.
           bindR (copyout (p_pagetable (procs s ! pr)) (addr + of_nat i) [ch] s) (\<lambda>(r, s).
           if r = -1 then Ok (i, s) else piperead_copy pi addr n (Suc i) s)))"

definition piperead_loop :: "uint64 \<Rightarrow> uint64 \<Rightarrow> int \<Rightarrow> 'a kpipe_scheme \<Rightarrow> (ret \<times> 'a kpipe_scheme) res" where
  "piperead_loop pi addr n s =
     bindR (myproc s) (\<lambda>pr.
     if nread (pipes s pi) = nwrite (pipes s pi) \<and> writeopen (pipes s pi)
     then if p_killed (procs s ! pr) then bindR (release (pipe_lock pi) s) (\<lambda>s. Ok (Ret (-1), s))
          else bindR (sleep_out (nread_chan pi) (pipe_lock pi) s) (\<lambda>s. Ok (Sleep 0, s))
     else bindR (piperead_copy pi addr (nat n) 0 s) (\<lambda>(i, s).
          bindR (wakeup (Some (nwrite_chan pi)) s) (\<lambda>s.
          bindR (release (pipe_lock pi) s) (\<lambda>s. Ok (Ret (int i), s)))))"

definition piperead :: "uint64 \<Rightarrow> uint64 \<Rightarrow> int \<Rightarrow> 'a kpipe_scheme \<Rightarrow> (ret \<times> 'a kpipe_scheme) res" where
  "piperead pi addr n s = bindR (acquire (pipe_lock pi) s) (piperead_loop pi addr n)"

definition piperead_resume :: "uint64 \<Rightarrow> uint64 \<Rightarrow> int \<Rightarrow> 'a kpipe_scheme \<Rightarrow> (ret \<times> 'a kpipe_scheme) res" where
  "piperead_resume pi addr n s = bindR (sleep_in (pipe_lock pi) s) (piperead_loop pi addr n)"

end
