(* ===== verification/File.thy ===== *)
theory File
  imports Pipe
begin

section \<open>Open files: \<^verbatim>\<open>kernel/file.c\<close>\<close>

text \<open>
  The table of open files with their reference counts, and reading, writing and closing them,
  which dispatches to pipes, devices and inodes; \<^verbatim>\<open>pipealloc\<close> of \<^verbatim>\<open>pipe.c\<close> is here because
  it allocates files.  A file is named by its index in \<open>files\<close>.  The only device in
  \<^verbatim>\<open>devsw\<close> is the console.
\<close>

abbreviation (input) NFILE :: nat where "NFILE \<equiv> 100"
abbreviation (input) NDEV :: nat where "NDEV \<equiv> 10"
abbreviation (input) CONSOLE :: nat where "CONSOLE \<equiv> 1"

subsection \<open>State\<close>

datatype ftype = FD_NONE | FD_PIPE | FD_INODE | FD_DEVICE
datatype devfun = NoDev | ConsoleDev

record file_s =
  f_type :: ftype
  f_ref :: int
  f_readable :: bool
  f_writable :: bool
  f_pipe :: uint64
  f_ip :: "nat option"
  f_off :: uint32
  f_major :: uint16

record kfile = kpipe +
  files :: "file_s list"
  devsw :: "devfun list"

abbreviation (input) ftable_lock :: lockid where "ftable_lock \<equiv> Lock ''ftable'' 0"

definition upd_file :: "nat \<Rightarrow> (file_s \<Rightarrow> file_s) \<Rightarrow> 'a kfile_scheme \<Rightarrow> 'a kfile_scheme" where
  "upd_file f g s = s\<lparr>files := (files s)[f := g (files s ! f)]\<rparr>"

text \<open>\<^verbatim>\<open>consoleinit\<close> connects the console to its device number.\<close>

definition consoleinit :: "'a kfile_scheme \<Rightarrow> 'a kfile_scheme" where
  "consoleinit s = (let s = uartinit s in s\<lparr>devsw := (devsw s)[CONSOLE := ConsoleDev]\<rparr>)"

subsection \<open>Operations\<close>

definition filealloc :: "'a kfile_scheme \<Rightarrow> (nat option \<times> 'a kfile_scheme) res" where
  "filealloc s =
     bindR (acquire ftable_lock s) (\<lambda>s.
     case find_from (\<lambda>f. f_ref f = 0) (files s) 0 NFILE of
       Some f \<Rightarrow> bindR (release ftable_lock (upd_file f (\<lambda>x. x\<lparr>f_ref := 1\<rparr>) s)) (\<lambda>s. Ok (Some f, s))
     | None \<Rightarrow> bindR (release ftable_lock s) (\<lambda>s. Ok (None, s)))"

definition filedup :: "nat \<Rightarrow> 'a kfile_scheme \<Rightarrow> (nat \<times> 'a kfile_scheme) res" where
  "filedup f s =
     bindR (acquire ftable_lock s) (\<lambda>s.
     if f_ref (files s ! f) < 1 then Panic ''filedup''
     else bindR (release ftable_lock (upd_file f (\<lambda>x. x\<lparr>f_ref := f_ref x + 1\<rparr>) s)) (\<lambda>s. Ok (f, s)))"

text \<open>A null inode pointer would fault.\<close>

definition deref :: "nat option \<Rightarrow> nat res" where
  "deref p = (case p of None \<Rightarrow> Panic ''kerneltrap'' | Some i \<Rightarrow> Ok i)"

definition fileclose :: "nat \<Rightarrow> 'a kfile_scheme \<Rightarrow> 'a kfile_scheme res" where
  "fileclose f s =
     bindR (acquire ftable_lock s) (\<lambda>s.
     if f_ref (files s ! f) < 1 then Panic ''fileclose''
     else let s = upd_file f (\<lambda>x. x\<lparr>f_ref := f_ref x - 1\<rparr>) s in
     if f_ref (files s ! f) > 0 then release ftable_lock s
     else let ff = files s ! f in
     bindR (release ftable_lock (upd_file f (\<lambda>x. x\<lparr>f_ref := 0, f_type := FD_NONE\<rparr>) s)) (\<lambda>s.
     if f_type ff = FD_PIPE then pipeclose (f_pipe ff) (f_writable ff) s
     else if f_type ff = FD_INODE \<or> f_type ff = FD_DEVICE
     then bindR (begin_op s) (\<lambda>s. bindR (deref (f_ip ff)) (\<lambda>i. bindR (iput i s) end_op))
     else Ok s))"

text \<open>
  The bytes of a \<^verbatim>\<open>struct stat\<close>.  Four bytes of padding before \<^verbatim>\<open>size\<close> are never set:
  \<open>pad\<close> is whatever the kernel stack holds there.
\<close>

definition stat_bytes :: "uint8 list \<Rightarrow> stat \<Rightarrow> uint8 list" where
  "stat_bytes pad st = le_bytes 4 (st_dev st) @ le_bytes 4 (st_ino st) @ le_bytes 2 (st_type st) @
     le_bytes 2 (st_nlink st) @ pad @ le_bytes 8 (st_size st)"

definition filestat :: "uint8 list \<Rightarrow> nat \<Rightarrow> uint64 \<Rightarrow> 'a kfile_scheme \<Rightarrow> (int \<times> 'a kfile_scheme) res" where
  "filestat pad f addr s =
     bindR (myproc s) (\<lambda>p.
     let ff = files s ! f in
     if f_type ff = FD_INODE \<or> f_type ff = FD_DEVICE
     then bindR (ilock (f_ip ff) s) (\<lambda>s.
          bindR (deref (f_ip ff)) (\<lambda>i.
          let st = stati i s in
          bindR (iunlock (f_ip ff) s) (\<lambda>s.
          bindR (copyout (p_pagetable (procs s ! p)) addr (stat_bytes pad st) s) (\<lambda>(r, s).
          Ok (if r < 0 then -1 else 0, s)))))
     else Ok (-1, s))"

text \<open>\<^verbatim>\<open>f->major < 0 || f->major >= NDEV || !devsw[f->major].read\<close>.\<close>

definition no_device :: "uint16 \<Rightarrow> 'a kfile_scheme \<Rightarrow> bool" where
  "no_device m s \<longleftrightarrow> sint m < 0 \<or> sint m \<ge> int NDEV \<or> devsw s ! unat m = NoDev"

definition fileread :: "nat \<Rightarrow> uint64 \<Rightarrow> uint32 \<Rightarrow> 'a kfile_scheme \<Rightarrow> (ret \<times> 'a kfile_scheme) res" where
  "fileread f addr n s =
     (let ff = files s ! f in
      if \<not> f_readable ff then Ok (Ret (-1), s)
      else case f_type ff of
        FD_PIPE \<Rightarrow> piperead (f_pipe ff) addr (sint n) s
      | FD_DEVICE \<Rightarrow> if no_device (f_major ff) s then Ok (Ret (-1), s) else consoleread (DUser addr) (sint n) s
      | FD_INODE \<Rightarrow>
          bindR (ilock (f_ip ff) s) (\<lambda>s.
          bindR (deref (f_ip ff)) (\<lambda>i.
          bindR (readi i (DUser addr) (f_off ff) n s) (\<lambda>(r, _, s).
          let s = (if r > 0 then upd_file f (\<lambda>x. x\<lparr>f_off := f_off x + word_of_int r\<rparr>) s else s) in
          bindR (iunlock (f_ip ff) s) (\<lambda>s. Ok (Ret r, s)))))
      | FD_NONE \<Rightarrow> Panic ''fileread'')"

text \<open>
  The loop of \<^verbatim>\<open>filewrite\<close> over an inode: at most \<^verbatim>\<open>((MAXOPBLOCKS-1-1-2) / 2) * BSIZE\<close> bytes
  per transaction.
\<close>

abbreviation (input) FILE_MAX :: nat where "FILE_MAX \<equiv> 3072"

function filewrite_loop :: "nat \<Rightarrow> uint64 \<Rightarrow> nat \<Rightarrow> nat \<Rightarrow> 'a kfile_scheme \<Rightarrow> (nat \<times> 'a kfile_scheme) res" where
  "filewrite_loop f addr n i s =
     (if i < n
      then let n1 = min (n - i) FILE_MAX in
           bindR (begin_op s) (\<lambda>s.
           bindR (ilock (f_ip (files s ! f)) s) (\<lambda>s.
           bindR (deref (f_ip (files s ! f))) (\<lambda>ip.
           bindR (writei ip (SUser (addr + of_nat i)) (f_off (files s ! f)) (of_nat n1) s) (\<lambda>(r, s).
           let s = (if r > 0 then upd_file f (\<lambda>x. x\<lparr>f_off := f_off x + word_of_int r\<rparr>) s else s) in
           bindR (iunlock (f_ip (files s ! f)) s) (\<lambda>s.
           bindR (end_op s) (\<lambda>s.
           if r \<noteq> int n1 then Ok (i, s) else filewrite_loop f addr n (i + n1) s))))))
      else Ok (i, s))"
  by pat_completeness auto

termination
  by (relation "measure (\<lambda>(_, _, n, i, _). n - i)") auto

declare filewrite_loop.simps [simp del]

definition filewrite :: "nat \<Rightarrow> uint64 \<Rightarrow> uint32 \<Rightarrow> 'a kfile_scheme \<Rightarrow> (ret \<times> 'a kfile_scheme) res" where
  "filewrite f addr n s =
     (let ff = files s ! f in
      if \<not> f_writable ff then Ok (Ret (-1), s)
      else case f_type ff of
        FD_PIPE \<Rightarrow> pipewrite (f_pipe ff) addr (sint n) s
      | FD_DEVICE \<Rightarrow> if no_device (f_major ff) s then Ok (Ret (-1), s) else consolewrite (SUser addr) (sint n) s
      | FD_INODE \<Rightarrow>
          bindR (filewrite_loop f addr (nat (sint n)) 0 s) (\<lambda>(i, s).
          Ok (Ret (if int i = sint n then sint n else -1), s))
      | FD_NONE \<Rightarrow> Panic ''filewrite'')"

definition pipealloc_bad :: "uint64 \<Rightarrow> nat option \<Rightarrow> nat option \<Rightarrow> 'a kfile_scheme \<Rightarrow> ((nat \<times> nat) option \<times> 'a kfile_scheme) res" where
  "pipealloc_bad pi f0 f1 s =
     bindR (if pi \<noteq> 0 then kfree pi s else Ok s) (\<lambda>s.
     bindR (case f0 of Some f \<Rightarrow> fileclose f s | None \<Rightarrow> Ok s) (\<lambda>s.
     bindR (case f1 of Some f \<Rightarrow> fileclose f s | None \<Rightarrow> Ok s) (\<lambda>s.
     Ok (None, s))))"

text \<open>The data bytes of a new pipe are whatever the page held.\<close>

definition pipealloc :: "'a kfile_scheme \<Rightarrow> ((nat \<times> nat) option \<times> 'a kfile_scheme) res" where
  "pipealloc s =
     bindR (filealloc s) (\<lambda>(f0, s).
     case f0 of
       None \<Rightarrow> pipealloc_bad 0 None None s
     | Some a \<Rightarrow>
         bindR (filealloc s) (\<lambda>(f1, s).
         case f1 of
           None \<Rightarrow> pipealloc_bad 0 f0 None s
         | Some b \<Rightarrow>
             bindR (kalloc s) (\<lambda>(pi, s).
             if pi = 0 then pipealloc_bad 0 f0 f1 s
             else let s = upd_pipe pi (\<lambda>p. \<lparr>pi_data = mem_get (mem s) (pi + 24) PIPESIZE, nread = 0, nwrite = 0,
                        readopen = True, writeopen = True\<rparr>) s;
                      s = upd_file a (\<lambda>x. x\<lparr>f_type := FD_PIPE, f_readable := True, f_writable := False, f_pipe := pi\<rparr>) s;
                      s = upd_file b (\<lambda>x. x\<lparr>f_type := FD_PIPE, f_readable := False, f_writable := True, f_pipe := pi\<rparr>) s
                  in Ok (Some (a, b), s))))"

end
