(* ===== verification/Proc.thy ===== *)
theory Proc
  imports File
begin

section \<open>Process creation and exit: \<^verbatim>\<open>kernel/proc.c\<close>\<close>

text \<open>
  The functions of \<^verbatim>\<open>proc.c\<close> that need the file system: the first process, fork, exit and
  wait.  The trampoline's physical address and the address of \<^verbatim>\<open>forkret\<close> come from the
  linker and are arguments.
\<close>

definition initcode :: "uint8 list" where
  "initcode =
    [0x17, 0x05, 0x00, 0x00, 0x13, 0x05, 0x45, 0x02,
     0x97, 0x05, 0x00, 0x00, 0x93, 0x85, 0x35, 0x02,
     0x93, 0x08, 0x70, 0x00, 0x73, 0x00, 0x00, 0x00,
     0x93, 0x08, 0x20, 0x00, 0x73, 0x00, 0x00, 0x00,
     0xef, 0xf0, 0x9f, 0xff, 0x2f, 0x69, 0x6e, 0x69,
     0x74, 0x00, 0x00, 0x24, 0x00, 0x00, 0x00, 0x00,
     0x00, 0x00, 0x00, 0x00]"

definition set_name :: "nat \<Rightarrow> uint8 list \<Rightarrow> 'a kproc_scheme \<Rightarrow> 'a kproc_scheme res" where
  "set_name p nm s =
     bindR (optR (safestrcpy (p_name (procs s ! p)) nm 16)) (\<lambda>buf.
     Ok (upd_proc p (\<lambda>q. q\<lparr>p_name := buf\<rparr>) s))"

definition userinit :: "uint64 \<Rightarrow> uint64 \<Rightarrow> 'a kfile_scheme \<Rightarrow> 'a kfile_scheme res" where
  "userinit trampoline forkret s =
     bindR (allocproc trampoline forkret s) (\<lambda>(r, s).
     let s = s\<lparr>initproc := r\<rparr> in
     case r of
       None \<Rightarrow> Panic ''kerneltrap''
     | Some p \<Rightarrow>
         bindR (uvminit (p_pagetable (procs s ! p)) initcode s) (\<lambda>s.
         let s = upd_proc p (\<lambda>q. q\<lparr>p_sz := PGSIZE\<rparr>) s;
             s = tf_set p tf_epc 0 s;
             s = tf_set p tf_sp PGSIZE s in
         bindR (set_name p (bytes_of ''initcode'' @ [0]) s) (\<lambda>s.
         bindR (namei (bytes_of ''/'') s) (\<lambda>(ip, s).
         release (plock p) (upd_proc p (\<lambda>q. q\<lparr>p_cwd := ip, p_state := RUNNABLE\<rparr>) s)))))"

definition fork_file :: "nat \<Rightarrow> nat \<Rightarrow> nat \<Rightarrow> 'a kfile_scheme \<Rightarrow> 'a kfile_scheme res" where
  "fork_file p np i s =
     (case p_ofile (procs s ! p) ! i of
        None \<Rightarrow> Ok s
      | Some f \<Rightarrow> bindR (filedup f s) (\<lambda>(f, s). Ok (upd_proc np (\<lambda>q. q\<lparr>p_ofile := (p_ofile q)[i := Some f]\<rparr>) s)))"

definition fork :: "uint64 \<Rightarrow> uint64 \<Rightarrow> 'a kfile_scheme \<Rightarrow> (int \<times> 'a kfile_scheme) res" where
  "fork trampoline forkret s =
     bindR (myproc s) (\<lambda>p.
     bindR (allocproc trampoline forkret s) (\<lambda>(r, s).
     case r of
       None \<Rightarrow> Ok (-1, s)
     | Some np \<Rightarrow>
         bindR (uvmcopy (p_pagetable (procs s ! p)) (p_pagetable (procs s ! np)) (p_sz (procs s ! p)) s) (\<lambda>(c, s).
         if c < 0
         then bindR (freeproc np s) (\<lambda>s. bindR (release (plock np) s) (\<lambda>s. Ok (-1, s)))
         else
           let s = upd_proc np (\<lambda>q. q\<lparr>p_sz := p_sz (procs s ! p)\<rparr>) s;
               s = s\<lparr>mem := mem_put (mem s) (p_trapframe (procs s ! np)) (mem_get (mem s) (p_trapframe (procs s ! p)) TF_SIZE)\<rparr>;
               s = tf_set np tf_a0 0 s in
           bindR (foreach (fork_file p np) 0 NOFILE s) (\<lambda>s.
           bindR (deref (p_cwd (procs s ! p))) (\<lambda>cwd.
           bindR (idup cwd s) (\<lambda>(cwd, s).
           bindR (set_name np (p_name (procs s ! p)) (upd_proc np (\<lambda>q. q\<lparr>p_cwd := Some cwd\<rparr>) s)) (\<lambda>s.
           let pid = p_pid (procs s ! np) in
           bindR (release (plock np) s) (\<lambda>s.
           bindR (acquire wait_lock s) (\<lambda>s.
           bindR (release wait_lock (upd_proc np (\<lambda>q. q\<lparr>p_parent := Some p\<rparr>) s)) (\<lambda>s.
           bindR (acquire (plock np) s) (\<lambda>s.
           bindR (release (plock np) (upd_proc np (\<lambda>q. q\<lparr>p_state := RUNNABLE\<rparr>) s)) (\<lambda>s.
           Ok (pid, upd_proc np (\<lambda>q. q\<lparr>p_trace_mask := p_trace_mask (procs s ! p)\<rparr>) s))))))))))))) "

definition close_fd :: "nat \<Rightarrow> nat \<Rightarrow> 'a kfile_scheme \<Rightarrow> 'a kfile_scheme res" where
  "close_fd p fd s =
     (case p_ofile (procs s ! p) ! fd of
        None \<Rightarrow> Ok s
      | Some f \<Rightarrow> bindR (fileclose f s) (\<lambda>s. Ok (upd_proc p (\<lambda>q. q\<lparr>p_ofile := (p_ofile q)[fd := None]\<rparr>) s)))"

text \<open>\<^verbatim>\<open>exit\<close> up to its switch to the scheduler, from which it does not come back.\<close>

definition kexit :: "uint32 \<Rightarrow> 'a kfile_scheme \<Rightarrow> 'a kfile_scheme res" where
  "kexit status s =
     bindR (myproc s) (\<lambda>p.
     if Some p = initproc s then Panic ''init exiting''
     else bindR (foreach (close_fd p) 0 NOFILE s) (\<lambda>s.
          bindR (begin_op s) (\<lambda>s.
          bindR (deref (p_cwd (procs s ! p))) (\<lambda>cwd.
          bindR (iput cwd s) (\<lambda>s.
          bindR (end_op s) (\<lambda>s.
          let s = upd_proc p (\<lambda>q. q\<lparr>p_cwd := None\<rparr>) s in
          bindR (acquire wait_lock s) (\<lambda>s.
          bindR (reparent p s) (\<lambda>s.
          bindR (wakeup (pchan (p_parent (procs s ! p))) s) (exit_out status)))))))))"

text \<open>
  One slot of the scan of \<^verbatim>\<open>wait\<close>: \<open>Some r\<close> when the function returns \<open>r\<close>; the flag is
  \<^verbatim>\<open>havekids\<close>.
\<close>

definition wait_at :: "nat \<Rightarrow> uint64 \<Rightarrow> nat \<Rightarrow> bool \<times> 'a kfile_scheme \<Rightarrow> (int option \<times> bool \<times> 'a kfile_scheme) res" where
  "wait_at p addr np = (\<lambda>(havekids, s).
     if p_parent (procs s ! np) = Some p
     then bindR (acquire (plock np) s) (\<lambda>s.
          if p_state (procs s ! np) = ZOMBIE
          then let pid = p_pid (procs s ! np) in
               bindR (if addr \<noteq> 0 then copyout (p_pagetable (procs s ! p)) addr (le_bytes 4 (p_xstate (procs s ! np))) s else Ok (0, s)) (\<lambda>(r, s).
               if r < 0
               then bindR (release (plock np) s) (\<lambda>s. bindR (release wait_lock s) (\<lambda>s. Ok (Some (-1), True, s)))
               else bindR (freeproc np s) (\<lambda>s.
                    bindR (release (plock np) s) (\<lambda>s.
                    bindR (release wait_lock s) (\<lambda>s. Ok (Some pid, True, s)))))
          else bindR (release (plock np) s) (\<lambda>s. Ok (None, True, s)))
     else Ok (None, havekids, s))"

text \<open>\<^verbatim>\<open>wait\<close> from the head of its loop, with \<^verbatim>\<open>wait_lock\<close> held.\<close>

definition wait_loop :: "uint64 \<Rightarrow> 'a kfile_scheme \<Rightarrow> (ret \<times> 'a kfile_scheme) res" where
  "wait_loop addr s =
     bindR (myproc s) (\<lambda>p.
     bindR (foreach_ret (wait_at p addr) 0 NPROC (False, s)) (\<lambda>(r, havekids, s).
     case r of
       Some x \<Rightarrow> Ok (Ret x, s)
     | None \<Rightarrow>
         if \<not> havekids \<or> p_killed (procs s ! p)
         then bindR (release wait_lock s) (\<lambda>s. Ok (Ret (-1), s))
         else bindR (sleep_out (Chan ''proc'' p) wait_lock s) (\<lambda>s. Ok (Sleep 0, s))))"

definition wait :: "uint64 \<Rightarrow> 'a kfile_scheme \<Rightarrow> (ret \<times> 'a kfile_scheme) res" where
  "wait addr s = bindR (acquire wait_lock s) (wait_loop addr)"

definition wait_resume :: "uint64 \<Rightarrow> 'a kfile_scheme \<Rightarrow> (ret \<times> 'a kfile_scheme) res" where
  "wait_resume addr s = bindR (sleep_in wait_lock s) (wait_loop addr)"

end
