(* ===== verification/Exec.thy ===== *)
theory Exec
  imports Proc
begin

section \<open>Loading programs: \<^verbatim>\<open>kernel/exec.c\<close>\<close>

text \<open>
  \<^verbatim>\<open>exec\<close> replaces the memory of a process by a program read from a file.  Its local
  \<^verbatim>\<open>goto bad\<close> is the definition \<open>exec_bad\<close>, with the page table built so far and the inode
  if it is still locked.
\<close>

abbreviation (input) ELF_MAGIC :: uint32 where "ELF_MAGIC \<equiv> 0x464C457F"
abbreviation (input) ELF_PROG_LOAD :: uint32 where "ELF_PROG_LOAD \<equiv> 1"
abbreviation (input) MAXARG :: nat where "MAXARG \<equiv> 32"

subsection \<open>ELF structures\<close>

record elfhdr =
  e_magic :: uint32
  e_entry :: uint64
  e_phoff :: uint64
  e_phnum :: uint16

record proghdr =
  ph_type :: uint32
  ph_off :: uint64
  ph_vaddr :: uint64
  ph_filesz :: uint64
  ph_memsz :: uint64

abbreviation (input) ELFHDR_SIZE :: nat where "ELFHDR_SIZE \<equiv> 64"
abbreviation (input) PROGHDR_SIZE :: nat where "PROGHDR_SIZE \<equiv> 56"

definition get_elfhdr :: "uint8 list \<Rightarrow> elfhdr" where
  "get_elfhdr d = \<lparr>e_magic = get32 0 d, e_entry = get64 24 d, e_phoff = get64 32 d, e_phnum = get16 56 d\<rparr>"

definition get_proghdr :: "uint8 list \<Rightarrow> proghdr" where
  "get_proghdr d = \<lparr>ph_type = get32 0 d, ph_off = get64 8 d, ph_vaddr = get64 16 d, ph_filesz = get64 32 d,
     ph_memsz = get64 40 d\<rparr>"

subsection \<open>Segments\<close>

text \<open>
  One page of \<^verbatim>\<open>loadseg\<close>, \<open>k\<close> pages in: \<open>Some (-1)\<close> when the function returns.
\<close>

definition loadseg_at ::
  "uint64 \<Rightarrow> uint64 \<Rightarrow> nat \<Rightarrow> uint32 \<Rightarrow> uint32 \<Rightarrow> nat \<Rightarrow> 'a kfs_scheme \<Rightarrow> (int option \<times> 'a kfs_scheme) res" where
  "loadseg_at pt va ip offset sz k s =
     (let i = of_nat (4096 * k) :: uint32 in
      bindR (walkaddr pt (va + ucast i) s) (\<lambda>pa.
      if pa = 0 then Panic ''loadseg: address should exist''
      else let n = (if sz - i < 4096 then sz - i else 4096) in
           bindR (readi ip (DKern pa) (offset + i) n s) (\<lambda>(r, _, s).
           Ok (if (word_of_int r :: uint32) \<noteq> n then Some (-1) else None, s))))"

text \<open>\<^verbatim>\<open>for(i = 0; i < sz; i += PGSIZE)\<close>.\<close>

definition loadseg :: "uint64 \<Rightarrow> uint64 \<Rightarrow> nat \<Rightarrow> uint32 \<Rightarrow> uint32 \<Rightarrow> 'a kfs_scheme \<Rightarrow> (int \<times> 'a kfs_scheme) res" where
  "loadseg pt va ip offset sz s =
     bindR (foreach_ret (loadseg_at pt va ip offset sz) 0 ((unat sz + 4095) div 4096) s) (\<lambda>(r, s).
     Ok (case r of Some x \<Rightarrow> x | None \<Rightarrow> 0, s))"

text \<open>
  One program header: the flag is \<open>True\<close> for \<^verbatim>\<open>goto bad\<close>; the new size is returned in both
  cases, since the clean-up needs it.
\<close>

definition load_ph ::
  "uint64 \<Rightarrow> nat \<Rightarrow> uint32 \<Rightarrow> uint64 \<Rightarrow> 'a kfs_scheme \<Rightarrow> (bool \<times> uint64 \<times> 'a kfs_scheme) res" where
  "load_ph pt ip off sz s =
     bindR (readi ip (DLocal (replicate PROGHDR_SIZE 0)) off (of_nat PROGHDR_SIZE) s) (\<lambda>(r, d, s).
     let ph = get_proghdr (local_bytes d) in
     if r \<noteq> int PROGHDR_SIZE then Ok (True, sz, s)
     else if ph_type ph \<noteq> ELF_PROG_LOAD then Ok (False, sz, s)
     else if ph_memsz ph < ph_filesz ph then Ok (True, sz, s)
     else if ph_vaddr ph + ph_memsz ph < ph_vaddr ph then Ok (True, sz, s)
     else bindR (uvmalloc pt sz (ph_vaddr ph + ph_memsz ph) s) (\<lambda>(sz1, s).
          if sz1 = 0 then Ok (True, sz, s)
          else if ph_vaddr ph mod PGSIZE \<noteq> 0 then Ok (True, sz1, s)
          else bindR (loadseg pt (ph_vaddr ph) ip (ucast (ph_off ph)) (ucast (ph_filesz ph)) s) (\<lambda>(r, s).
               Ok (r < 0, sz1, s))))"

fun load_phs :: "nat \<Rightarrow> uint64 \<Rightarrow> nat \<Rightarrow> uint32 \<Rightarrow> uint64 \<Rightarrow> 'a kfs_scheme \<Rightarrow> (bool \<times> uint64 \<times> 'a kfs_scheme) res" where
  "load_phs 0 pt ip off sz s = Ok (False, sz, s)"
| "load_phs (Suc n) pt ip off sz s =
     bindR (load_ph pt ip off sz s) (\<lambda>(bad, sz, s).
     if bad then Ok (True, sz, s) else load_phs n pt ip (off + of_nat PROGHDR_SIZE) sz s)"

subsection \<open>The stack\<close>

text \<open>
  Pushing the argument strings: the addresses of the strings pushed so far and the stack
  pointer, or \<open>None\<close> for \<^verbatim>\<open>goto bad\<close>.  The strings are without their NULs.
\<close>

fun push_args ::
  "uint64 \<Rightarrow> uint64 \<Rightarrow> uint8 list list \<Rightarrow> uint64 list \<Rightarrow> uint64 \<Rightarrow> 'a kmem_scheme
    \<Rightarrow> ((uint64 list \<times> uint64) option \<times> 'a kmem_scheme) res" where
  "push_args pt base [] ustack sp s = Ok (Some (ustack, sp), s)"
| "push_args pt base (a # argv) ustack sp s =
     (if length ustack \<ge> MAXARG then Ok (None, s)
      else let sp = sp - (of_nat (length a) + 1); sp = sp - sp mod 16 in
           if sp < base then Ok (None, s)
           else bindR (copyout pt sp (a @ [0]) s) (\<lambda>(r, s).
                if r < 0 then Ok (None, s) else push_args pt base argv (ustack @ [sp]) sp s))"

text \<open>The last element of the path: what follows its last slash.\<close>

definition last_elem :: "uint8 list \<Rightarrow> uint8 list" where
  "last_elem path = rev (takeWhile (\<lambda>c. c \<noteq> slash) (rev path))"

subsection \<open>exec\<close>

text \<open>With \<^verbatim>\<open>MAXARG\<close> arguments the store of the final null into \<^verbatim>\<open>ustack\<close> is out of bounds.\<close>

definition exec_bad :: "uint64 \<Rightarrow> uint64 \<Rightarrow> nat option \<Rightarrow> 'a kfs_scheme \<Rightarrow> (int \<times> 'a kfs_scheme) res" where
  "exec_bad pt sz ip s =
     bindR (if pt \<noteq> 0 then proc_freepagetable pt sz s else Ok s) (\<lambda>s.
     bindR (case ip of None \<Rightarrow> Ok s | Some i \<Rightarrow> bindR (iunlockput i s) end_op) (\<lambda>s.
     Ok (-1, s)))"

text \<open>From the point where the program is loaded to the return.\<close>

definition exec_stack ::
  "uint8 list \<Rightarrow> uint8 list list \<Rightarrow> elfhdr \<Rightarrow> uint64 \<Rightarrow> uint64 \<Rightarrow> 'a kfs_scheme \<Rightarrow> (int \<times> 'a kfs_scheme) res" where
  "exec_stack path argv elf pt sz s =
     bindR (myproc s) (\<lambda>p.
     let oldsz = p_sz (procs s ! p); sz = PGROUNDUP sz in
     bindR (uvmalloc pt sz (sz + 2 * PGSIZE) s) (\<lambda>(sz1, s).
     if sz1 = 0 then exec_bad pt sz None s
     else let sz = sz1 in
     bindR (uvmclear pt (sz - 2 * PGSIZE) s) (\<lambda>s.
     let base = sz - PGSIZE in
     bindR (push_args pt base argv [] sz s) (\<lambda>(r, s).
     case r of
       None \<Rightarrow> exec_bad pt sz None s
     | Some (ustack, sp) \<Rightarrow>
         let argc = length argv; sp = sp - (of_nat argc + 1) * 8; sp = sp - sp mod 16 in
         if argc \<ge> MAXARG then Undef
         else if sp < base then exec_bad pt sz None s
         else bindR (copyout pt sp (concat (map (le_bytes 8) (ustack @ [0]))) s) (\<lambda>(r, s).
         if r < 0 then exec_bad pt sz None s
         else bindR (set_name p (last_elem path @ [0]) (tf_set p tf_a1 sp s)) (\<lambda>s.
              let oldpt = p_pagetable (procs s ! p);
                  s = upd_proc p (\<lambda>q. q\<lparr>p_pagetable := pt, p_sz := sz\<rparr>) s;
                  s = tf_set p tf_epc (e_entry elf) s;
                  s = tf_set p tf_sp sp s in
              bindR (proc_freepagetable oldpt oldsz s) (\<lambda>s. Ok (int argc, s))))))))"

definition exec :: "uint64 \<Rightarrow> uint8 list \<Rightarrow> uint8 list list \<Rightarrow> 'a kfs_scheme \<Rightarrow> (int \<times> 'a kfs_scheme) res" where
  "exec trampoline path argv s =
     bindR (myproc s) (\<lambda>p.
     bindR (begin_op s) (\<lambda>s.
     bindR (namei path s) (\<lambda>(r, s).
     case r of
       None \<Rightarrow> bindR (end_op s) (\<lambda>s. Ok (-1, s))
     | Some ip \<Rightarrow>
         bindR (ilock (Some ip) s) (\<lambda>s.
         bindR (readi ip (DLocal (replicate ELFHDR_SIZE 0)) 0 (of_nat ELFHDR_SIZE) s) (\<lambda>(r, d, s).
         let elf = get_elfhdr (local_bytes d) in
         if r \<noteq> int ELFHDR_SIZE then exec_bad 0 0 (Some ip) s
         else if e_magic elf \<noteq> ELF_MAGIC then exec_bad 0 0 (Some ip) s
         else bindR (proc_pagetable trampoline (p_trapframe (procs s ! p)) s) (\<lambda>(pt, s).
         if pt = 0 then exec_bad 0 0 (Some ip) s
         else bindR (load_phs (unat (e_phnum elf)) pt ip (ucast (e_phoff elf)) 0 s) (\<lambda>(bad, sz, s).
         if bad then exec_bad pt sz (Some ip) s
         else bindR (iunlockput ip s) (\<lambda>s.
              bindR (end_op s) (exec_stack path argv elf pt sz))))))))) "

end
