(* ===== verification/Syscall.thy ===== *)
theory Syscall
  imports Exec
begin

section \<open>System call arguments: \<^verbatim>\<open>kernel/syscall.c\<close>\<close>

text \<open>
  Fetching the arguments of a system call from the trap frame and from user memory.  The
  dispatcher \<^verbatim>\<open>syscall\<close> is with the calls themselves.
\<close>

definition fetchaddr :: "uint64 \<Rightarrow> 'a kmem_scheme \<Rightarrow> (int \<times> uint64) res" where
  "fetchaddr addr s =
     bindR (myproc s) (\<lambda>p.
     if addr \<ge> p_sz (procs s ! p) \<or> addr + 8 > p_sz (procs s ! p) then Ok (-1, 0)
     else bindR (copyin (p_pagetable (procs s ! p)) addr 8 s) (\<lambda>(r, bs).
          if r \<noteq> 0 then Ok (-1, 0) else Ok (0, le_cat bs)))"

text \<open>The length of the string, and the bytes put into the buffer.\<close>

definition fetchstr :: "uint64 \<Rightarrow> nat \<Rightarrow> 'a kmem_scheme \<Rightarrow> (int \<times> uint8 list) res" where
  "fetchstr addr mx s =
     bindR (myproc s) (\<lambda>p.
     bindR (copyinstr (p_pagetable (procs s ! p)) addr mx s) (\<lambda>(err, bs).
     if err < 0 then Ok (err, bs)
     else bindR (optR (strlen bs)) (\<lambda>n. Ok (int n, bs))))"

definition argraw :: "nat \<Rightarrow> 'a kmem_scheme \<Rightarrow> uint64 res" where
  "argraw n s =
     bindR (myproc s) (\<lambda>p.
     if n \<le> 5 then Ok (tf_get p (tf_a0 + 8 * of_nat n) s) else Panic ''argraw'')"

definition argint :: "nat \<Rightarrow> 'a kmem_scheme \<Rightarrow> (int \<times> uint32) res" where
  "argint n s = bindR (argraw n s) (\<lambda>x. Ok (0, ucast x))"

definition argaddr :: "nat \<Rightarrow> 'a kmem_scheme \<Rightarrow> (int \<times> uint64) res" where
  "argaddr n s = bindR (argraw n s) (\<lambda>x. Ok (0, x))"

definition argstr :: "nat \<Rightarrow> nat \<Rightarrow> 'a kmem_scheme \<Rightarrow> (int \<times> uint8 list) res" where
  "argstr n mx s =
     bindR (argaddr n s) (\<lambda>(r, addr). if r < 0 then Ok (-1, []) else fetchstr addr mx s)"

end
