(* ===== verification/Sysfile.thy ===== *)
theory Sysfile
  imports Syscall
begin

section \<open>File-system calls: \<^verbatim>\<open>kernel/sysfile.c\<close>\<close>

text \<open>
  The system calls on files and directories.  Each returns the value for register a0, as an
  \<^verbatim>\<open>int\<close>, with the state; a call that may go to sleep in the middle returns \<open>Sleep\<close>.
\<close>

abbreviation (input) MAXPATH :: nat where "MAXPATH \<equiv> 128"
abbreviation (input) O_RDONLY :: uint32 where "O_RDONLY \<equiv> 0"
abbreviation (input) O_WRONLY :: uint32 where "O_WRONLY \<equiv> 1"
abbreviation (input) O_RDWR :: uint32 where "O_RDWR \<equiv> 2"
abbreviation (input) O_CREATE :: uint32 where "O_CREATE \<equiv> 0x200"
abbreviation (input) O_TRUNC :: uint32 where "O_TRUNC \<equiv> 0x400"

subsection \<open>File descriptors\<close>

text \<open>\<open>None\<close> is the return value -1.\<close>

definition argfd :: "nat \<Rightarrow> 'a kfile_scheme \<Rightarrow> (nat \<times> nat) option res" where
  "argfd n s =
     bindR (argint n s) (\<lambda>(r, fd).
     if r < 0 then Ok None
     else if sint fd < 0 \<or> sint fd \<ge> int NOFILE then Ok None
     else bindR (myproc s) (\<lambda>p.
          case p_ofile (procs s ! p) ! unat fd of None \<Rightarrow> Ok None | Some f \<Rightarrow> Ok (Some (unat fd, f))))"

definition set_fd :: "nat \<Rightarrow> nat \<Rightarrow> nat option \<Rightarrow> 'a kproc_scheme \<Rightarrow> 'a kproc_scheme" where
  "set_fd p fd v s = upd_proc p (\<lambda>q. q\<lparr>p_ofile := (p_ofile q)[fd := v]\<rparr>) s"

definition fdalloc :: "nat \<Rightarrow> 'a kproc_scheme \<Rightarrow> (int \<times> 'a kproc_scheme) res" where
  "fdalloc f s =
     bindR (myproc s) (\<lambda>p.
     case find_from (\<lambda>x. x = None) (p_ofile (procs s ! p)) 0 NOFILE of
       Some fd \<Rightarrow> Ok (int fd, set_fd p fd (Some f) s)
     | None \<Rightarrow> Ok (-1, s))"

definition sys_dup :: "'a kfile_scheme \<Rightarrow> (int \<times> 'a kfile_scheme) res" where
  "sys_dup s =
     bindR (argfd 0 s) (\<lambda>r.
     case r of
       None \<Rightarrow> Ok (-1, s)
     | Some (_, f) \<Rightarrow>
         bindR (fdalloc f s) (\<lambda>(fd, s).
         if fd < 0 then Ok (-1, s) else bindR (filedup f s) (\<lambda>(_, s). Ok (fd, s))))"

definition sys_read :: "'a kfile_scheme \<Rightarrow> (ret \<times> 'a kfile_scheme) res" where
  "sys_read s =
     bindR (argfd 0 s) (\<lambda>r.
     case r of
       None \<Rightarrow> Ok (Ret (-1), s)
     | Some (_, f) \<Rightarrow>
         bindR (argint 2 s) (\<lambda>(r, n).
         if r < 0 then Ok (Ret (-1), s)
         else bindR (argaddr 1 s) (\<lambda>(r, p). if r < 0 then Ok (Ret (-1), s) else fileread f p n s)))"

definition sys_write :: "'a kfile_scheme \<Rightarrow> (ret \<times> 'a kfile_scheme) res" where
  "sys_write s =
     bindR (argfd 0 s) (\<lambda>r.
     case r of
       None \<Rightarrow> Ok (Ret (-1), s)
     | Some (_, f) \<Rightarrow>
         bindR (argint 2 s) (\<lambda>(r, n).
         if r < 0 then Ok (Ret (-1), s)
         else bindR (argaddr 1 s) (\<lambda>(r, p). if r < 0 then Ok (Ret (-1), s) else filewrite f p n s)))"

definition sys_close :: "'a kfile_scheme \<Rightarrow> (int \<times> 'a kfile_scheme) res" where
  "sys_close s =
     bindR (argfd 0 s) (\<lambda>r.
     case r of
       None \<Rightarrow> Ok (-1, s)
     | Some (fd, f) \<Rightarrow>
         bindR (myproc s) (\<lambda>p.
         bindR (fileclose f (set_fd p fd None s)) (\<lambda>s. Ok (0, s))))"

definition sys_fstat :: "uint8 list \<Rightarrow> 'a kfile_scheme \<Rightarrow> (int \<times> 'a kfile_scheme) res" where
  "sys_fstat pad s =
     bindR (argfd 0 s) (\<lambda>r.
     case r of
       None \<Rightarrow> Ok (-1, s)
     | Some (_, f) \<Rightarrow> bindR (argaddr 1 s) (\<lambda>(r, st). if r < 0 then Ok (-1, s) else filestat pad f st s))"

subsection \<open>Links\<close>

definition add_nlink :: "uint16 \<Rightarrow> nat \<Rightarrow> 'a kfs_scheme \<Rightarrow> 'a kfs_scheme" where
  "add_nlink d i s = upd_inode i (\<lambda>ip. ip\<lparr>i_nlink := i_nlink ip + d\<rparr>) s"

text \<open>End the transaction and return a value.\<close>

definition end_ret :: "int \<Rightarrow> 'a klog_scheme \<Rightarrow> (int \<times> 'a klog_scheme) res" where
  "end_ret r s = bindR (end_op s) (\<lambda>s. Ok (r, s))"

definition sys_link_bad :: "nat \<Rightarrow> 'a kfs_scheme \<Rightarrow> (int \<times> 'a kfs_scheme) res" where
  "sys_link_bad ip s =
     bindR (ilock (Some ip) s) (\<lambda>s.
     bindR (iupdate ip (add_nlink (-1) ip s)) (\<lambda>s.
     bindR (iunlockput ip s) (end_ret (-1))))"

definition sys_link :: "'a kfs_scheme \<Rightarrow> (int \<times> 'a kfs_scheme) res" where
  "sys_link s =
     bindR (argstr 0 MAXPATH s) (\<lambda>(r, old).
     if r < 0 then Ok (-1, s)
     else bindR (argstr 1 MAXPATH s) (\<lambda>(r, new).
     if r < 0 then Ok (-1, s)
     else bindR (begin_op s) (\<lambda>s.
     bindR (namei (cstr old) s) (\<lambda>(r, s).
     case r of
       None \<Rightarrow> end_ret (-1) s
     | Some ip \<Rightarrow>
         bindR (ilock (Some ip) s) (\<lambda>s.
         if i_type (inodes s ! ip) = T_DIR then bindR (iunlockput ip s) (end_ret (-1))
         else bindR (iupdate ip (add_nlink 1 ip s)) (\<lambda>s.
              bindR (iunlock (Some ip) s) (\<lambda>s.
              bindR (nameiparent (cstr new) s) (\<lambda>(r, s).
              case r of
                None \<Rightarrow> sys_link_bad ip s
              | Some (dp, name) \<Rightarrow>
                  bindR (ilock (Some dp) s) (\<lambda>s.
                  bindR (if i_dev (inodes s ! dp) \<noteq> i_dev (inodes s ! ip) then Ok (-1, s)
                         else dirlink dp name (i_inum (inodes s ! ip)) s) (\<lambda>(r, s).
                  if r < 0 then bindR (iunlockput dp s) (sys_link_bad ip)
                  else bindR (iunlockput dp s) (\<lambda>s. bindR (iput ip s) (end_ret 0)))))))))))) "

definition isdirempty_at :: "nat \<Rightarrow> nat \<Rightarrow> 'a kfs_scheme \<Rightarrow> (bool option \<times> 'a kfs_scheme) res" where
  "isdirempty_at dp k s =
     bindR (read_de dp (DE_SIZE * k) ''isdirempty: readi'' s) (\<lambda>(de, s).
     Ok (if de_inum de \<noteq> 0 then Some False else None, s))"

definition isdirempty :: "nat \<Rightarrow> 'a kfs_scheme \<Rightarrow> (bool \<times> 'a kfs_scheme) res" where
  "isdirempty dp s =
     bindR (foreach_ret (isdirempty_at dp) 2 (de_count (i_size (inodes s ! dp)) - 2) s) (\<lambda>(r, s).
     Ok (case r of Some b \<Rightarrow> b | None \<Rightarrow> True, s))"

definition dot :: "uint8 list" where "dot = [46, 0]"
definition dotdot :: "uint8 list" where "dotdot = [46, 46, 0]"

text \<open>The part of \<^verbatim>\<open>sys_unlink\<close> from the lookup on, with the directory locked.\<close>

definition sys_unlink_entry :: "nat \<Rightarrow> uint8 list \<Rightarrow> 'a kfs_scheme \<Rightarrow> (int \<times> 'a kfs_scheme) res" where
  "sys_unlink_entry dp name s =
     bindR (dirlookup dp name s) (\<lambda>(r, s).
     case r of
       None \<Rightarrow> bindR (iunlockput dp s) (end_ret (-1))
     | Some (ip, off) \<Rightarrow>
         bindR (ilock (Some ip) s) (\<lambda>s.
         if sint (i_nlink (inodes s ! ip)) < 1 then Panic ''unlink: nlink < 1''
         else bindR (if i_type (inodes s ! ip) = T_DIR then isdirempty ip s else Ok (True, s)) (\<lambda>(e, s).
         if \<not> e then bindR (iunlockput ip s) (\<lambda>s. bindR (iunlockput dp s) (end_ret (-1)))
         else bindR (writei dp (SLocal (replicate DE_SIZE 0)) off (of_nat DE_SIZE) s) (\<lambda>(r, s).
         if r \<noteq> int DE_SIZE then Panic ''unlink: writei''
         else bindR (if i_type (inodes s ! ip) = T_DIR then iupdate dp (add_nlink (-1) dp s) else Ok s) (\<lambda>s.
              bindR (iunlockput dp s) (\<lambda>s.
              bindR (iupdate ip (add_nlink (-1) ip s)) (\<lambda>s.
              bindR (iunlockput ip s) (end_ret 0)))))))) "

definition sys_unlink :: "'a kfs_scheme \<Rightarrow> (int \<times> 'a kfs_scheme) res" where
  "sys_unlink s =
     bindR (argstr 0 MAXPATH s) (\<lambda>(r, path).
     if r < 0 then Ok (-1, s)
     else bindR (begin_op s) (\<lambda>s.
     bindR (nameiparent (cstr path) s) (\<lambda>(r, s).
     case r of
       None \<Rightarrow> end_ret (-1) s
     | Some (dp, name) \<Rightarrow>
         bindR (ilock (Some dp) s) (\<lambda>s.
         bindR (namecmp name dot) (\<lambda>c1.
         bindR (if c1 = 0 then Ok 0 else namecmp name dotdot) (\<lambda>c2.
         if c2 = 0 then bindR (iunlockput dp s) (end_ret (-1))
         else sys_unlink_entry dp name s))))))"

subsection \<open>Creating and opening\<close>

text \<open>
  The new inode of \<^verbatim>\<open>create\<close>, with its parent locked.
\<close>

definition create_new :: "nat \<Rightarrow> uint8 list \<Rightarrow> uint16 \<Rightarrow> uint16 \<Rightarrow> uint16 \<Rightarrow> 'a kfs_scheme \<Rightarrow> (nat option \<times> 'a kfs_scheme) res" where
  "create_new dp name type major minor s =
     bindR (ialloc (i_dev (inodes s ! dp)) type s) (\<lambda>(ip, s).
     bindR (ilock (Some ip) s) (\<lambda>s.
     bindR (iupdate ip (upd_inode ip (\<lambda>x. x\<lparr>i_major := major, i_minor := minor, i_nlink := 1\<rparr>) s)) (\<lambda>s.
     bindR (if type = T_DIR
            then bindR (iupdate dp (add_nlink 1 dp s)) (\<lambda>s.
                 bindR (dirlink ip dot (i_inum (inodes s ! ip)) s) (\<lambda>(r, s).
                 if r < 0 then Panic ''create dots''
                 else bindR (dirlink ip dotdot (i_inum (inodes s ! dp)) s) (\<lambda>(r, s).
                      if r < 0 then Panic ''create dots'' else Ok s)))
            else Ok s) (\<lambda>s.
     bindR (dirlink dp name (i_inum (inodes s ! ip)) s) (\<lambda>(r, s).
     if r < 0 then Panic ''create: dirlink''
     else bindR (iunlockput dp s) (\<lambda>s. Ok (Some ip, s)))))))"

definition create :: "uint8 list \<Rightarrow> uint16 \<Rightarrow> uint16 \<Rightarrow> uint16 \<Rightarrow> 'a kfs_scheme \<Rightarrow> (nat option \<times> 'a kfs_scheme) res" where
  "create path type major minor s =
     bindR (nameiparent path s) (\<lambda>(r, s).
     case r of
       None \<Rightarrow> Ok (None, s)
     | Some (dp, name) \<Rightarrow>
         bindR (ilock (Some dp) s) (\<lambda>s.
         bindR (dirlookup dp name s) (\<lambda>(r, s).
         case r of
           Some (ip, _) \<Rightarrow>
             bindR (iunlockput dp s) (\<lambda>s.
             bindR (ilock (Some ip) s) (\<lambda>s.
             if type = T_FILE \<and> (i_type (inodes s ! ip) = T_FILE \<or> i_type (inodes s ! ip) = T_DEVICE)
             then Ok (Some ip, s)
             else bindR (iunlockput ip s) (\<lambda>s. Ok (None, s))))
         | None \<Rightarrow> create_new dp name type major minor s)))"

text \<open>The inode to open: locked, inside the transaction.\<close>

definition open_inode :: "uint8 list \<Rightarrow> uint32 \<Rightarrow> 'a kfs_scheme \<Rightarrow> (nat option \<times> 'a kfs_scheme) res" where
  "open_inode path omode s =
     (if omode AND O_CREATE \<noteq> 0 then create path T_FILE 0 0 s
      else bindR (namei path s) (\<lambda>(r, s).
           case r of
             None \<Rightarrow> Ok (None, s)
           | Some ip \<Rightarrow>
               bindR (ilock (Some ip) s) (\<lambda>s.
               if i_type (inodes s ! ip) = T_DIR \<and> omode \<noteq> O_RDONLY
               then bindR (iunlockput ip s) (\<lambda>s. Ok (None, s)) else Ok (Some ip, s))))"

definition sys_open :: "'a kfile_scheme \<Rightarrow> (int \<times> 'a kfile_scheme) res" where
  "sys_open s =
     bindR (argstr 0 MAXPATH s) (\<lambda>(n, path).
     if n < 0 then Ok (-1, s)
     else bindR (argint 1 s) (\<lambda>(r, omode).
     if r < 0 then Ok (-1, s)
     else bindR (begin_op s) (\<lambda>s.
     bindR (open_inode (cstr path) omode s) (\<lambda>(r, s).
     case r of
       None \<Rightarrow> end_ret (-1) s
     | Some ip \<Rightarrow>
         if i_type (inodes s ! ip) = T_DEVICE \<and> (sint (i_major (inodes s ! ip)) < 0 \<or> sint (i_major (inodes s ! ip)) \<ge> int NDEV)
         then bindR (iunlockput ip s) (end_ret (-1))
         else bindR (filealloc s) (\<lambda>(r, s).
         case r of
           None \<Rightarrow> bindR (iunlockput ip s) (end_ret (-1))
         | Some f \<Rightarrow>
             bindR (fdalloc f s) (\<lambda>(fd, s).
             if fd < 0 then bindR (fileclose f s) (\<lambda>s. bindR (iunlockput ip s) (end_ret (-1)))
             else let s = (if i_type (inodes s ! ip) = T_DEVICE
                           then upd_file f (\<lambda>x. x\<lparr>f_type := FD_DEVICE, f_major := i_major (inodes s ! ip)\<rparr>) s
                           else upd_file f (\<lambda>x. x\<lparr>f_type := FD_INODE, f_off := 0\<rparr>) s);
                      s = upd_file f (\<lambda>x. x\<lparr>f_ip := Some ip, f_readable := (omode AND O_WRONLY = 0),
                            f_writable := (omode AND O_WRONLY \<noteq> 0 \<or> omode AND O_RDWR \<noteq> 0)\<rparr>) s in
                  bindR (if omode AND O_TRUNC \<noteq> 0 \<and> i_type (inodes s ! ip) = T_FILE then itrunc ip s else Ok s) (\<lambda>s.
                  bindR (iunlock (Some ip) s) (end_ret fd))))))))"

definition sys_mkdir :: "'a kfs_scheme \<Rightarrow> (int \<times> 'a kfs_scheme) res" where
  "sys_mkdir s =
     bindR (begin_op s) (\<lambda>s.
     bindR (argstr 0 MAXPATH s) (\<lambda>(r, path).
     if r < 0 then end_ret (-1) s
     else bindR (create (cstr path) T_DIR 0 0 s) (\<lambda>(r, s).
          case r of None \<Rightarrow> end_ret (-1) s | Some ip \<Rightarrow> bindR (iunlockput ip s) (end_ret 0))))"

definition sys_mknod :: "'a kfs_scheme \<Rightarrow> (int \<times> 'a kfs_scheme) res" where
  "sys_mknod s =
     bindR (begin_op s) (\<lambda>s.
     bindR (argstr 0 MAXPATH s) (\<lambda>(r, path).
     if r < 0 then end_ret (-1) s
     else bindR (argint 1 s) (\<lambda>(r, major).
     if r < 0 then end_ret (-1) s
     else bindR (argint 2 s) (\<lambda>(r, minor).
     if r < 0 then end_ret (-1) s
     else bindR (create (cstr path) T_DEVICE (ucast major) (ucast minor) s) (\<lambda>(r, s).
          case r of None \<Rightarrow> end_ret (-1) s | Some ip \<Rightarrow> bindR (iunlockput ip s) (end_ret 0))))))"

definition sys_chdir :: "'a kfs_scheme \<Rightarrow> (int \<times> 'a kfs_scheme) res" where
  "sys_chdir s =
     bindR (myproc s) (\<lambda>p.
     bindR (begin_op s) (\<lambda>s.
     bindR (argstr 0 MAXPATH s) (\<lambda>(r, path).
     if r < 0 then end_ret (-1) s
     else bindR (namei (cstr path) s) (\<lambda>(r, s).
     case r of
       None \<Rightarrow> end_ret (-1) s
     | Some ip \<Rightarrow>
         bindR (ilock (Some ip) s) (\<lambda>s.
         if i_type (inodes s ! ip) \<noteq> T_DIR then bindR (iunlockput ip s) (end_ret (-1))
         else bindR (iunlock (Some ip) s) (\<lambda>s.
              bindR (deref (p_cwd (procs s ! p))) (\<lambda>cwd.
              bindR (iput cwd s) (\<lambda>s.
              bindR (end_op s) (\<lambda>s.
              Ok (0, upd_proc p (\<lambda>q. q\<lparr>p_cwd := Some ip\<rparr>) s))))))))))"

subsection \<open>exec and pipe\<close>

text \<open>
  The loop of \<^verbatim>\<open>sys_exec\<close> that fetches the arguments: the pages allocated for them and their
  bytes, and whether all went well.  \<^verbatim>\<open>fetchstr\<close> copies into the page also when it fails.
\<close>

fun fetch_args ::
  "nat \<Rightarrow> nat \<Rightarrow> uint64 \<Rightarrow> uint64 list \<Rightarrow> 'a kmem_scheme \<Rightarrow> (bool \<times> uint64 list \<times> 'a kmem_scheme) res" where
  "fetch_args 0 i uargv pgs s = Ok (False, pgs, s)"
| "fetch_args (Suc n) i uargv pgs s =
     bindR (fetchaddr (uargv + 8 * of_nat i) s) (\<lambda>(r, uarg).
     if r < 0 then Ok (False, pgs, s)
     else if uarg = 0 then Ok (True, pgs, s)
     else bindR (kalloc s) (\<lambda>(pg, s).
          if pg = 0 then Ok (False, pgs, s)
          else bindR (fetchstr uarg 4096 s) (\<lambda>(r, bs).
               let s = s\<lparr>mem := mem_put (mem s) pg bs\<rparr>; pgs = pgs @ [pg] in
               if r < 0 then Ok (False, pgs, s) else fetch_args n (Suc i) uargv pgs s)))"

fun free_args :: "uint64 list \<Rightarrow> 'a kmem_scheme \<Rightarrow> 'a kmem_scheme res" where
  "free_args [] s = Ok s"
| "free_args (pg # pgs) s = bindR (kfree pg s) (free_args pgs)"

definition sys_exec :: "uint64 \<Rightarrow> 'a kfs_scheme \<Rightarrow> (int \<times> 'a kfs_scheme) res" where
  "sys_exec trampoline s =
     bindR (argstr 0 MAXPATH s) (\<lambda>(r, path).
     if r < 0 then Ok (-1, s)
     else bindR (argaddr 1 s) (\<lambda>(r, uargv).
     if r < 0 then Ok (-1, s)
     else bindR (fetch_args MAXARG 0 uargv [] s) (\<lambda>(good, pgs, s).
     if good
     then bindR (exec trampoline (cstr path) (map (\<lambda>pg. cstr (mem_get (mem s) pg 4096)) pgs) s) (\<lambda>(r, s).
          bindR (free_args pgs s) (\<lambda>s. Ok (r, s)))
     else bindR (free_args pgs s) (\<lambda>s. Ok (-1, s)))))"

definition sys_pipe :: "'a kfile_scheme \<Rightarrow> (int \<times> 'a kfile_scheme) res" where
  "sys_pipe s =
     bindR (myproc s) (\<lambda>p.
     bindR (argaddr 0 s) (\<lambda>(r, fdarray).
     if r < 0 then Ok (-1, s)
     else bindR (pipealloc s) (\<lambda>(r, s).
     case r of
       None \<Rightarrow> Ok (-1, s)
     | Some (rd_f, wr_f) \<Rightarrow>
         let close = (\<lambda>s. bindR (fileclose rd_f s) (\<lambda>s. bindR (fileclose wr_f s) (\<lambda>s. Ok (-1, s)))) in
         bindR (fdalloc rd_f s) (\<lambda>(fd0, s).
         if fd0 < 0 then close s
         else bindR (fdalloc wr_f s) (\<lambda>(fd1, s).
         if fd1 < 0 then close (set_fd p (nat fd0) None s)
         else let undo = (\<lambda>s. close (set_fd p (nat fd1) None (set_fd p (nat fd0) None s))) in
              bindR (copyout (p_pagetable (procs s ! p)) fdarray (le_bytes 4 (word_of_int fd0 :: uint32)) s) (\<lambda>(r, s).
              if r < 0 then undo s
              else bindR (copyout (p_pagetable (procs s ! p)) (fdarray + 4) (le_bytes 4 (word_of_int fd1 :: uint32)) s) (\<lambda>(r, s).
                   if r < 0 then undo s else Ok (0, s))))))))"

end
