(* ===== verification/Sysproc.thy ===== *)
theory Sysproc
  imports Sysfile
begin

section \<open>Process calls and the dispatcher: \<^verbatim>\<open>sysproc.c\<close>, \<^verbatim>\<open>syscall.c\<close>\<close>

text \<open>
  The system calls on processes, time, memory, tracing and system information, and the
  dispatcher.  \<open>penv\<close> collects what the linker and the stack fix: the addresses of the
  trampoline page and of \<^verbatim>\<open>forkret\<close>, and the padding bytes of a \<^verbatim>\<open>struct stat\<close>.
\<close>

abbreviation (input) tickslock :: lockid where "tickslock \<equiv> Lock ''time'' 0"
abbreviation (input) ticks_chan :: chan where "ticks_chan \<equiv> Chan ''ticks'' 0"

record penv =
  pe_trampoline :: uint64
  pe_forkret :: uint64
  pe_pad :: "uint8 list"

subsection \<open>The calls\<close>

definition sys_exit :: "'a kfile_scheme \<Rightarrow> (ret \<times> 'a kfile_scheme) res" where
  "sys_exit s =
     bindR (argint 0 s) (\<lambda>(r, n).
     if r < 0 then Ok (Ret (-1), s) else bindR (kexit n s) (\<lambda>s. Ok (Gone, s)))"

definition sys_getpid :: "'a kfile_scheme \<Rightarrow> (int \<times> 'a kfile_scheme) res" where
  "sys_getpid s = bindR (myproc s) (\<lambda>p. Ok (p_pid (procs s ! p), s))"

definition sys_fork :: "penv \<Rightarrow> 'a kfile_scheme \<Rightarrow> (int \<times> 'a kfile_scheme) res" where
  "sys_fork e s = fork (pe_trampoline e) (pe_forkret e) s"

definition sys_wait :: "'a kfile_scheme \<Rightarrow> (ret \<times> 'a kfile_scheme) res" where
  "sys_wait s = bindR (argaddr 0 s) (\<lambda>(r, p). if r < 0 then Ok (Ret (-1), s) else wait p s)"

definition sys_sbrk :: "'a kfile_scheme \<Rightarrow> (int \<times> 'a kfile_scheme) res" where
  "sys_sbrk s =
     bindR (argint 0 s) (\<lambda>(r, n).
     if r < 0 then Ok (-1, s)
     else bindR (myproc s) (\<lambda>p.
          let addr = ucast (p_sz (procs s ! p)) :: uint32 in
          bindR (growproc n s) (\<lambda>(r, s). if r < 0 then Ok (-1, s) else Ok (sint addr, s))))"

text \<open>
  The loop of \<^verbatim>\<open>sys_sleep\<close>: the elapsed ticks are unsigned, so the comparison with \<open>n\<close> is an
  unsigned one.
\<close>

definition sys_sleep_loop :: "uint32 \<Rightarrow> uint32 \<Rightarrow> 'a kfile_scheme \<Rightarrow> (ret \<times> 'a kfile_scheme) res" where
  "sys_sleep_loop n ticks0 s =
     (if ticks s - ticks0 < n
      then bindR (killed s) (\<lambda>k.
           if k then bindR (release tickslock s) (\<lambda>s. Ok (Ret (-1), s))
           else bindR (sleep_out ticks_chan tickslock s) (\<lambda>s. Ok (Sleep (unat ticks0), s)))
      else bindR (release tickslock s) (\<lambda>s. Ok (Ret 0, s)))"

definition sys_sleep :: "'a kfile_scheme \<Rightarrow> (ret \<times> 'a kfile_scheme) res" where
  "sys_sleep s =
     bindR (argint 0 s) (\<lambda>(r, n).
     if r < 0 then Ok (Ret (-1), s)
     else bindR (acquire tickslock s) (\<lambda>s. sys_sleep_loop n (ticks s) s))"

definition sys_sleep_resume :: "uint32 \<Rightarrow> nat \<Rightarrow> 'a kfile_scheme \<Rightarrow> (ret \<times> 'a kfile_scheme) res" where
  "sys_sleep_resume n k s = bindR (sleep_in tickslock s) (sys_sleep_loop n (of_nat k))"

definition sys_kill :: "'a kfile_scheme \<Rightarrow> (int \<times> 'a kfile_scheme) res" where
  "sys_kill s = bindR (argint 0 s) (\<lambda>(r, pid). if r < 0 then Ok (-1, s) else kill (sint pid) s)"

definition sys_uptime :: "'a kfile_scheme \<Rightarrow> (int \<times> 'a kfile_scheme) res" where
  "sys_uptime s =
     bindR (acquire tickslock s) (\<lambda>s.
     let xticks = ticks s in
     bindR (release tickslock s) (\<lambda>s. Ok (uint xticks, s)))"

definition sys_trace :: "'a kfile_scheme \<Rightarrow> (int \<times> 'a kfile_scheme) res" where
  "sys_trace s =
     bindR (argint 0 s) (\<lambda>(r, n).
     if r < 0 then Ok (-1, s)
     else bindR (myproc s) (\<lambda>p. Ok (0, upd_proc p (\<lambda>q. q\<lparr>p_trace_mask := n\<rparr>) s)))"

text \<open>\<^verbatim>\<open>freemem\<close> that runs forever on a cyclic free list makes the call run forever.\<close>

definition sys_sysinfo :: "'a kfile_scheme \<Rightarrow> (int \<times> 'a kfile_scheme) res" where
  "sys_sysinfo s =
     bindR (argaddr 0 s) (\<lambda>(r, addr).
     if r < 0 then Ok (-1, s)
     else bindR (procnum s) (\<lambda>nproc.
     bindR (case freemem s of None \<Rightarrow> Loop | Some m \<Rightarrow> Ok m) (\<lambda>fm.
     bindR (myproc s) (\<lambda>p.
     bindR (copyout (p_pagetable (procs s ! p)) addr (le_bytes 8 fm @ le_bytes 8 (word_of_int nproc :: uint64)) s) (\<lambda>(r, s).
     Ok (if r < 0 then -1 else 0, s))))))"

subsection \<open>The dispatcher\<close>

definition returns :: "('s \<Rightarrow> (int \<times> 's) res) \<Rightarrow> 's \<Rightarrow> (ret \<times> 's) res" where
  "returns f s = bindR (f s) (\<lambda>(r, s). Ok (Ret r, s))"

text \<open>The table \<^verbatim>\<open>syscalls\<close>, from call 1 on.\<close>

definition syscalls :: "penv \<Rightarrow> ('a kfile_scheme \<Rightarrow> (ret \<times> 'a kfile_scheme) res) list" where
  "syscalls e =
    [returns (sys_fork e), sys_exit, sys_wait, returns sys_pipe, sys_read, returns sys_kill,
     returns (sys_exec (pe_trampoline e)), returns (sys_fstat (pe_pad e)), returns sys_chdir, returns sys_dup,
     returns sys_getpid, returns sys_sbrk, sys_sleep, returns sys_uptime, returns sys_open, sys_write,
     returns sys_mknod, returns sys_unlink, returns sys_link, returns sys_mkdir, returns sys_close,
     returns sys_trace, returns sys_sysinfo]"

definition sysname :: "string list" where
  "sysname =
    ['''', ''fork'', ''exit'', ''wait'', ''pipe'', ''read'', ''kill'', ''exec'', ''fstat'', ''chdir'', ''dup'',
     ''getpid'', ''sbrk'', ''sleep'', ''uptime'', ''open'', ''write'', ''mknod'', ''unlink'', ''link'', ''mkdir'',
     ''close'', ''trace'', ''sysinfo'']"

text \<open>What follows the call: its value goes to a0, and a traced call prints a line.\<close>

definition syscall_ret :: "nat \<Rightarrow> nat \<Rightarrow> int \<Rightarrow> 'a kfile_scheme \<Rightarrow> 'a kfile_scheme res" where
  "syscall_ret p num v s =
     (let s = tf_set p tf_a0 (word_of_int v) s in
      if p_trace_mask (procs s ! p) AND push_bit num 1 \<noteq> 0
      then kprintf (''%d: syscall %s -> %d'' @ [CHR 0x0A])
             [AInt (word_of_int (p_pid (procs s ! p))), AStr (Some (bytes_of (sysname ! num))),
              AInt (ucast (tf_get p tf_a0 s))] s
      else Ok s)"

text \<open>The result says whether the call has returned; if not, the process has switched away.\<close>

definition syscall :: "penv \<Rightarrow> 'a kfile_scheme \<Rightarrow> (bool \<times> 'a kfile_scheme) res" where
  "syscall e s =
     bindR (myproc s) (\<lambda>p.
     let num = ucast (tf_get p tf_a7 s) :: uint32 in
     if sint num > 0 \<and> sint num \<le> int (length (syscalls e :: ('a kfile_scheme \<Rightarrow> (ret \<times> 'a kfile_scheme) res) list))
     then bindR ((syscalls e ! (unat num - 1)) s) (\<lambda>(r, s).
          case r of Ret v \<Rightarrow> bindR (syscall_ret p (unat num) v s) (\<lambda>s. Ok (True, s)) | _ \<Rightarrow> Ok (False, s))
     else bindR (kprintf (''%d %s: unknown sys call %d'' @ [CHR 0x0A])
                  [AInt (word_of_int (p_pid (procs s ! p))), AStr (Some (cstr (p_name (procs s ! p)))), AInt num] s) (\<lambda>s.
          Ok (True, tf_set p tf_a0 (-1) s)))"

end
