(* ===== verification/Virtio.thy ===== *)
theory Virtio
  imports Sysproc
begin

section \<open>The disk driver: \<^verbatim>\<open>kernel/virtio_disk.c\<close>\<close>

text \<open>
  The driver's side of the virtio queue: descriptors, the ring of available requests and the
  book-keeping for requests in flight.  The device, which reads requests, moves data and
  fills the used ring, is not part of the program: its registers are a function from offsets
  to the values read, and its work is a parameter where it is needed.  A pointer in a
  descriptor is one of the three kinds the driver stores there.
\<close>

abbreviation (input) NUM :: nat where "NUM \<equiv> 8"

subsection \<open>State\<close>

datatype vptr = VNull | VOp nat | VData nat | VStatus nat

record virtq_desc =
  d_addr :: vptr
  d_len :: uint32
  d_flags :: uint16
  d_next :: uint16

record virtio_blk_req =
  r_type :: uint32
  r_reserved :: uint32
  r_sector :: uint64

record kvirt = kfile +
  v_desc :: "virtq_desc list"
  avail_idx :: uint16
  avail_ring :: "uint16 list"
  used_ring_idx :: uint16
  used_ring :: "uint32 list"
  v_free :: "bool list"
  used_idx :: uint16
  info_b :: "nat option list"
  info_status :: "uint8 list"
  v_ops :: "virtio_blk_req list"
  mmio :: "(nat \<times> uint32) list"

abbreviation (input) vdisk_lock :: lockid where "vdisk_lock \<equiv> Lock ''virtio_disk'' 0"
abbreviation (input) free_chan :: chan where "free_chan \<equiv> Chan ''disk.free'' 0"
abbreviation (input) bufp_chan :: "nat \<Rightarrow> chan" where "bufp_chan b \<equiv> Chan ''buf'' b"

abbreviation (input) VRING_DESC_F_NEXT :: uint16 where "VRING_DESC_F_NEXT \<equiv> 1"
abbreviation (input) VRING_DESC_F_WRITE :: uint16 where "VRING_DESC_F_WRITE \<equiv> 2"

definition mmio_write :: "nat \<Rightarrow> uint32 \<Rightarrow> 'a kvirt_scheme \<Rightarrow> 'a kvirt_scheme" where
  "mmio_write r v s = s\<lparr>mmio := mmio s @ [(r, v)]\<rparr>"

definition null_desc :: virtq_desc where
  "null_desc = \<lparr>d_addr = VNull, d_len = 0, d_flags = 0, d_next = 0\<rparr>"

subsection \<open>Initialisation\<close>

text \<open>The features the driver turns off: bits 5, 7, 11, 12, 27, 29 and 28.\<close>

definition features :: "uint32 \<Rightarrow> uint32" where
  "features f = foldl (\<lambda>f b. f AND NOT (push_bit b 1)) f [5, 7, 11, 12, 27, 29, 28]"

text \<open>\<open>reg\<close> gives the values of the device's registers, \<open>pfn\<close> the page number of \<^verbatim>\<open>disk.pages\<close>.\<close>

definition virtio_disk_init :: "(nat \<Rightarrow> uint32) \<Rightarrow> uint32 \<Rightarrow> 'a kvirt_scheme \<Rightarrow> 'a kvirt_scheme res" where
  "virtio_disk_init reg pfn s =
     (if reg 0x000 \<noteq> 0x74726976 \<or> reg 0x004 \<noteq> 1 \<or> reg 0x008 \<noteq> 2 \<or> reg 0x00c \<noteq> 0x554d4551
      then Panic ''could not find virtio disk''
      else let s = mmio_write 0x070 1 s;
               s = mmio_write 0x070 (1 OR 2) s;
               s = mmio_write 0x020 (features (reg 0x010)) s;
               s = mmio_write 0x070 (1 OR 2 OR 8) s;
               s = mmio_write 0x070 (1 OR 2 OR 8 OR 4) s;
               s = mmio_write 0x028 4096 s;
               s = mmio_write 0x030 0 s in
      if reg 0x034 = 0 then Panic ''virtio disk has no queue 0''
      else if reg 0x034 < of_nat NUM then Panic ''virtio disk max queue too short''
      else let s = mmio_write 0x038 (of_nat NUM) s;
               s = s\<lparr>v_desc := replicate NUM null_desc, avail_idx := 0, avail_ring := replicate NUM 0,
                     used_ring_idx := 0, used_ring := replicate NUM 0\<rparr>;
               s = mmio_write 0x040 pfn s in
           Ok (s\<lparr>v_free := replicate NUM True\<rparr>))"

subsection \<open>Descriptors\<close>

definition alloc_desc :: "'a kvirt_scheme \<Rightarrow> nat option \<times> 'a kvirt_scheme" where
  "alloc_desc s =
     (case find_from (\<lambda>x. x) (v_free s) 0 NUM of
        Some i \<Rightarrow> (Some i, s\<lparr>v_free := (v_free s)[i := False]\<rparr>)
      | None \<Rightarrow> (None, s))"

definition free_desc :: "nat \<Rightarrow> 'a kvirt_scheme \<Rightarrow> 'a kvirt_scheme res" where
  "free_desc i s =
     (if i \<ge> NUM then Panic ''free_desc 1''
      else if v_free s ! i then Panic ''free_desc 2''
      else wakeup (Some free_chan) (s\<lparr>v_desc := (v_desc s)[i := null_desc], v_free := (v_free s)[i := True]\<rparr>))"

text \<open>
  Each round of \<^verbatim>\<open>free_chain\<close> frees a descriptor that was in use, and one that is free makes
  it panic, so it runs for at most \<open>NUM + 1\<close> rounds.
\<close>

fun free_chain_loop :: "nat \<Rightarrow> nat \<Rightarrow> 'a kvirt_scheme \<Rightarrow> 'a kvirt_scheme res" where
  "free_chain_loop 0 i s = Loop"
| "free_chain_loop (Suc k) i s =
     (let flag = d_flags (v_desc s ! i); nxt = d_next (v_desc s ! i) in
      bindR (free_desc i s) (\<lambda>s.
      if flag AND VRING_DESC_F_NEXT \<noteq> 0 then free_chain_loop k (unat nxt) s else Ok s))"

definition free_chain :: "nat \<Rightarrow> 'a kvirt_scheme \<Rightarrow> 'a kvirt_scheme res" where
  "free_chain i s = free_chain_loop (Suc NUM) i s"

fun free_descs :: "nat list \<Rightarrow> 'a kvirt_scheme \<Rightarrow> 'a kvirt_scheme res" where
  "free_descs [] s = Ok s"
| "free_descs (i # js) s = bindR (free_desc i s) (free_descs js)"

fun alloc_descs :: "nat \<Rightarrow> nat list \<Rightarrow> 'a kvirt_scheme \<Rightarrow> (nat list option \<times> 'a kvirt_scheme) res" where
  "alloc_descs 0 idx s = Ok (Some idx, s)"
| "alloc_descs (Suc n) idx s =
     (case alloc_desc s of
        (Some i, s) \<Rightarrow> alloc_descs n (idx @ [i]) s
      | (None, s) \<Rightarrow> bindR (free_descs idx s) (\<lambda>s. Ok (None, s)))"

definition alloc3_desc :: "'a kvirt_scheme \<Rightarrow> (nat list option \<times> 'a kvirt_scheme) res" where
  "alloc3_desc s = alloc_descs 3 [] s"

subsection \<open>Requests\<close>

definition set_desc :: "nat \<Rightarrow> vptr \<Rightarrow> uint32 \<Rightarrow> uint16 \<Rightarrow> uint16 \<Rightarrow> 'a kvirt_scheme \<Rightarrow> 'a kvirt_scheme" where
  "set_desc i a l f n s = s\<lparr>v_desc := (v_desc s)[i := \<lparr>d_addr = a, d_len = l, d_flags = f, d_next = n\<rparr>]\<rparr>"

text \<open>
  Formatting the three descriptors and telling the device, up to the wait.  The sector number
  is computed in 32 bits.
\<close>

definition submit :: "nat \<Rightarrow> bool \<Rightarrow> nat \<Rightarrow> nat \<Rightarrow> nat \<Rightarrow> 'a kvirt_scheme \<Rightarrow> 'a kvirt_scheme" where
  "submit b wr i0 i1 i2 s =
     (let s = s\<lparr>v_ops := (v_ops s)[i0 := \<lparr>r_type = (if wr then 1 else 0), r_reserved = 0,
                r_sector = ucast (b_blockno (bufs s ! b) * 2)\<rparr>]\<rparr>;
          s = set_desc i0 (VOp i0) 16 VRING_DESC_F_NEXT (of_nat i1) s;
          s = set_desc i1 (VData b) (of_nat BSIZE) ((if wr then 0 else VRING_DESC_F_WRITE) OR VRING_DESC_F_NEXT) (of_nat i2) s;
          s = s\<lparr>info_status := (info_status s)[i0 := 0xff]\<rparr>;
          s = set_desc i2 (VStatus i0) 1 VRING_DESC_F_WRITE 0 s;
          s = upd_buf b (\<lambda>x. x\<lparr>b_disk := True\<rparr>) s;
          s = s\<lparr>info_b := (info_b s)[i0 := Some b]\<rparr>;
          s = s\<lparr>avail_ring := (avail_ring s)[unat (avail_idx s) mod NUM := of_nat i0]\<rparr>;
          s = s\<lparr>avail_idx := avail_idx s + 1\<rparr>
      in mmio_write 0x050 0 s)"

text \<open>
  \<^verbatim>\<open>virtio_disk_rw\<close> to the point where it sleeps: for descriptors (\<open>None\<close>) or for the
  completion of its request, with the head of its chain.
\<close>

definition virtio_rw_start :: "nat \<Rightarrow> bool \<Rightarrow> 'a kvirt_scheme \<Rightarrow> (nat option \<times> 'a kvirt_scheme) res" where
  "virtio_rw_start b wr s =
     bindR (alloc3_desc s) (\<lambda>(r, s).
     case r of
       Some [i0, i1, i2] \<Rightarrow> bindR (sleep_out (bufp_chan b) vdisk_lock (submit b wr i0 i1 i2 s)) (\<lambda>s. Ok (Some i0, s))
     | _ \<Rightarrow> bindR (sleep_out free_chan vdisk_lock s) (\<lambda>s. Ok (None, s)))"

definition virtio_disk_rw :: "nat \<Rightarrow> bool \<Rightarrow> 'a kvirt_scheme \<Rightarrow> (nat option \<times> 'a kvirt_scheme) res" where
  "virtio_disk_rw b wr s = bindR (acquire vdisk_lock s) (virtio_rw_start b wr)"

definition virtio_rw_retry :: "nat \<Rightarrow> bool \<Rightarrow> 'a kvirt_scheme \<Rightarrow> (nat option \<times> 'a kvirt_scheme) res" where
  "virtio_rw_retry b wr s = bindR (sleep_in vdisk_lock s) (virtio_rw_start b wr)"

text \<open>After a wake-up in the second wait: \<open>False\<close> when the request is not finished yet.\<close>

definition virtio_rw_finish :: "nat \<Rightarrow> nat \<Rightarrow> 'a kvirt_scheme \<Rightarrow> (bool \<times> 'a kvirt_scheme) res" where
  "virtio_rw_finish b i0 s =
     bindR (sleep_in vdisk_lock s) (\<lambda>s.
     if b_disk (bufs s ! b) then bindR (sleep_out (bufp_chan b) vdisk_lock s) (\<lambda>s. Ok (False, s))
     else bindR (free_chain i0 (s\<lparr>info_b := (info_b s)[i0 := None]\<rparr>)) (\<lambda>s.
          bindR (release vdisk_lock s) (\<lambda>s. Ok (True, s))))"

text \<open>
  The loop of the interrupt handler over the used ring: one round per entry the device has
  added.
\<close>

fun virtio_intr_loop :: "nat \<Rightarrow> 'a kvirt_scheme \<Rightarrow> 'a kvirt_scheme res" where
  "virtio_intr_loop 0 s = Ok s"
| "virtio_intr_loop (Suc n) s =
     (let i = unat (used_ring s ! (unat (used_idx s) mod NUM)) in
      if i \<ge> NUM then Undef
      else if info_status s ! i \<noteq> 0 then Panic ''virtio_disk_intr status''
      else bindR (deref (info_b s ! i)) (\<lambda>b.
           bindR (wakeup (Some (bufp_chan b)) (upd_buf b (\<lambda>x. x\<lparr>b_disk := False\<rparr>) s)) (\<lambda>s.
           virtio_intr_loop n (s\<lparr>used_idx := used_idx s + 1\<rparr>))))"

definition virtio_disk_intr :: "(nat \<Rightarrow> uint32) \<Rightarrow> 'a kvirt_scheme \<Rightarrow> 'a kvirt_scheme res" where
  "virtio_disk_intr reg s =
     bindR (acquire vdisk_lock s) (\<lambda>s.
     bindR (virtio_intr_loop (unat (used_ring_idx s - used_idx s)) (mmio_write 0x064 (reg 0x060 AND 3) s))
       (release vdisk_lock))"

end
