(* ===== verification/Trap.thy ===== *)
theory Trap
  imports Virtio
begin

section \<open>Traps and interrupts: \<^verbatim>\<open>kernel/trap.c\<close>, \<^verbatim>\<open>kernel/plic.c\<close>\<close>

text \<open>
  Traps from user space and from the kernel, the interrupts behind them, and the return to
  user space.  The control registers of the hart are fields of the state; what the PLIC hands
  out is a list of pending interrupts.  The addresses of \<^verbatim>\<open>kernelvec\<close>, \<^verbatim>\<open>usertrap\<close> and of the
  code in the trampoline page come from the linker.
\<close>

subsection \<open>State\<close>

record ktrap = kvirt +
  sstatus :: uint64
  scause :: uint64
  sepc :: uint64
  stval :: uint64
  stvec :: uint64
  satp :: uint64
  sip :: uint64
  hartid :: nat
  plic_pending :: "uint32 list"
  plic_writes :: "(uint64 \<times> uint32) list"

record tenv =
  te_penv :: penv
  te_kernelvec :: uint64
  te_usertrap :: uint64
  te_uservec :: uint64            \<comment> \<open>offset in the trampoline page\<close>
  te_userret :: uint64            \<comment> \<open>offset in the trampoline page\<close>
  te_reg :: "nat \<Rightarrow> uint32"   \<comment> \<open>registers of the disk\<close>

abbreviation (input) SSTATUS_SPP :: uint64 where "SSTATUS_SPP \<equiv> 0x100"
abbreviation (input) SSTATUS_SPIE :: uint64 where "SSTATUS_SPIE \<equiv> 0x20"
abbreviation (input) SSTATUS_SIE :: uint64 where "SSTATUS_SIE \<equiv> 0x2"
abbreviation (input) UART0_IRQ :: uint32 where "UART0_IRQ \<equiv> 10"
abbreviation (input) VIRTIO0_IRQ :: uint32 where "VIRTIO0_IRQ \<equiv> 1"

definition PLIC_SENABLE :: "nat \<Rightarrow> uint64" where "PLIC_SENABLE h = PLIC + 0x2080 + of_nat h * 0x100"
definition PLIC_SPRIORITY :: "nat \<Rightarrow> uint64" where "PLIC_SPRIORITY h = PLIC + 0x201000 + of_nat h * 0x2000"
definition PLIC_SCLAIM :: "nat \<Rightarrow> uint64" where "PLIC_SCLAIM h = PLIC + 0x201004 + of_nat h * 0x2000"

subsection \<open>The interrupt controller\<close>

definition plic_write :: "uint64 \<Rightarrow> uint32 \<Rightarrow> 'a ktrap_scheme \<Rightarrow> 'a ktrap_scheme" where
  "plic_write a v s = s\<lparr>plic_writes := plic_writes s @ [(a, v)]\<rparr>"

definition plicinit :: "'a ktrap_scheme \<Rightarrow> 'a ktrap_scheme" where
  "plicinit s = plic_write (PLIC + 1 * 4) 1 (plic_write (PLIC + 10 * 4) 1 s)"

definition plicinithart :: "'a ktrap_scheme \<Rightarrow> 'a ktrap_scheme" where
  "plicinithart s =
     plic_write (PLIC_SPRIORITY (hartid s)) 0
       (plic_write (PLIC_SENABLE (hartid s)) (push_bit 10 1 OR push_bit 1 1) s)"

text \<open>Reading the claim register gives the pending interrupt, or 0.\<close>

definition plic_claim :: "'a ktrap_scheme \<Rightarrow> uint32 \<times> 'a ktrap_scheme" where
  "plic_claim s = (case plic_pending s of [] \<Rightarrow> (0, s) | q # qs \<Rightarrow> (q, s\<lparr>plic_pending := qs\<rparr>))"

definition plic_complete :: "uint32 \<Rightarrow> 'a ktrap_scheme \<Rightarrow> 'a ktrap_scheme" where
  "plic_complete irq s = plic_write (PLIC_SCLAIM (hartid s)) irq s"

subsection \<open>Interrupts\<close>

definition clockintr :: "'a ktrap_scheme \<Rightarrow> 'a ktrap_scheme res" where
  "clockintr s =
     bindR (acquire tickslock s) (\<lambda>s.
     bindR (wakeup (Some ticks_chan) (s\<lparr>ticks := ticks s + 1\<rparr>)) (release tickslock))"

text \<open>\<^verbatim>\<open>devintr\<close>: 2 for the timer, 1 for another device, 0 when not recognised.\<close>

definition devintr :: "tenv \<Rightarrow> 'a ktrap_scheme \<Rightarrow> (nat \<times> 'a ktrap_scheme) res" where
  "devintr e s =
     (if scause s AND 0x8000000000000000 \<noteq> 0 \<and> scause s AND 0xff = 9
      then case plic_claim s of (irq, s) \<Rightarrow>
           bindR (if irq = UART0_IRQ then uartintr s
                  else if irq = VIRTIO0_IRQ then virtio_disk_intr (te_reg e) s
                  else if irq \<noteq> 0 then kprintf (''unexpected interrupt irq=%d'' @ [CHR 0x0A]) [AInt irq] s
                  else Ok s) (\<lambda>s.
           Ok (1, if irq \<noteq> 0 then plic_complete irq s else s))
      else if scause s = 0x8000000000000001
      then bindR (if hartid s = 0 then clockintr s else Ok s) (\<lambda>s.
           Ok (2, s\<lparr>sip := sip s AND NOT 2\<rparr>))
      else Ok (0, s))"

subsection \<open>Returning to user space\<close>

text \<open>
  The result is the jump into the trampoline page: the address of \<^verbatim>\<open>userret\<close> and its second
  argument; the first is always \<^verbatim>\<open>TRAPFRAME\<close>.
\<close>

definition usertrapret :: "tenv \<Rightarrow> 'a ktrap_scheme \<Rightarrow> (uint64 \<times> uint64 \<times> 'a ktrap_scheme) res" where
  "usertrapret e s =
     bindR (myproc s) (\<lambda>p.
     let s = s\<lparr>sstatus := sstatus s AND NOT SSTATUS_SIE\<rparr>;
         s = s\<lparr>stvec := TRAMPOLINE + te_uservec e\<rparr>;
         s = tf_set p tf_kernel_satp (satp s) s;
         s = tf_set p tf_kernel_sp (p_kstack (procs s ! p) + PGSIZE) s;
         s = tf_set p tf_kernel_trap (te_usertrap e) s;
         s = tf_set p tf_kernel_hartid (of_nat (hartid s)) s;
         s = s\<lparr>sstatus := (sstatus s AND NOT SSTATUS_SPP) OR SSTATUS_SPIE\<rparr>;
         s = s\<lparr>sepc := tf_get p tf_epc s\<rparr>
     in Ok (TRAMPOLINE + te_userret e, MAKE_SATP (p_pagetable (procs s ! p)), s))"

subsection \<open>Traps\<close>

text \<open>
  How a trap ends: back in user space, or with the process switched away (asleep, exited, or
  preempted by the timer).
\<close>

datatype trap_end = ToUser uint64 uint64 | Switched | Preempted

text \<open>The end of \<^verbatim>\<open>usertrap\<close>, after the cause has been handled.\<close>

definition usertrap_end :: "tenv \<Rightarrow> nat \<Rightarrow> 'a ktrap_scheme \<Rightarrow> (trap_end \<times> 'a ktrap_scheme) res" where
  "usertrap_end e which_dev s =
     bindR (killed s) (\<lambda>k.
     if k then bindR (kexit (-1) s) (\<lambda>s. Ok (Switched, s))
     else if which_dev = 2 then bindR (yield_out s) (\<lambda>s. Ok (Preempted, s))
     else bindR (usertrapret e s) (\<lambda>(fn, a1, s). Ok (ToUser fn a1, s)))"

definition usertrap :: "tenv \<Rightarrow> 'a ktrap_scheme \<Rightarrow> (trap_end \<times> 'a ktrap_scheme) res" where
  "usertrap e s =
     (if sstatus s AND SSTATUS_SPP \<noteq> 0 then Panic ''usertrap: not from user mode''
      else let s = s\<lparr>stvec := te_kernelvec e\<rparr> in
      bindR (myproc s) (\<lambda>p.
      let s = tf_set p tf_epc (sepc s) s in
      if scause s = 8
      then if p_killed (procs s ! p) then bindR (kexit (-1) s) (\<lambda>s. Ok (Switched, s))
           else let s = tf_set p tf_epc (tf_get p tf_epc s + 4) s;
                    s = s\<lparr>sstatus := sstatus s OR SSTATUS_SIE\<rparr> in
                bindR (syscall (te_penv e) s) (\<lambda>(returned, s).
                if returned then usertrap_end e 0 s else Ok (Switched, s))
      else bindR (devintr e s) (\<lambda>(which_dev, s).
           if which_dev \<noteq> 0 then usertrap_end e which_dev s
           else bindR (kprintf (''usertrap(): unexpected scause %p pid=%d'' @ [CHR 0x0A])
                        [APtr (scause s), AInt (word_of_int (p_pid (procs s ! p)))] s) (\<lambda>s.
                bindR (kprintf (''            sepc=%p stval=%p'' @ [CHR 0x0A]) [APtr (sepc s), APtr (stval s)] s) (\<lambda>s.
                usertrap_end e 0 (upd_proc p (\<lambda>q. q\<lparr>p_killed := True\<rparr>) s))))))"

text \<open>A preempted process when it runs again.\<close>

definition usertrap_resume :: "tenv \<Rightarrow> 'a ktrap_scheme \<Rightarrow> (trap_end \<times> 'a ktrap_scheme) res" where
  "usertrap_resume e s =
     bindR (yield_in s) (\<lambda>s. bindR (usertrapret e s) (\<lambda>(fn, a1, s). Ok (ToUser fn a1, s)))"

text \<open>
  A trap from the kernel: \<open>True\<close> when it gave up the CPU; the saved registers are returned for
  the time after that.
\<close>

definition kerneltrap :: "tenv \<Rightarrow> 'a ktrap_scheme \<Rightarrow> (bool \<times> uint64 \<times> uint64 \<times> 'a ktrap_scheme) res" where
  "kerneltrap e s =
     (let epc = sepc s; st = sstatus s; cause = scause s in
      if st AND SSTATUS_SPP = 0 then Panic ''kerneltrap: not from supervisor mode''
      else if sstatus s AND SSTATUS_SIE \<noteq> 0 then Panic ''kerneltrap: interrupts enabled''
      else bindR (devintr e s) (\<lambda>(which_dev, s).
           if which_dev = 0
           then bindR (kprintf (''scause %p'' @ [CHR 0x0A]) [APtr cause] s) (\<lambda>s.
                bindR (kprintf (''sepc=%p stval=%p'' @ [CHR 0x0A]) [APtr (sepc s), APtr (stval s)] s) (\<lambda>s.
                Panic ''kerneltrap''))
           else if which_dev = 2 \<and> cur s \<noteq> None \<and> p_state (procs s ! the (cur s)) = RUNNING
           then bindR (yield_out s) (\<lambda>s. Ok (True, epc, st, s))
           else Ok (False, epc, st, s\<lparr>sepc := epc, sstatus := st\<rparr>)))"

definition kerneltrap_resume :: "uint64 \<Rightarrow> uint64 \<Rightarrow> 'a ktrap_scheme \<Rightarrow> 'a ktrap_scheme res" where
  "kerneltrap_resume epc st s = bindR (yield_in s) (\<lambda>s. Ok (s\<lparr>sepc := epc, sstatus := st\<rparr>))"

text \<open>\<^verbatim>\<open>forkret\<close>; \<open>first\<close> is its static variable.\<close>

definition forkret :: "tenv \<Rightarrow> bool \<Rightarrow> 'a ktrap_scheme \<Rightarrow> (trap_end \<times> 'a ktrap_scheme) res" where
  "forkret e first s =
     bindR (myproc s) (\<lambda>p.
     bindR (release (plock p) s) (\<lambda>s.
     bindR (if first then fsinit ROOTDEV s else Ok s) (\<lambda>s.
     bindR (usertrapret e s) (\<lambda>(fn, a1, s). Ok (ToUser fn a1, s)))))"

end
