(* ===== verification/Boot.thy ===== *)
theory Boot
  imports Trap
begin

section \<open>Start-up: \<^verbatim>\<open>kernel/start.c\<close>, \<^verbatim>\<open>kernel/main.c\<close>\<close>

text \<open>
  What a hart does in machine mode before it enters the kernel, and the initialisation of the
  kernel in \<^verbatim>\<open>main\<close>.  Addresses the linker chooses and the registers of the devices are
  arguments.
\<close>

subsection \<open>Machine mode\<close>

record mhart =
  mstatus :: uint64
  mepc :: uint64
  m_satp :: uint64
  medeleg :: uint64
  mideleg :: uint64
  m_sie :: uint64
  pmpaddr0 :: uint64
  pmpcfg0 :: uint64
  mscratch :: uint64
  mtvec :: uint64
  mie :: uint64
  mhartid :: uint64
  m_tp :: uint64
  m_mem :: mem

abbreviation (input) MSTATUS_MPP_MASK :: uint64 where "MSTATUS_MPP_MASK \<equiv> 0x1800"
abbreviation (input) MSTATUS_MPP_S :: uint64 where "MSTATUS_MPP_S \<equiv> 0x800"
abbreviation (input) MSTATUS_MIE :: uint64 where "MSTATUS_MIE \<equiv> 8"
abbreviation (input) SIE_SEIE :: uint64 where "SIE_SEIE \<equiv> 0x200"
abbreviation (input) SIE_STIE :: uint64 where "SIE_STIE \<equiv> 0x20"
abbreviation (input) SIE_SSIE :: uint64 where "SIE_SSIE \<equiv> 0x2"
abbreviation (input) MIE_MTIE :: uint64 where "MIE_MTIE \<equiv> 0x80"

definition CLINT :: uint64 where "CLINT = 0x2000000"
definition CLINT_MTIMECMP :: "uint64 \<Rightarrow> uint64" where "CLINT_MTIMECMP h = CLINT + 0x4000 + 8 * h"
definition CLINT_MTIME :: uint64 where "CLINT_MTIME = CLINT + 0xBFF8"

text \<open>\<open>scratch\<close> is the address of \<^verbatim>\<open>timer_scratch\<close>, five words per hart.\<close>

definition timerinit :: "uint64 \<Rightarrow> uint64 \<Rightarrow> mhart \<Rightarrow> mhart" where
  "timerinit scratch timervec h =
     (let i = mhartid h; interval = 1000000;
          h = h\<lparr>m_mem := store64 (m_mem h) (CLINT_MTIMECMP i) (load64 (m_mem h) CLINT_MTIME + interval)\<rparr>;
          sc = scratch + 40 * i;
          h = h\<lparr>m_mem := store64 (m_mem h) (sc + 24) (CLINT_MTIMECMP i)\<rparr>;
          h = h\<lparr>m_mem := store64 (m_mem h) (sc + 32) interval\<rparr>;
          h = h\<lparr>mscratch := sc\<rparr>;
          h = h\<lparr>mtvec := timervec\<rparr>;
          h = h\<lparr>mstatus := mstatus h OR MSTATUS_MIE\<rparr>
      in h\<lparr>mie := mie h OR MIE_MTIE\<rparr>)"

definition start :: "uint64 \<Rightarrow> uint64 \<Rightarrow> uint64 \<Rightarrow> mhart \<Rightarrow> mhart" where
  "start main scratch timervec h =
     (let h = h\<lparr>mstatus := (mstatus h AND NOT MSTATUS_MPP_MASK) OR MSTATUS_MPP_S\<rparr>;
          h = h\<lparr>mepc := main\<rparr>;
          h = h\<lparr>m_satp := 0\<rparr>;
          h = h\<lparr>medeleg := 0xffff\<rparr>;
          h = h\<lparr>mideleg := 0xffff\<rparr>;
          h = h\<lparr>m_sie := m_sie h OR SIE_SEIE OR SIE_STIE OR SIE_SSIE\<rparr>;
          h = h\<lparr>pmpaddr0 := 0x3fffffffffffff\<rparr>;
          h = h\<lparr>pmpcfg0 := 0xf\<rparr>;
          h = timerinit scratch timervec h
      in h\<lparr>m_tp := mhartid h\<rparr>)"

subsection \<open>Kernel initialisation\<close>

record benv =
  be_tenv :: tenv
  be_etext :: uint64
  be_pfn :: uint32   \<comment> \<open>page number of the disk driver's queue\<close>

text \<open>\<^verbatim>\<open>kvminit\<close>, \<^verbatim>\<open>kvminithart\<close> and \<^verbatim>\<open>trapinithart\<close>; \<^verbatim>\<open>kernel_pagetable\<close> is the value returned.\<close>

definition kvminit :: "benv \<Rightarrow> 'a ktrap_scheme \<Rightarrow> (uint64 \<times> 'a ktrap_scheme) res" where
  "kvminit e s = kvmmake (be_etext e) (pe_trampoline (te_penv (be_tenv e))) s"

definition kvminithart :: "uint64 \<Rightarrow> 'a ktrap_scheme \<Rightarrow> 'a ktrap_scheme" where
  "kvminithart pt s = s\<lparr>satp := MAKE_SATP pt\<rparr>"

definition trapinithart :: "benv \<Rightarrow> 'a ktrap_scheme \<Rightarrow> 'a ktrap_scheme" where
  "trapinithart e s = s\<lparr>stvec := te_kernelvec (be_tenv e)\<rparr>"

text \<open>
  \<^verbatim>\<open>main\<close> on the first hart, up to its call of the scheduler; the initialisers that only name
  a lock leave no trace.
\<close>

definition main :: "benv \<Rightarrow> 'a ktrap_scheme \<Rightarrow> 'a ktrap_scheme res" where
  "main e s =
     (let s = printfinit (consoleinit s); nl = [CHR 0x0A] in
      bindR (kprintf nl [] s) (\<lambda>s.
      bindR (kprintf (''xv6 kernel is booting'' @ nl) [] s) (\<lambda>s.
      bindR (kprintf nl [] s) (\<lambda>s.
      bindR (kinit s) (\<lambda>s.
      bindR (kvminit e s) (\<lambda>(pt, s).
      let s = kvminithart pt s in
      bindR (procinit s) (\<lambda>s.
      let s = plicinithart (plicinit (trapinithart e s)) in
      bindR (binit s) (\<lambda>s.
      bindR (iinit s) (\<lambda>s.
      bindR (virtio_disk_init (te_reg (be_tenv e)) (be_pfn e) s) (\<lambda>s.
      userinit (pe_trampoline (te_penv (be_tenv e))) (pe_forkret (te_penv (be_tenv e))) s))))))))))"

text \<open>\<^verbatim>\<open>main\<close> on the other harts, once the first has set \<^verbatim>\<open>started\<close>.\<close>

definition main_other :: "benv \<Rightarrow> uint64 \<Rightarrow> 'a ktrap_scheme \<Rightarrow> 'a ktrap_scheme res" where
  "main_other e pt s =
     bindR (kprintf (''hart %d starting'' @ [CHR 0x0A]) [AInt (of_nat (hartid s))] s) (\<lambda>s.
     Ok (plicinithart (trapinithart e (kvminithart pt s))))"

end
