(* ===== verification/Asm.thy ===== *)
theory Asm
  imports Physmem Procdef
begin

section \<open>Assembly code: \<^verbatim>\<open>trampoline.S\<close>, \<^verbatim>\<open>swtch.S\<close>, \<^verbatim>\<open>kernelvec.S\<close>, \<^verbatim>\<open>entry.S\<close>\<close>

text \<open>
  The code that enters and leaves the kernel and switches between kernel threads, as lists of
  instructions with a semantics for each instruction: every load and store goes through the register
  the instruction names, whatever an earlier instruction has left there, and through the address
  translation in force at that moment.  Register \<open>n\<close> of the hart is \<open>x n\<close>, numbered as in the
  RISC-V manual.
\<close>

record hart =
  x :: "nat \<Rightarrow> uint64"
  h_pc :: uint64
  h_sscratch :: uint64
  h_satp :: uint64
  h_sepc :: uint64
  h_mscratch :: uint64
  h_mepc :: uint64
  h_sip :: uint64
  h_mhartid :: uint64

abbreviation (input) ra :: nat where "ra \<equiv> 1"
abbreviation (input) sp :: nat where "sp \<equiv> 2"
abbreviation (input) gp :: nat where "gp \<equiv> 3"
abbreviation (input) tp :: nat where "tp \<equiv> 4"
abbreviation (input) t0 :: nat where "t0 \<equiv> 5"
abbreviation (input) t1 :: nat where "t1 \<equiv> 6"
abbreviation (input) t2 :: nat where "t2 \<equiv> 7"
abbreviation (input) s0 :: nat where "s0 \<equiv> 8"
abbreviation (input) s1 :: nat where "s1 \<equiv> 9"
abbreviation (input) a0 :: nat where "a0 \<equiv> 10"
abbreviation (input) a1 :: nat where "a1 \<equiv> 11"
abbreviation (input) a2 :: nat where "a2 \<equiv> 12"
abbreviation (input) a3 :: nat where "a3 \<equiv> 13"
abbreviation (input) a4 :: nat where "a4 \<equiv> 14"
abbreviation (input) a5 :: nat where "a5 \<equiv> 15"
abbreviation (input) a6 :: nat where "a6 \<equiv> 16"
abbreviation (input) a7 :: nat where "a7 \<equiv> 17"
abbreviation (input) s2 :: nat where "s2 \<equiv> 18"
abbreviation (input) s3 :: nat where "s3 \<equiv> 19"
abbreviation (input) s4 :: nat where "s4 \<equiv> 20"
abbreviation (input) s5 :: nat where "s5 \<equiv> 21"
abbreviation (input) s6 :: nat where "s6 \<equiv> 22"
abbreviation (input) s7 :: nat where "s7 \<equiv> 23"
abbreviation (input) s8 :: nat where "s8 \<equiv> 24"
abbreviation (input) s9 :: nat where "s9 \<equiv> 25"
abbreviation (input) s10 :: nat where "s10 \<equiv> 26"
abbreviation (input) s11 :: nat where "s11 \<equiv> 27"
abbreviation (input) t3 :: nat where "t3 \<equiv> 28"
abbreviation (input) t4 :: nat where "t4 \<equiv> 29"
abbreviation (input) t5 :: nat where "t5 \<equiv> 30"
abbreviation (input) t6 :: nat where "t6 \<equiv> 31"

subsection \<open>Instructions\<close>

datatype csr = Sscratch | Satp | Sip | Mscratch | Mhartid

datatype instr =
    LD nat uint64 nat        \<comment> \<open>\<^verbatim>\<open>ld rd, off(rs)\<close>\<close>
  | SD nat uint64 nat        \<comment> \<open>\<^verbatim>\<open>sd rs2, off(rs1)\<close>\<close>
  | ADDI nat nat uint64
  | ADD nat nat nat
  | MUL nat nat nat
  | LI nat uint64            \<comment> \<open>also \<^verbatim>\<open>la\<close>\<close>
  | CSRRW nat csr nat
  | CSRR nat csr
  | CSRW csr nat
  | SFENCE_VMA
  | CALL uint64 uint64       \<comment> \<open>target and address of the next instruction\<close>
  | JR nat
  | RET
  | SRET
  | MRET

fun csr_get :: "csr \<Rightarrow> hart \<Rightarrow> uint64" where
  "csr_get Sscratch h = h_sscratch h"
| "csr_get Satp h = h_satp h"
| "csr_get Sip h = h_sip h"
| "csr_get Mscratch h = h_mscratch h"
| "csr_get Mhartid h = h_mhartid h"

text \<open>\<^verbatim>\<open>mhartid\<close> is read-only.\<close>

fun csr_put :: "csr \<Rightarrow> uint64 \<Rightarrow> hart \<Rightarrow> hart" where
  "csr_put Sscratch v h = h\<lparr>h_sscratch := v\<rparr>"
| "csr_put Satp v h = h\<lparr>h_satp := v\<rparr>"
| "csr_put Sip v h = h\<lparr>h_sip := v\<rparr>"
| "csr_put Mscratch v h = h\<lparr>h_mscratch := v\<rparr>"
| "csr_put Mhartid v h = h"

definition set_x :: "nat \<Rightarrow> uint64 \<Rightarrow> hart \<Rightarrow> hart" where
  "set_x n v h = h\<lparr>x := (x h)(n := v)\<rparr>"

text \<open>
  \<open>tr satp va\<close> is the physical address the memory-management unit gives for \<open>va\<close> under the page
  table \<^verbatim>\<open>satp\<close>; an access is aligned, so that its eight bytes are on one page.
\<close>

type_synonym mmu = "uint64 \<Rightarrow> uint64 \<Rightarrow> uint64"

fun exec_instr :: "mmu \<Rightarrow> instr \<Rightarrow> hart \<times> mem \<Rightarrow> hart \<times> mem" where
  "exec_instr tr (LD rd off rs) (h, m) = (set_x rd (load64 m (tr (h_satp h) (x h rs + off))) h, m)"
| "exec_instr tr (SD r off rs) (h, m) = (h, store64 m (tr (h_satp h) (x h rs + off)) (x h r))"
| "exec_instr tr (ADDI rd rs i) (h, m) = (set_x rd (x h rs + i) h, m)"
| "exec_instr tr (ADD rd r1 r2) (h, m) = (set_x rd (x h r1 + x h r2) h, m)"
| "exec_instr tr (MUL rd r1 r2) (h, m) = (set_x rd (x h r1 * x h r2) h, m)"
| "exec_instr tr (LI rd i) (h, m) = (set_x rd i h, m)"
| "exec_instr tr (CSRRW rd c rs) (h, m) = (set_x rd (csr_get c h) (csr_put c (x h rs) h), m)"
| "exec_instr tr (CSRR rd c) (h, m) = (set_x rd (csr_get c h) h, m)"
| "exec_instr tr (CSRW c rs) (h, m) = (csr_put c (x h rs) h, m)"
| "exec_instr tr SFENCE_VMA (h, m) = (h, m)"
| "exec_instr tr (CALL f r) (h, m) = ((set_x ra r h)\<lparr>h_pc := f\<rparr>, m)"
| "exec_instr tr (JR rs) (h, m) = (h\<lparr>h_pc := x h rs\<rparr>, m)"
| "exec_instr tr RET (h, m) = (h\<lparr>h_pc := x h ra\<rparr>, m)"
| "exec_instr tr SRET (h, m) = (h\<lparr>h_pc := h_sepc h\<rparr>, m)"
| "exec_instr tr MRET (h, m) = (h\<lparr>h_pc := h_mepc h\<rparr>, m)"

fun run_code :: "mmu \<Rightarrow> instr list \<Rightarrow> hart \<times> mem \<Rightarrow> hart \<times> mem" where
  "run_code tr [] hm = hm"
| "run_code tr (i # is) hm = run_code tr is (exec_instr tr i hm)"

text \<open>Machine mode does not translate, and the kernel maps its data to itself.\<close>

definition direct :: mmu where
  "direct satp va = va"

subsection \<open>The trampoline page\<close>

definition uservec_code :: "instr list" where
  "uservec_code =
    [CSRRW a0 Sscratch a0, SD ra 40 a0, SD sp 48 a0, SD gp 56 a0, SD tp 64 a0, SD t0 72 a0,
     SD t1 80 a0, SD t2 88 a0, SD s0 96 a0, SD s1 104 a0, SD a1 120 a0, SD a2 128 a0, SD a3 136 a0,
     SD a4 144 a0, SD a5 152 a0, SD a6 160 a0, SD a7 168 a0, SD s2 176 a0, SD s3 184 a0, SD s4 192 a0,
     SD s5 200 a0, SD s6 208 a0, SD s7 216 a0, SD s8 224 a0, SD s9 232 a0, SD s10 240 a0,
     SD s11 248 a0, SD t3 256 a0, SD t4 264 a0, SD t5 272 a0, SD t6 280 a0, CSRR t0 Sscratch,
     SD t0 112 a0, LD sp 8 a0, LD tp 32 a0, LD t0 16 a0, LD t1 0 a0, CSRW Satp t1, SFENCE_VMA, JR t0]"

definition uservec :: "mmu \<Rightarrow> hart \<times> mem \<Rightarrow> hart \<times> mem" where
  "uservec tr = run_code tr uservec_code"

definition userret_code :: "instr list" where
  "userret_code =
    [CSRW Satp a1, SFENCE_VMA, LD t0 112 a0, CSRW Sscratch t0, LD ra 40 a0, LD sp 48 a0, LD gp 56 a0,
     LD tp 64 a0, LD t0 72 a0, LD t1 80 a0, LD t2 88 a0, LD s0 96 a0, LD s1 104 a0, LD a1 120 a0,
     LD a2 128 a0, LD a3 136 a0, LD a4 144 a0, LD a5 152 a0, LD a6 160 a0, LD a7 168 a0, LD s2 176 a0,
     LD s3 184 a0, LD s4 192 a0, LD s5 200 a0, LD s6 208 a0, LD s7 216 a0, LD s8 224 a0, LD s9 232 a0,
     LD s10 240 a0, LD s11 248 a0, LD t3 256 a0, LD t4 264 a0, LD t5 272 a0, LD t6 280 a0,
     CSRRW a0 Sscratch a0, SRET]"

definition userret :: "mmu \<Rightarrow> hart \<times> mem \<Rightarrow> hart \<times> mem" where
  "userret tr = run_code tr userret_code"

subsection \<open>Context switches\<close>

text \<open>\<^verbatim>\<open>swtch(old, new)\<close> with its arguments in a0 and a1; it returns to the new ra.\<close>

definition swtch_code :: "instr list" where
  "swtch_code =
    [SD ra 0 a0, SD sp 8 a0, SD s0 16 a0, SD s1 24 a0, SD s2 32 a0, SD s3 40 a0, SD s4 48 a0,
     SD s5 56 a0, SD s6 64 a0, SD s7 72 a0, SD s8 80 a0, SD s9 88 a0, SD s10 96 a0, SD s11 104 a0,
     LD ra 0 a1, LD sp 8 a1, LD s0 16 a1, LD s1 24 a1, LD s2 32 a1, LD s3 40 a1, LD s4 48 a1,
     LD s5 56 a1, LD s6 64 a1, LD s7 72 a1, LD s8 80 a1, LD s9 88 a1, LD s10 96 a1, LD s11 104 a1, RET]"

definition swtch :: "hart \<times> mem \<Rightarrow> hart \<times> mem" where
  "swtch = run_code direct swtch_code"

subsection \<open>Kernel traps and the timer\<close>

text \<open>
  \<^verbatim>\<open>kernelvec\<close> around the C function \<^verbatim>\<open>kerneltrap\<close>, which is an argument here with the call that
  enters it and its return.
\<close>

definition kernelvec_save_code :: "instr list" where
  "kernelvec_save_code =
    [ADDI sp sp (-256), SD ra 0 sp, SD sp 8 sp, SD gp 16 sp, SD tp 24 sp, SD t0 32 sp, SD t1 40 sp,
     SD t2 48 sp, SD s0 56 sp, SD s1 64 sp, SD a0 72 sp, SD a1 80 sp, SD a2 88 sp, SD a3 96 sp,
     SD a4 104 sp, SD a5 112 sp, SD a6 120 sp, SD a7 128 sp, SD s2 136 sp, SD s3 144 sp, SD s4 152 sp,
     SD s5 160 sp, SD s6 168 sp, SD s7 176 sp, SD s8 184 sp, SD s9 192 sp, SD s10 200 sp,
     SD s11 208 sp, SD t3 216 sp, SD t4 224 sp, SD t5 232 sp, SD t6 240 sp]"

definition kernelvec_save :: "mmu \<Rightarrow> hart \<times> mem \<Rightarrow> hart \<times> mem" where
  "kernelvec_save tr = run_code tr kernelvec_save_code"

definition kernelvec_restore_code :: "instr list" where
  "kernelvec_restore_code =
    [LD ra 0 sp, LD sp 8 sp, LD gp 16 sp, LD t0 32 sp, LD t1 40 sp, LD t2 48 sp, LD s0 56 sp,
     LD s1 64 sp, LD a0 72 sp, LD a1 80 sp, LD a2 88 sp, LD a3 96 sp, LD a4 104 sp, LD a5 112 sp,
     LD a6 120 sp, LD a7 128 sp, LD s2 136 sp, LD s3 144 sp, LD s4 152 sp, LD s5 160 sp, LD s6 168 sp,
     LD s7 176 sp, LD s8 184 sp, LD s9 192 sp, LD s10 200 sp, LD s11 208 sp, LD t3 216 sp,
     LD t4 224 sp, LD t5 232 sp, LD t6 240 sp, ADDI sp sp 256, SRET]"

definition kernelvec_restore :: "mmu \<Rightarrow> hart \<times> mem \<Rightarrow> hart \<times> mem" where
  "kernelvec_restore tr = run_code tr kernelvec_restore_code"

definition kernelvec :: "mmu \<Rightarrow> (hart \<times> mem \<Rightarrow> hart \<times> mem) \<Rightarrow> hart \<times> mem \<Rightarrow> hart \<times> mem" where
  "kernelvec tr kerneltrap hm = kernelvec_restore tr (kerneltrap (kernelvec_save tr hm))"

definition timervec_code :: "instr list" where
  "timervec_code =
    [CSRRW a0 Mscratch a0, SD a1 0 a0, SD a2 8 a0, SD a3 16 a0, LD a1 24 a0, LD a2 32 a0, LD a3 0 a1,
     ADD a3 a3 a2, SD a3 0 a1, LI a1 2, CSRW Sip a1, LD a3 16 a0, LD a2 8 a0, LD a1 0 a0,
     CSRRW a0 Mscratch a0, MRET]"

definition timervec :: "hart \<times> mem \<Rightarrow> hart \<times> mem" where
  "timervec = run_code direct timervec_code"

text \<open>\<^verbatim>\<open>_entry\<close> up to the call of \<^verbatim>\<open>start\<close>; the addresses are the linker's.\<close>

definition entry_code :: "uint64 \<Rightarrow> uint64 \<Rightarrow> uint64 \<Rightarrow> instr list" where
  "entry_code stack0 start spin =
    [LI sp stack0, LI a0 (1024 * 4), CSRR a1 Mhartid, ADDI a1 a1 1, MUL a0 a0 a1, ADD sp sp a0,
     CALL start spin]"

definition entry :: "uint64 \<Rightarrow> uint64 \<Rightarrow> uint64 \<Rightarrow> hart \<times> mem \<Rightarrow> hart \<times> mem" where
  "entry stack0 start spin = run_code direct (entry_code stack0 start spin)"

subsection \<open>Sequences of stores and loads\<close>

text \<open>
  The registers a save area holds, with their offsets: the trap frame (a0 apart), a
  \<^verbatim>\<open>struct context\<close>, and the frame \<^verbatim>\<open>kernelvec\<close> pushes.
\<close>

type_synonym slots = "(nat \<times> uint64) list"

definition tf_off :: "nat \<Rightarrow> uint64" where
  "tf_off n = 32 + 8 * of_nat n"

definition tf_slots :: slots where
  "tf_slots = map (\<lambda>n. (n, tf_off n)) (1 # [2..<10] @ [11..<32])"

definition ctx_slots :: slots where
  "ctx_slots =
    [(1, 0), (2, 8), (8, 16), (9, 24), (18, 32), (19, 40), (20, 48), (21, 56), (22, 64), (23, 72),
     (24, 80), (25, 88), (26, 96), (27, 104)]"

definition kv_slots :: slots where
  "kv_slots = map (\<lambda>n. (n, 8 * of_nat n - 8)) (1 # [2..<32])"

definition sds :: "slots \<Rightarrow> uint64 \<Rightarrow> (nat \<Rightarrow> uint64) \<Rightarrow> mem \<Rightarrow> mem" where
  "sds rs base r m = foldl (\<lambda>m (n, off). store64 m (base + off) (r n)) m rs"

definition lds :: "slots \<Rightarrow> uint64 \<Rightarrow> mem \<Rightarrow> (nat \<Rightarrow> uint64) \<Rightarrow> nat \<Rightarrow> uint64" where
  "lds rs base m r = foldl (\<lambda>r (n, off). r(n := load64 m (base + off))) r rs"

definition save_to :: "nat \<Rightarrow> slots \<Rightarrow> instr list" where
  "save_to b rs = map (\<lambda>(n, off). SD n off b) rs"

definition load_from :: "nat \<Rightarrow> slots \<Rightarrow> instr list" where
  "load_from b rs = map (\<lambda>(n, off). LD n off b) rs"

text \<open>\<open>n\<close> bytes at the virtual address \<open>va\<close> are at the physical address \<open>pa\<close>.\<close>

definition maps :: "mmu \<Rightarrow> uint64 \<Rightarrow> uint64 \<Rightarrow> uint64 \<Rightarrow> nat \<Rightarrow> bool" where
  "maps tr satp va pa n \<longleftrightarrow> (\<forall>k<n. tr satp (va + of_nat k) = pa + of_nat k)"

subsection \<open>Saving and restoring registers\<close>

text \<open>Two 8-byte cells that do not overlap.\<close>

definition apart :: "uint64 \<Rightarrow> uint64 \<Rightarrow> bool" where
  "apart a b \<longleftrightarrow> 8 \<le> unat (a - b) \<and> 8 \<le> unat (b - a)"

lemma apart_offset [simp]: "apart (p + a) (p + b) = apart a b"
  by (simp add: apart_def)

lemma apart_sym: "apart a b = apart b a"
  by (auto simp: apart_def)

lemma unat_minus: "d \<noteq> 0 \<Longrightarrow> unat (- d) = 2 ^ 64 - unat (d :: uint64)"
  using unat_sub_if' [of 0 d] unsigned_less [of d] by (simp add: unat_eq_zero)

lemma load64_store64_apart:
  assumes "apart a b"
  shows "load64 (store64 m a w) b = load64 m b"
proof -
  have d: "8 \<le> unat (b - a)" "8 \<le> unat (- (b - a))" using assms by (simp_all add: apart_def)
  then have nz: "b - a \<noteq> 0" by (metis unat_0 not_numeral_le_zero)
  have "store64 m a w (b + of_nat i) = m (b + of_nat i)" if "i < 8" for i
  proof -
    have i: "unat (of_nat i :: uint64) = i" using that by (simp add: unat_of_nat_64)
    have "unat (b - a) + i < 2 ^ 64" using d(2) unat_minus [OF nz] that unsigned_less [of "b - a"] by simp
    then have "unat (b - a + of_nat i) = unat (b - a) + i" using unat_add_lem [of "b - a" "of_nat i"] i by simp
    then have "\<not> unat (b + of_nat i - a) < 8" using d(1) by (simp add: diff_add_eq)
    then show ?thesis by (simp add: store64_def mem_put_def)
  qed
  then have "mem_get (store64 m a w) b 8 = mem_get m b 8" by (simp add: mem_get_def)
  then show ?thesis by (simp add: load64_def)
qed

lemma sds_Cons: "sds ((n, off) # rs) base r m = sds rs base r (store64 m (base + off) (r n))"
  by (simp add: sds_def)

lemma lds_Cons: "lds ((n, off) # rs) base m r = lds rs base m (r(n := load64 m (base + off)))"
  by (simp add: lds_def)

lemma sds_Nil [simp]: "sds [] base r m = m" "lds [] base m r = r"
  by (simp_all add: sds_def lds_def)

lemma load_sds_other:
  "(\<And>n off. (n, off) \<in> set rs \<Longrightarrow> apart (base + off) a) \<Longrightarrow> load64 (sds rs base r m) a = load64 m a"
proof (induction rs arbitrary: m)
  case (Cons x rs)
  obtain n off where x: "x = (n, off)" by (cases x)
  have "load64 (sds rs base r (store64 m (base + off) (r n))) a = load64 (store64 m (base + off) (r n)) a"
    by (rule Cons.IH) (use Cons.prems in auto)
  then show ?case using Cons.prems [of n off] by (simp add: x sds_Cons load64_store64_apart)
qed simp

lemma lds_out: "n \<notin> fst ` set rs \<Longrightarrow> lds rs base m r n = r n"
proof (induction rs arbitrary: r)
  case (Cons x rs)
  then show ?case by (cases x) (auto simp: lds_Cons)
qed simp

text \<open>Ascending offsets below a page, at least eight bytes from one to the next.\<close>

fun below :: "uint64 list \<Rightarrow> nat \<Rightarrow> bool" where
  "below [] a \<longleftrightarrow> True"
| "below (o1 # os) a \<longleftrightarrow> a \<le> unat o1 \<and> unat o1 < 4096 \<and> below os (unat o1 + 8)"

lemma below_ge: "below os a \<Longrightarrow> o1 \<in> set os \<Longrightarrow> a \<le> unat o1 \<and> unat o1 < 4096"
  by (induction os a rule: below.induct) auto

lemma apartI: "unat a + 8 \<le> unat b \<Longrightarrow> unat b < 4096 \<Longrightarrow> apart a b"
  using unat_sub_if' [of a b] unat_sub_if' [of b a] by (simp add: apart_def) arith

lemma below_apart: "below os a \<Longrightarrow> sorted_wrt apart os"
proof (induction os a rule: below.induct)
  case (2 o1 os a)
  then show ?case using below_ge [of os "unat o1 + 8"] by (auto intro: apartI)
qed simp

lemma apart_pages: "unat a < 4096 - 8 \<Longrightarrow> unat b < 4096 - 8 \<Longrightarrow> apart (4096 + a) b"
proof -
  assume ab: "unat a < 4096 - 8" "unat b < 4096 - 8"
  have "unat (4096 + a) = 4096 + unat a" using ab(1) unat_add_lem [of 4096 a] by simp
  then show ?thesis
    using ab unat_sub_if' [of "4096 + a" b] unat_sub_if' [of b "4096 + a"] by (simp add: apart_def) arith
qed

text \<open>
  A save area: every register has one cell, and the cells do not overlap.  Storing the
  registers and loading them back is then the identity on them.
\<close>

locale save_area =
  fixes rs :: slots
  assumes regs: "distinct (map fst rs)" and offsets: "below (map snd rs) 0"
begin

lemma cells: "sorted_wrt (\<lambda>x y. apart (snd x) (snd y)) rs"
  using below_apart [OF offsets] by (simp add: sorted_wrt_map)

lemma load_saved: "(n, off) \<in> set rs \<Longrightarrow> load64 (sds rs base r m) (base + off) = r n"
  using cells
proof (induction rs arbitrary: m)
  case (Cons x rs)
  obtain k o' where x: "x = (k, o')" by (cases x)
  show ?case
  proof (cases "(n, off) = x")
    case True
    have "load64 (sds rs base r (store64 m (base + off) (r n))) (base + off) = load64 (store64 m (base + off) (r n)) (base + off)"
      by (rule load_sds_other) (use Cons.prems(2) True in \<open>auto simp: apart_sym\<close>)
    then show ?thesis using True x by (simp add: sds_Cons)
  next
    case False
    then show ?thesis using Cons x by (auto simp: sds_Cons)
  qed
qed simp

lemma lds_in: "(n, off) \<in> set rs \<Longrightarrow> lds rs base m r n = load64 m (base + off)"
  using regs
proof (induction rs arbitrary: r)
  case (Cons x rs)
  obtain k o' where x: "x = (k, o')" by (cases x)
  show ?case
  proof (cases "(n, off) = x")
    case True
    then have "n \<notin> fst ` set rs" using Cons.prems(2) x by simp
    then show ?thesis using True x lds_out [of n rs] by (simp add: lds_Cons)
  next
    case False
    then show ?thesis using Cons x by (auto simp: lds_Cons)
  qed
qed simp

text \<open>Registers come back if their cells were not written in between.\<close>

lemma restore:
  "(n, off) \<in> set rs \<Longrightarrow> load64 m' (base + off) = load64 (sds rs base r m) (base + off) \<Longrightarrow> lds rs base m' r' n = r n"
  by (simp add: lds_in load_saved)

end

interpretation tf: save_area tf_slots
  by unfold_locales (simp_all add: tf_slots_def tf_off_def upt_rec_numeral)

interpretation ctx: save_area ctx_slots
  by unfold_locales (simp_all add: ctx_slots_def)

interpretation kv: save_area kv_slots
  by unfold_locales (simp_all add: kv_slots_def upt_rec_numeral)

text \<open>A frame: bytes outside the cells keep their values.\<close>

lemma sds_frame:
  assumes "\<forall>(n, off)\<in>set rs. lo \<le> unat off \<and> unat off + 8 \<le> hi" "hi \<le> 4096" "unat (a - base) < lo \<or> hi \<le> unat (a - base)"
  shows "sds rs base r m a = m a"
  using assms(1)
proof (induction rs arbitrary: m)
  case (Cons s rs)
  obtain n off where s: "s = (n, off)" by (cases s)
  have o: "lo \<le> unat off" "unat off + 8 \<le> hi" using Cons.prems s by auto
  have "\<not> unat (a - base - off) < 8" using o assms(2,3) unat_sub_if' [of "a - base" off] unsigned_less [of "a - base"] by (auto split: if_splits)
  then have "store64 m (base + off) (r n) a = m a" by (simp add: store64_def mem_put_def diff_diff_eq)
  then show ?case using Cons by (simp add: s sds_Cons)
qed simp

subsection \<open>Runs of stores and loads\<close>

lemma set_x_simps [simp]:
  "x (set_x n v h) = (x h)(n := v)" "h_pc (set_x n v h) = h_pc h" "h_sscratch (set_x n v h) = h_sscratch h" "h_satp (set_x n v h) = h_satp h"
  "h_sepc (set_x n v h) = h_sepc h" "h_mscratch (set_x n v h) = h_mscratch h" "h_mepc (set_x n v h) = h_mepc h" "h_sip (set_x n v h) = h_sip h"
  by (simp_all add: set_x_def)

lemma maps_off: "maps tr satp va pa n \<Longrightarrow> unat off < n \<Longrightarrow> tr satp (va + off) = pa + off"
  unfolding maps_def by (drule spec [of _ "unat off"]) simp

lemma run_append: "run_code tr (is @ js) hm = run_code tr js (run_code tr is hm)"
  by (induction "is" arbitrary: hm) simp_all

lemma run_save:
  assumes "\<forall>(n, off)\<in>set rs. tr (h_satp h) (x h b + off) = base + off"
  shows "run_code tr (save_to b rs) (h, m) = (h, sds rs base (x h) m)"
  using assms by (induction rs arbitrary: m) (auto simp: save_to_def sds_Cons)

lemma run_load:
  assumes "\<forall>(n, off)\<in>set rs. n \<noteq> b \<and> tr (h_satp h) (x h b + off) = base + off"
  shows "run_code tr (load_from b rs) (h, m) = (h\<lparr>x := lds rs base m (x h)\<rparr>, m)"
  using assms
proof (induction rs arbitrary: h)
  case (Cons s rs)
  obtain n off where s: "s = (n, off)" by (cases s)
  have "run_code tr (load_from b rs) (set_x n (load64 m (base + off)) h, m) =
      ((set_x n (load64 m (base + off)) h)\<lparr>x := lds rs base m (x (set_x n (load64 m (base + off)) h))\<rparr>, m)"
    by (rule Cons.IH) (use Cons.prems s in simp)
  then show ?case using Cons.prems by (simp add: s load_from_def lds_Cons) (simp add: set_x_def)
qed (simp add: load_from_def)

lemmas run_simps = run_append direct_def set_x_def

subsection \<open>The trap frame\<close>

lemma tf_slot_iff: "(n, off) \<in> set tf_slots \<longleftrightarrow> n \<in> {1..31} - {10} \<and> off = tf_off n"
proof -
  have "n \<in> {1..31} - {10} \<longleftrightarrow> n \<in> set (1 # [2..<10] @ [11..<32])" by (auto simp del: upt_rec_numeral)
  then show ?thesis by (auto simp: tf_slots_def simp del: upt_rec_numeral)
qed

lemma unat_tf_off: "n \<le> 31 \<Longrightarrow> unat (tf_off n) = 32 + 8 * n"
  using unat_of_nat_64 [of "32 + 8 * n"] by (simp add: tf_off_def)

lemma tf_cell:
  assumes "(n, off) \<in> set tf_slots"
  shows "n \<noteq> 10" "40 \<le> unat off" "unat off + 8 \<le> 288" "apart off 112" "apart off 0" "apart off 8" "apart off 16" "apart off 32"
proof -
  have c: "n \<in> {1..31} - {10}" "unat off = 32 + 8 * n" using assms unat_tf_off [of n] by (auto simp: tf_slot_iff)
  then show "n \<noteq> 10" "40 \<le> unat off" "unat off + 8 \<le> 288" by auto
  have "unat off + 8 \<le> 112 \<or> 120 \<le> unat off" "unat off < 4096" using c by auto
  then show "apart off 112" using apartI [of off 112] apartI [of 112 off] by (auto simp: apart_sym [of 112])
  show "apart off 0" "apart off 8" "apart off 16" "apart off 32" using c by (simp_all add: apart_sym [of off] apartI)
qed

lemma tf_below: "(n, off) \<in> set tf_slots \<Longrightarrow> unat off < 4096"
  using tf_cell(3) [of n off] by simp

lemma uservec_split: "uservec_code = CSRRW a0 Sscratch a0 # save_to a0 tf_slots @
    [CSRR t0 Sscratch, SD t0 112 a0, LD sp 8 a0, LD tp 32 a0, LD t0 16 a0, LD t1 0 a0, CSRW Satp t1, SFENCE_VMA, JR t0]"
  by (simp add: uservec_code_def save_to_def tf_slots_def tf_off_def upt_rec_numeral)

lemma userret_split: "userret_code = [CSRW Satp a1, SFENCE_VMA, LD t0 112 a0, CSRW Sscratch t0] @ load_from a0 tf_slots @ [CSRRW a0 Sscratch a0, SRET]"
  by (simp add: userret_code_def load_from_def tf_slots_def tf_off_def upt_rec_numeral)

lemma uservec_run:
  assumes "maps tr (h_satp h) (h_sscratch h) tf 4096" "m' = store64 (sds tf_slots tf ((x h)(10 := h_sscratch h)) m) (tf + 112) (x h 10)"
  shows "uservec tr (h, m) = (h\<lparr>x := (x h)(10 := h_sscratch h, 2 := load64 m' (tf + 8), 4 := load64 m' (tf + 32), 5 := load64 m' (tf + 16), 6 := load64 m' tf),
      h_sscratch := x h 10, h_satp := load64 m' tf, h_pc := load64 m' (tf + 16)\<rparr>, m')"
proof -
  let ?h = "h\<lparr>h_sscratch := x h 10, x := (x h)(10 := h_sscratch h)\<rparr>"
  have t: "tr (h_satp h) (h_sscratch h + off) = tf + off" if "unat off < 4096" for off using maps_off [OF assms(1) that] .
  have t0: "tr (h_satp h) (h_sscratch h) = tf" using t [of 0] by simp
  have "run_code tr (save_to a0 tf_slots) (?h, m) = (?h, sds tf_slots tf (x ?h) m)"
    by (rule run_save) (auto intro: t tf_below)
  then have "uservec tr (h, m) = (h\<lparr>h_sscratch := x h 10, x := (x h)(10 := h_sscratch h, 5 := x h 10, 2 := load64 m' (tf + 8), 4 := load64 m' (tf + 32),
      5 := load64 m' (tf + 16), 6 := load64 m' tf), h_satp := load64 m' tf, h_pc := load64 m' (tf + 16)\<rparr>, m')"
    by (simp add: uservec_def uservec_split run_simps t t0 assms(2))
  also have "\<dots> = (h\<lparr>x := (x h)(10 := h_sscratch h, 2 := load64 m' (tf + 8), 4 := load64 m' (tf + 32), 5 := load64 m' (tf + 16), 6 := load64 m' tf),
      h_sscratch := x h 10, h_satp := load64 m' tf, h_pc := load64 m' (tf + 16)\<rparr>, m')"
    by (cases h) (simp add: fun_upd_twist)
  finally show ?thesis .
qed

lemma userret_run:
  assumes "maps tr (x h 11) (x h 10) tf 4096"
  shows "userret tr (h, m) = (h\<lparr>x := (lds tf_slots tf m ((x h)(5 := load64 m (tf + 112))))(10 := load64 m (tf + 112)),
      h_sscratch := x h 10, h_satp := x h 11, h_pc := h_sepc h\<rparr>, m)"
proof -
  let ?h = "h\<lparr>h_satp := x h 11, x := (x h)(5 := load64 m (tf + 112)), h_sscratch := load64 m (tf + 112)\<rparr>"
  have t: "tr (x h 11) (x h 10 + off) = tf + off" if "unat off < 4096" for off using maps_off [OF assms that] .
  have "run_code tr (load_from a0 tf_slots) (?h, m) = (?h\<lparr>x := lds tf_slots tf m (x ?h)\<rparr>, m)"
    by (rule run_load) (auto intro: t tf_below dest: tf_cell(1))
  moreover have "10 \<notin> fst ` set tf_slots" using tf_cell(1) by force
  ultimately have "userret tr (h, m) = (?h\<lparr>x := (lds tf_slots tf m (x ?h))(10 := load64 m (tf + 112)), h_sscratch := x h 10, h_pc := h_sepc h\<rparr>, m)"
    by (simp add: userret_def userret_split run_simps t lds_out)
  then show ?thesis by (cases h) simp
qed

subsection \<open>Properties\<close>

text \<open>
  C5: A trap from user space and the return lose no register.  With the address of the trap frame in
  \<^verbatim>\<open>sscratch\<close> and the frame mapped there by the user page table, \<^verbatim>\<open>uservec\<close> stores every user register in its
  field of \<^verbatim>\<open>struct trapframe\<close>, writes nothing else, and goes on with the kernel stack, hart id, page table and
  trap handler that the trap frame names.  \<^verbatim>\<open>userret(TRAPFRAME, satp)\<close> loads every register from its field, whether or not
  the kernel has changed it, goes to the saved program counter on the user page table and leaves
  \<^verbatim>\<open>TRAPFRAME\<close> in \<^verbatim>\<open>sscratch\<close> for the next trap.
\<close>

theorem trap_restores_registers:
  assumes "uservec tr (h, m) = (h1, m1)" "h_sscratch h = TRAPFRAME" "maps tr (h_satp h) TRAPFRAME tf 4096"
    "userret tr (h2, m2) = (h3, m3)" "x h2 10 = TRAPFRAME" "maps tr (x h2 11) TRAPFRAME tf 4096"
  shows "(\<forall>n\<in>{1..31}. load64 m1 (tf + tf_off n) = x h n \<and> x h3 n = load64 m2 (tf + tf_off n)) \<and>
    (\<forall>a. unat (a - tf) < 40 \<or> 288 \<le> unat (a - tf) \<longrightarrow> m1 a = m a) \<and>
    (x h1 2 = load64 m (tf + 8) \<and> x h1 4 = load64 m (tf + 32) \<and> h_satp h1 = load64 m tf \<and> h_pc h1 = load64 m (tf + 16) \<and> h_sepc h1 = h_sepc h) \<and>
    (h_pc h3 = h_sepc h2 \<and> h_satp h3 = x h2 11 \<and> h_sscratch h3 = TRAPFRAME \<and> m3 = m2)"
proof -
  let ?r = "(x h)(10 := h_sscratch h)"
  define m' where "m' = store64 (sds tf_slots tf ?r m) (tf + 112) (x h 10)"
  have 1: "m1 = m'" "x h1 2 = load64 m' (tf + 8)" "x h1 4 = load64 m' (tf + 32)" "h_satp h1 = load64 m' tf" "h_pc h1 = load64 m' (tf + 16)" "h_sepc h1 = h_sepc h"
    using uservec_run [of tr h tf m' m] assms(1-3) by (auto simp: m'_def)
  have 3: "x h3 = (lds tf_slots tf m2 ((x h2)(5 := load64 m2 (tf + 112))))(10 := load64 m2 (tf + 112))"
    "h_pc h3 = h_sepc h2" "h_satp h3 = x h2 11" "h_sscratch h3 = TRAPFRAME" "m3 = m2"
    using userret_run [of tr h2 tf m2] assms(4-6) by auto
  have s: "load64 m' (tf + off) = x h n" if "(n, off) \<in> set tf_slots" for n off
    using tf_cell [OF that] tf.load_saved [OF that, of tf ?r m] by (simp add: m'_def load64_store64_apart apart_sym [of 112])
  have k: "load64 m' (tf + c) = load64 m (tf + c)" if "c \<in> {0, 8, 16, 32}" for c
  proof -
    have "load64 (sds tf_slots tf ?r m) (tf + c) = load64 m (tf + c)"
      by (rule load_sds_other) (use that tf_cell in auto)
    moreover have "apart 112 c" using that by (auto simp: apart_def)
    ultimately show ?thesis by (simp add: m'_def load64_store64_apart)
  qed
  have f: "m' a = m a" if "unat (a - tf) < 40 \<or> 288 \<le> unat (a - tf)" for a
  proof -
    have "sds (tf_slots @ [(10, 112)]) tf (x h) m a = m a"
      by (rule sds_frame [OF _ _ that]) (use tf_cell(2,3) in auto)
    moreover have "sds (tf_slots @ [(10, 112)]) tf (x h) m = m'"
      by (simp add: m'_def sds_def) (rule arg_cong [where f = "\<lambda>y. store64 y _ _"], rule foldl_cong, simp_all, use tf_cell(1) in fastforce)
    ultimately show ?thesis by simp
  qed
  have r: "load64 m1 (tf + tf_off n) = x h n \<and> x h3 n = load64 m2 (tf + tf_off n)" if n: "n \<in> {1..31}" for n
  proof (cases "n = 10")
    case True
    then show ?thesis using 3(1) by (simp add: 1(1) m'_def tf_off_def)
  next
    case False
    then have off: "(n, tf_off n) \<in> set tf_slots" using n by (simp add: tf_slot_iff)
    then show ?thesis using s [OF off] False tf.lds_in [OF off] by (simp add: 1(1) 3(1))
  qed
  then show ?thesis using r f 1 3(2-5) k [of 0] k [of 8] k [of 16] k [of 32] by simp
qed

definition sample_hart :: hart where
  "sample_hart = \<lparr>x = of_nat, h_pc = 0, h_sscratch = TRAPFRAME, h_satp = 0, h_sepc = 0, h_mscratch = 0, h_mepc = 0, h_sip = 0, h_mhartid = 0\<rparr>"

text \<open>A user page table that has the trap frame at the page \<^verbatim>\<open>0x87000000\<close>.\<close>

definition sample_mmu :: mmu where
  "sample_mmu satp va = (if satp = 0 then 0x87000000 + (va - TRAPFRAME) else va)"

theorem trap_restores_registers_witness:
  "\<exists>h1 m1 h3 m3. uservec sample_mmu (sample_hart, \<lambda>_. 0) = (h1, m1) \<and>
    userret sample_mmu (h1\<lparr>x := (x h1)(10 := TRAPFRAME, 11 := 0)\<rparr>, m1) = (h3, m3) \<and> (\<forall>n\<in>{1..31}. x h3 n = of_nat n)"
proof -
  obtain h1 m1 where e1: "uservec sample_mmu (sample_hart, \<lambda>_. 0) = (h1, m1)" by (metis surj_pair)
  obtain h3 m3 where e3: "userret sample_mmu (h1\<lparr>x := (x h1)(10 := TRAPFRAME, 11 := 0)\<rparr>, m1) = (h3, m3)" by (metis surj_pair)
  have m: "maps sample_mmu 0 TRAPFRAME 0x87000000 4096" by (simp add: maps_def sample_mmu_def)
  show ?thesis using trap_restores_registers [OF e1 _ _ e3, where tf = "0x87000000"] m e1 e3 by (simp add: sample_hart_def)
qed

lemma ctx_regs: "map fst ctx_slots = [1, 2, 8, 9] @ [18..<28]"
  by (simp add: ctx_slots_def)

lemma ctx_reg_iff: "n \<in> fst ` set ctx_slots \<longleftrightarrow> n \<in> {1, 2, 8, 9} \<union> {18..27}"
  using arg_cong [OF ctx_regs, of set] by (auto simp del: upt_rec_numeral)

lemma swtch_run:
  "swtch (h, m) = (let m' = sds ctx_slots (x h 10) (x h) m; r = lds ctx_slots (x h 11) m' (x h) in (h\<lparr>x := r, h_pc := r 1\<rparr>, m'))"
proof -
  have c: "swtch_code = save_to a0 ctx_slots @ load_from a1 ctx_slots @ [RET]"
    by (simp add: swtch_code_def save_to_def load_from_def ctx_slots_def)
  have "run_code direct (save_to a0 ctx_slots) (h, m) = (h, sds ctx_slots (x h 10) (x h) m)" for m by (rule run_save) (simp add: direct_def)
  moreover have "run_code direct (load_from a1 ctx_slots) (h, m) = (h\<lparr>x := lds ctx_slots (x h 11) m (x h)\<rparr>, m)" for m
    by (rule run_load) (simp add: direct_def ctx_slots_def)
  ultimately show ?thesis by (simp add: swtch_def c run_append Let_def)
qed

text \<open>
  C20: A kernel thread that is switched out resumes where it was.  When \<^verbatim>\<open>swtch\<close> has saved a
  thread in a context and a later \<^verbatim>\<open>swtch\<close> from another context, which does not overlap it,
  switches back with the context unchanged, the stack pointer, the return address and all
  callee-saved registers have their old values, execution goes on after the first call, and the
  second call changes no other register.
\<close>

theorem swtch_resumes:
  assumes "swtch (h, m) = (h1, m1)" "swtch (h2, m2) = (h3, m3)" "x h2 11 = x h 10"
    "\<forall>(n, off) \<in> set ctx_slots. load64 m2 (x h 10 + off) = load64 m1 (x h 10 + off)"
    "\<forall>(n, off) \<in> set ctx_slots. \<forall>(k, off') \<in> set ctx_slots. apart (x h2 10 + off) (x h 10 + off')"
  shows "(\<forall>n \<in> {1, 2, 8, 9} \<union> {18..27}. x h3 n = x h n) \<and> h_pc h3 = x h 1 \<and> (\<forall>n. n \<notin> {1, 2, 8, 9} \<union> {18..27} \<longrightarrow> x h3 n = x h2 n)"
proof -
  have m1: "m1 = sds ctx_slots (x h 10) (x h) m" using assms(1) by (auto simp: swtch_run Let_def)
  have m3: "m3 = sds ctx_slots (x h2 10) (x h2) m2" and h3: "x h3 = lds ctx_slots (x h2 11) m3 (x h2)" "h_pc h3 = x h3 1"
    using assms(2) by (auto simp: swtch_run Let_def)
  have r: "x h3 n = x h n" if n: "n \<in> {1, 2, 8, 9} \<union> {18..27}" for n
  proof -
    obtain off where off: "(n, off) \<in> set ctx_slots" using n unfolding ctx_reg_iff [symmetric] by auto
    have "load64 m3 (x h 10 + off) = load64 m2 (x h 10 + off)"
      unfolding m3 by (rule load_sds_other) (use assms(5) off in blast)
    also have "\<dots> = load64 m1 (x h 10 + off)" using assms(4) off by blast
    finally show ?thesis unfolding h3(1) assms(3) m1 by (rule ctx.restore [OF off])
  qed
  moreover have "x h3 n = x h2 n" if "n \<notin> {1, 2, 8, 9} \<union> {18..27}" for n
    unfolding h3(1) by (rule lds_out) (use that ctx_reg_iff in blast)
  ultimately show ?thesis using h3(2) by auto
qed

theorem swtch_resumes_witness:
  "\<exists>h1 m1 h3 m3. swtch (sample_hart\<lparr>x := (x sample_hart)(10 := 0, 11 := 4096)\<rparr>, \<lambda>_. 0) = (h1, m1) \<and>
    swtch (h1\<lparr>x := (x h1)(10 := 4096, 11 := 0)\<rparr>, m1) = (h3, m3) \<and> x h3 2 = 2 \<and> x h3 27 = 27 \<and> h_pc h3 = 1"
proof -
  let ?h = "sample_hart\<lparr>x := (x sample_hart)(10 := 0, 11 := 4096)\<rparr>"
  obtain h1 m1 where e1: "swtch (?h, \<lambda>_. 0) = (h1, m1)" by (metis surj_pair)
  obtain h3 m3 where e3: "swtch (h1\<lparr>x := (x h1)(10 := 4096, 11 := 0)\<rparr>, m1) = (h3, m3)" by (metis surj_pair)
  have "\<forall>(n, off) \<in> set ctx_slots. unat off < 4096 - 8" by (simp add: ctx_slots_def)
  then have "apart (4096 + off) off'" if "(n, off) \<in> set ctx_slots" "(k, off') \<in> set ctx_slots" for n off k off'
    using that by (intro apart_pages) blast+
  then have ap: "\<forall>(n, off) \<in> set ctx_slots. \<forall>(k, off') \<in> set ctx_slots. apart (4096 + off) off'" by blast
  have r: "\<forall>n \<in> {1, 2, 8, 9} \<union> {18..27}. x h3 n = x ?h n" "h_pc h3 = x ?h 1"
    using swtch_resumes [OF e1 e3] ap by simp_all
  then have "x h3 2 = 2" "x h3 27 = 27" "h_pc h3 = 1"
    using bspec [OF r(1), of 2] bspec [OF r(1), of 27] by (simp_all add: sample_hart_def)
  then show ?thesis using e1 e3 by blast
qed

text \<open>The cells of the frame of \<^verbatim>\<open>kernelvec\<close>.\<close>

lemma kv_cell: "(n, off) \<in> set kv_slots \<Longrightarrow> unat off + 8 \<le> 248"
proof -
  have "\<forall>s\<in>set kv_slots. unat (snd s) + 8 \<le> 248" by (simp add: kv_slots_def upt_rec_numeral)
  then show "(n, off) \<in> set kv_slots \<Longrightarrow> unat off + 8 \<le> 248" by fastforce
qed

lemma kv_reg: "n \<in> {1..31} \<Longrightarrow> \<exists>off. (n, off) \<in> set kv_slots"
proof -
  assume "n \<in> {1..31}"
  then have "n \<in> set (1 # [2..<32])" by (auto simp del: upt_rec_numeral)
  then show ?thesis unfolding kv_slots_def set_map by blast
qed

text \<open>The registers \<^verbatim>\<open>kernelvec\<close> loads after sp.\<close>

definition kv_rest :: slots where
  "kv_rest = map (\<lambda>n. (n, 8 * of_nat n - 8)) (3 # [5..<32])"

interpretation kvr: save_area kv_rest
  by unfold_locales (simp_all add: kv_rest_def upt_rec_numeral)

lemma kv_rest_iff: "(n, off) \<in> set kv_rest \<longleftrightarrow> (n, off) \<in> set kv_slots \<and> n \<notin> {1, 2, 4}"
proof -
  have "n \<in> set (3 # [5..<32]) \<longleftrightarrow> n \<in> set (1 # [2..<32]) \<and> n \<notin> {1, 2, 4}" by (auto simp del: upt_rec_numeral)
  then show ?thesis unfolding kv_rest_def kv_slots_def set_map by blast
qed

lemma kernelvec_save_run:
  assumes "maps tr (h_satp h) (x h 2 - 256) pa 256"
  shows "kernelvec_save tr (h, m) = (h\<lparr>x := (x h)(2 := x h 2 - 256)\<rparr>, sds kv_slots pa ((x h)(2 := x h 2 - 256)) m)"
proof -
  have c: "kernelvec_save_code = ADDI sp sp (-256) # save_to sp kv_slots"
    by (simp add: kernelvec_save_code_def save_to_def kv_slots_def upt_rec_numeral)
  let ?h = "h\<lparr>x := (x h)(2 := x h 2 - 256)\<rparr>"
  have "tr (h_satp h) (x h 2 - 256 + off) = pa + off" if "(n, off) \<in> set kv_slots" for n off
    using maps_off [OF assms] kv_cell [OF that] by simp
  then have "run_code tr (save_to sp kv_slots) (?h, m) = (?h, sds kv_slots pa (x ?h) m)" by (intro run_save) auto
  then show ?thesis by (simp add: kernelvec_save_def c set_x_def)
qed

lemma kernelvec_restore_run:
  assumes "maps tr (h_satp h) (x h 2) pa 256" "load64 m (pa + 8) = x h 2" "r = lds kv_rest pa m ((x h)(1 := load64 m pa))"
  shows "kernelvec_restore tr (h, m) = (h\<lparr>x := r(2 := x h 2 + 256), h_pc := h_sepc h\<rparr>, m)"
proof -
  have c: "kernelvec_restore_code = [LD ra 0 sp, LD sp 8 sp] @ load_from sp kv_rest @ [ADDI sp sp 256, SRET]"
    by (simp add: kernelvec_restore_code_def load_from_def kv_rest_def upt_rec_numeral)
  have t: "tr (h_satp h) (x h 2 + off) = pa + off" if "unat off < 256" for off using maps_off [OF assms(1) that] .
  have t0: "tr (h_satp h) (x h 2) = pa" using t [of 0] by simp
  let ?h = "h\<lparr>x := (x h)(1 := load64 m pa)\<rparr>"
  have "n \<noteq> sp \<and> tr (h_satp h) (x h 2 + off) = pa + off" if "(n, off) \<in> set kv_rest" for n off
    using that kv_cell [of n off] t [of off] by (simp add: kv_rest_iff)
  then have "run_code tr (load_from sp kv_rest) (?h, m) = (?h\<lparr>x := lds kv_rest pa m (x ?h)\<rparr>, m)" by (intro run_load) auto
  moreover have "(x h)(1 := v, 2 := x h 2) = (x h)(1 := v)" for v by (simp add: fun_eq_iff)
  moreover have "2 \<notin> fst ` set kv_rest" using kv_rest_iff by fastforce
  ultimately show ?thesis using assms(2) by (simp add: kernelvec_restore_def c run_simps t t0 lds_out assms(3))
qed

text \<open>
  C28: A trap in the kernel is transparent to the code it interrupts.  \<^verbatim>\<open>kernelvec\<close> pushes every register in the 256 bytes
  below the stack pointer, wherever the page table has them, and writes nothing else.  If \<^verbatim>\<open>kerneltrap\<close> comes back with its stack
  pointer and page table and leaves those bytes alone, \<^verbatim>\<open>kernelvec\<close> returns to \<^verbatim>\<open>sepc\<close> with every register but tp as before,
  the stack pointer included, tp being the one of the hart it returns on, and with the memory as
  \<^verbatim>\<open>kerneltrap\<close> left it.
\<close>

theorem kernelvec_transparent:
  assumes "maps tr (h_satp h) (x h 2 - 256) pa 256" "kernelvec_save tr (h, m) = (h1, m1)" "kerneltrap (h1, m1) = (h2, m2)"
    "x h2 2 = x h1 2" "h_satp h2 = h_satp h1" "\<forall>k<256. m2 (pa + of_nat k) = m1 (pa + of_nat k)"
    "kernelvec tr kerneltrap (h, m) = (h3, m3)"
  shows "(\<forall>n \<in> {1..31} - {4}. x h3 n = x h n) \<and> x h3 4 = x h2 4 \<and> h_pc h3 = h_sepc h2 \<and> m3 = m2 \<and>
    x h1 2 = x h 2 - 256 \<and> (\<forall>a. 256 \<le> unat (a - pa) \<longrightarrow> m1 a = m a)"
proof -
  let ?r = "(x h)(2 := x h 2 - 256)"
  have s: "x h1 = ?r" "h_satp h1 = h_satp h" "m1 = sds kv_slots pa ?r m" using kernelvec_save_run [OF assms(1), of m] assms(2) by auto
  have w: "load64 m2 (pa + off) = ?r n" if off: "(n, off) \<in> set kv_slots" for n off
  proof -
    have "m2 (pa + off + of_nat k) = m1 (pa + off + of_nat k)" if "k < 8" for k
      using assms(6) [rule_format, of "unat off + k"] kv_cell [OF off] that by (simp add: add.assoc)
    then have "load64 m2 (pa + off) = load64 m1 (pa + off)" unfolding load64_def by (intro arg_cong [of _ _ le_cat] mem_get_cong)
    then show ?thesis using kv.load_saved [OF off, of pa ?r m] s(3) by simp
  qed
  have "(1, 0) \<in> set kv_slots" "(2, 8) \<in> set kv_slots" by (simp_all add: kv_slots_def)
  then have w12: "load64 m2 pa = x h 1" "load64 m2 (pa + 8) = x h2 2" using w [of 1 0] w [of 2 8] assms(4) s(1) by simp_all
  define r where "r = lds kv_rest pa m2 ((x h2)(1 := load64 m2 pa))"
  have "maps tr (h_satp h2) (x h2 2) pa 256" using assms(1,4,5) s(1,2) by simp
  then have h3: "x h3 = r(2 := x h2 2 + 256)" "h_pc h3 = h_sepc h2" "m3 = m2"
    using kernelvec_restore_run [OF _ w12(2) r_def] assms(7) unfolding kernelvec_def assms(2,3) by auto
  have "x h3 n = x h n" if n: "n \<in> {1..31} - {4}" for n
  proof -
    obtain off where off: "(n, off) \<in> set kv_slots" using kv_reg n by blast
    consider "n = 2" | "n = 1" | "n \<notin> {1, 2, 4}" using n by auto
    then show ?thesis
    proof cases
      case 2
      have "1 \<notin> fst ` set kv_rest" using kv_rest_iff by fastforce
      then show ?thesis using 2 h3(1) w12(1) by (simp add: r_def lds_out)
    next
      case 3
      then have "r n = load64 m2 (pa + off)" unfolding r_def by (intro kvr.lds_in) (use off kv_rest_iff in blast)
      then show ?thesis using 3 h3(1) w [OF off] by simp
    qed (use h3(1) assms(4) s(1) in simp)
  qed
  moreover have "4 \<notin> fst ` set kv_rest" using kv_rest_iff by fastforce
  then have "x h3 4 = x h2 4" using h3(1) by (simp add: r_def lds_out)
  moreover have "m1 a = m a" if "256 \<le> unat (a - pa)" for a
    unfolding s(3) by (rule sds_frame [where lo = 0 and hi = 256]) (use kv_cell that in fastforce)+
  ultimately show ?thesis using h3(2,3) s(1) by simp
qed

theorem kernelvec_transparent_witness:
  "\<exists>h3 m3. kernelvec direct (\<lambda>(h, m). (h\<lparr>x := (x h)(1 := 0, 10 := 99)\<rparr>, m)) (sample_hart, \<lambda>_. 0) = (h3, m3) \<and> x h3 1 = 1 \<and> x h3 2 = 2 \<and> x h3 10 = 10"
proof -
  let ?k = "\<lambda>(h, m). (h\<lparr>x := (x h)(1 := 0, 10 := 99)\<rparr>, m) :: hart \<times> mem"
  obtain h1 m1 where e1: "kernelvec_save direct (sample_hart, \<lambda>_. 0) = (h1, m1)" by (metis surj_pair)
  obtain h3 m3 where e3: "kernelvec direct ?k (sample_hart, \<lambda>_. 0) = (h3, m3)" by (cases "kernelvec direct ?k (sample_hart, \<lambda>_. 0)")
  have r: "\<forall>n \<in> {1..31} - {4}. x h3 n = x sample_hart n"
    using kernelvec_transparent [OF _ e1 _ _ _ _ e3, where ?pa = "x sample_hart 2 - 256" and ?h2.0 = "h1\<lparr>x := (x h1)(1 := 0, 10 := 99)\<rparr>" and ?m2.0 = m1]
    by (simp add: maps_def direct_def)
  have "x h3 1 = 1" "x h3 2 = 2" "x h3 10 = 10" using bspec [OF r, of 1] bspec [OF r, of 2] bspec [OF r, of 10] by (simp_all add: sample_hart_def)
  then show ?thesis using e3 by blast
qed

text \<open>
  C29: The machine-mode timer interrupt is invisible to the kernel.  \<^verbatim>\<open>timervec\<close> restores every
  register and \<^verbatim>\<open>mscratch\<close>, returns to the interrupted instruction, raises a supervisor software
  interrupt, and moves the time of the next interrupt forward by the hart's interval, provided the
  comparison register does not overlap the scratch area.
\<close>

theorem timervec_transparent:
  assumes "sc = h_mscratch h" "cmp = load64 m (sc + 24)" "\<forall>k \<in> {0, 8, 16}. apart cmp (sc + k)" "timervec (h, m) = (h1, m1)"
  shows "x h1 = x h \<and> h_mscratch h1 = sc \<and> h_pc h1 = h_mepc h \<and> h_sip h1 = 2 \<and>
    load64 m1 cmp = load64 m cmp + load64 m (sc + 32)"
proof -
  define M where "M = store64 (store64 (store64 m sc (x h 11)) (sc + 8) (x h 12)) (sc + 16) (x h 13)"
  have k: "apart sc (sc + 8)" "apart sc (sc + 16)" "apart (sc + 8) sc" "apart (sc + 16) sc" "apart (sc + 8) (sc + 16)" "apart (sc + 16) (sc + 8)"
    "apart sc (sc + 24)" "apart (sc + 8) (sc + 24)" "apart (sc + 16) (sc + 24)" "apart sc (sc + 32)" "apart (sc + 8) (sc + 32)" "apart (sc + 16) (sc + 32)"
    using apart_offset [of sc 0] apart_offset [of sc _ 0] by (simp_all add: apart_def)
  have ne: "apart sc cmp" "apart (sc + 8) cmp" "apart (sc + 16) cmp" "apart cmp sc" "apart cmp (sc + 8)" "apart cmp (sc + 16)"
    using assms(3) by (simp_all add: apart_sym [of _ cmp])
  have M: "load64 M (sc + 24) = cmp" "load64 M (sc + 32) = load64 m (sc + 32)" "load64 M cmp = load64 m cmp"
    "load64 M sc = x h 11" "load64 M (sc + 8) = x h 12" "load64 M (sc + 16) = x h 13"
    using k ne assms(2) by (simp_all add: M_def load64_store64_apart)
  let ?n = "store64 M cmp (load64 m cmp + load64 m (sc + 32))"
  have N: "load64 ?n sc = x h 11" "load64 ?n (sc + 8) = x h 12" "load64 ?n (sc + 16) = x h 13"
    using M(4-6) ne(4-6) by (simp_all add: load64_store64_apart)
  have "m1 = ?n" "x h1 = (x h)(11 := x h 11, 12 := x h 12, 13 := x h 13, 10 := x h 10)"
    "h_mscratch h1 = sc" "h_pc h1 = h_mepc h" "h_sip h1 = 2"
    using assms(4) by (auto simp: timervec_def timervec_code_def run_simps assms(1) [symmetric] M_def [symmetric] M N fun_eq_iff)
  then show ?thesis by simp
qed

theorem timervec_transparent_witness:
  "\<exists>h1 m1. timervec (sample_hart\<lparr>h_mscratch := 4096\<rparr>, store64 (store64 (\<lambda>_. 0) 4120 8192) 4128 1000) = (h1, m1) \<and>
    x h1 = of_nat \<and> load64 m1 8192 = 1000"
proof -
  let ?h = "sample_hart\<lparr>h_mscratch := 4096\<rparr>" and ?m = "store64 (store64 (\<lambda>_. 0) 4120 8192) 4128 1000"
  obtain h1 m1 where e: "timervec (?h, ?m) = (h1, m1)" by (cases "timervec (?h, ?m)")
  have a: "apart 4128 4120" "apart 8192 4096" "apart 8192 4104" "apart 8192 4112" "apart 4128 8192" "apart 4120 8192"
    by (simp_all add: apart_def)
  have z: "load64 (\<lambda>_. 0) 8192 = 0" by (simp add: load64_def mem_get_def map_replicate_const)
  have c: "load64 ?m 4120 = 8192" "load64 ?m 4128 = 1000" "load64 ?m 8192 = 0" using a z by (simp_all add: load64_store64_apart)
  show ?thesis using timervec_transparent [of 4096 ?h 8192 ?m, OF _ _ _ e] a c e by (auto simp: sample_hart_def)
qed

end
