(* ===== verification/Freewalk.thy ===== *)
theory Freewalk
  imports Pagetable
begin

section \<open>Freeing the pages of a page table\<close>

text \<open>
  \<^verbatim>\<open>freewalk\<close> on a table whose mappings have been removed: it ends, and every page of
  the tree goes to the free list, children before their parents.
\<close>

subsection \<open>The pages of a tree\<close>

text \<open>The pages of the tree below \<open>p\<close>, \<open>d\<close> levels deep, in the order \<^verbatim>\<open>freewalk\<close> frees them.\<close>

fun walk_pages :: "nat \<Rightarrow> mem \<Rightarrow> uint64 \<Rightarrow> uint64 list" where
  "walk_pages 0 m p = [p]"
| "walk_pages (Suc d) m p = concat (map (\<lambda>i. if valid (ent m p (of_nat i)) then walk_pages d m (PTE2PA (ent m p (of_nat i))) else []) [0..<512]) @ [p]"

text \<open>No mapping is left: entries point to tables, and those of the last level are not valid.\<close>

fun bare :: "nat \<Rightarrow> mem \<Rightarrow> uint64 \<Rightarrow> bool" where
  "bare 0 m p \<longleftrightarrow> (\<forall>i<512. \<not> valid (ent m p (of_nat i)))"
| "bare (Suc d) m p \<longleftrightarrow> (\<forall>i<512. valid (ent m p (of_nat i)) \<longrightarrow>
     ent m p (of_nat i) AND (PTE_R OR PTE_W OR PTE_X) = 0 \<and> bare d m (PTE2PA (ent m p (of_nat i))))"

definition kids :: "nat \<Rightarrow> mem \<Rightarrow> uint64 \<Rightarrow> nat \<Rightarrow> uint64 list" where
  "kids d m p i = (if valid (ent m p (of_nat i)) then walk_pages d m (PTE2PA (ent m p (of_nat i))) else [])"

lemma walk_pages_kids: "walk_pages (Suc d) m p = concat (map (kids d m p) [0..<512]) @ [p]"
  by (simp add: kids_def [abs_def])

lemma walk_pages_root: "p \<in> set (walk_pages d m p)"
  by (cases d) simp_all

text \<open>The tree depends on the bytes of its pages only.\<close>

lemma ent_same: "page_aligned p \<Longrightarrow> i < 512 \<Longrightarrow> (\<And>a. on_page p a \<Longrightarrow> m' a = m a) \<Longrightarrow> ent m' p (of_nat i) = ent m p (of_nat i)"
proof -
  assume p: "page_aligned p" "i < 512" "\<And>a. on_page p a \<Longrightarrow> m' a = m a"
  have "m' (slot p (of_nat i) + of_nat j) = m (slot p (of_nat i) + of_nat j)" if "j < 8" for j
  proof (rule p(3))
    have "unat (slot p (of_nat i) + of_nat j - p) = 8 * i + j"
      using p(2) that unat_of_nat_64 [of "8 * i + j"] by (simp add: algebra_simps)
    then show "on_page p (slot p (of_nat i) + of_nat j)" using p(2) that by (simp add: on_page_def word_less_nat_alt)
  qed
  then show ?thesis unfolding ent_def load64_def by (intro arg_cong [of _ _ le_cat] mem_get_cong)
qed

lemma tree_same:
  assumes "\<forall>q\<in>set (walk_pages d m p). page_aligned q" "\<And>q a. q \<in> set (walk_pages d m p) \<Longrightarrow> on_page q a \<Longrightarrow> m' a = m a"
  shows "walk_pages d m' p = walk_pages d m p \<and> bare d m' p = bare d m p"
  using assms
proof (induction d arbitrary: p)
  case 0
  then have "ent m' p (of_nat i) = ent m p (of_nat i)" if "i < 512" for i using that by (intro ent_same) auto
  then show ?case by simp
next
  case (Suc d)
  have e: "ent m' p (of_nat i) = ent m p (of_nat i)" if "i < 512" for i
    using Suc.prems walk_pages_root [of p "Suc d" m] that by (intro ent_same) blast+
  have k: "walk_pages d m' c = walk_pages d m c \<and> bare d m' c = bare d m c"
    if "i < 512" "valid (ent m p (of_nat i))" "c = PTE2PA (ent m p (of_nat i))" for i c
  proof (rule Suc.IH)
    have sub: "set (walk_pages d m c) \<subseteq> set (walk_pages (Suc d) m p)" using that by auto
    show "\<forall>q\<in>set (walk_pages d m c). page_aligned q" using Suc.prems(1) sub by blast
    show "m' a = m a" if "q \<in> set (walk_pages d m c)" "on_page q a" for q a using Suc.prems(2) sub that by blast
  qed
  have "map (kids d m' p) [0..<512] = map (kids d m p) [0..<512]" using e k by (intro map_cong) (auto simp: kids_def)
  then have "walk_pages (Suc d) m' p = walk_pages (Suc d) m p" unfolding walk_pages_kids by metis
  then show ?case using e k by auto
qed

lemma upt_split: "i < n \<Longrightarrow> [0..<n] = [0..<i] @ i # [Suc i..<n]"
  using upt_add_eq_append [of 0 i "n - i"] by (simp add: upt_conv_Cons)

lemma pages_disjoint: "page_aligned p \<Longrightarrow> page_aligned q \<Longrightarrow> on_page p a \<Longrightarrow> on_page q a \<Longrightarrow> p = q"
  by (simp add: on_page_iff)

subsection \<open>Freeing them\<close>

text \<open>
  After \<open>i\<close> rounds of the loop over the entries of \<open>p\<close>: the trees below the first \<open>i\<close> entries are free, and only their
  pages and the entries seen have changed.
\<close>

definition walk_inv :: "nat \<Rightarrow> uint64 \<Rightarrow> uint64 list \<Rightarrow> 'a kmem_scheme \<Rightarrow> nat \<Rightarrow> 'a kmem_scheme \<Rightarrow> bool" where
  "walk_inv d p xs s i u \<longleftrightarrow> (let fs = concat (map (kids d (mem s) p) [0..<i]) in
     kalloc_ready (rev fs @ xs) u \<and> kmem_same s u \<and> (\<forall>j. i \<le> j \<longrightarrow> j < 512 \<longrightarrow> ent (mem u) p (of_nat j) = ent (mem s) p (of_nat j)) \<and>
     (\<forall>a. (\<forall>q\<in>insert p (set fs). \<not> on_page q a) \<longrightarrow> mem u a = mem s a))"

lemma clear_entry:
  assumes "kalloc_ready ys u" "page_aligned p" "p \<notin> set ys" "i < 512"
  shows "kalloc_ready ys (u\<lparr>mem := store64 (mem u) (slot p (of_nat i)) 0\<rparr>)"
proof -
  have "(of_nat i :: uint64) < 512" using assms(4) by (simp add: word_less_nat_alt unat_of_nat_64)
  then have "kmem_inv ys (u\<lparr>mem := store64 (mem u) (slot p (of_nat i)) 0\<rparr>)"
    using assms(1-3) store64_off_page [OF assms(2)] by (intro kmem_inv_frame [of ys u p]) (auto simp: kalloc_ready_def)
  then show ?thesis using assms(1) by (simp add: kalloc_ready_def)
qed

definition freewalk_at :: "nat \<Rightarrow> uint64 \<Rightarrow> nat \<Rightarrow> 'a kmem_scheme \<Rightarrow> 'a kmem_scheme res" where
  "freewalk_at f p i s =
     (let pte = load64 (mem s) (slot p (of_nat i)) in
      if pte AND PTE_V \<noteq> 0 \<and> pte AND (PTE_R OR PTE_W OR PTE_X) = 0
      then bindR (freewalk f (PTE2PA pte) s) (\<lambda>s. Ok (s\<lparr>mem := store64 (mem s) (slot p (of_nat i)) 0\<rparr>))
      else if pte AND PTE_V \<noteq> 0 then Panic ''freewalk: leaf''
      else Ok s)"

lemma freewalk_Suc: "freewalk (Suc f) p s = bindR (foreach (freewalk_at f p) 0 512 s) (kfree p)"
  by (simp add: freewalk_at_def [abs_def])

lemma freewalk_step:
  fixes s u :: "'a kmem_scheme"
  assumes IH: "\<And>ys (v :: 'a kmem_scheme) q. kalloc_ready ys v \<Longrightarrow> bare d (mem v) q \<Longrightarrow> distinct (walk_pages d (mem v) q @ ys) \<Longrightarrow>
      \<forall>r\<in>set (walk_pages d (mem v) q). kpage (kend v) r \<Longrightarrow>
      \<exists>t. freewalk f q v = Ok t \<and> kalloc_ready (rev (walk_pages d (mem v) q) @ ys) t \<and> kmem_same v t \<and>
        (\<forall>a. (\<forall>r\<in>set (walk_pages d (mem v) q). \<not> on_page r a) \<longrightarrow> mem t a = mem v a)"
    and I: "walk_inv d p xs s i u" and "bare (Suc d) (mem s) p" "distinct (concat (map (kids d (mem s) p) [0..<512]) @ p # xs)" and i: "i < 512"
    and pg: "\<And>q. q = p \<or> (\<exists>i<512. q \<in> set (kids d (mem s) p i)) \<Longrightarrow> kpage (kend s) q" and pa: "page_aligned p"
  shows "okR (freewalk_at f p i u) (walk_inv d p xs s (Suc i))"
proof -
  let ?m = "mem s" and ?k = "kids d (mem s) p"
  define fs where "fs = concat (map ?k [0..<i])"
  have u: "kalloc_ready (rev fs @ xs) u" "kmem_same s u" "\<And>j. i \<le> j \<Longrightarrow> j < 512 \<Longrightarrow> ent (mem u) p (of_nat j) = ent ?m p (of_nat j)"
    "\<And>a. (\<forall>q\<in>insert p (set fs). \<not> on_page q a) \<Longrightarrow> mem u a = mem s a"
    using I unfolding walk_inv_def Let_def fs_def [symmetric] by blast+
  have fs': "concat (map ?k [0..<Suc i]) = fs @ ?k i" by (simp add: fs_def)
  have "[0..<512] = [0..<i] @ i # [Suc i..<512]" by (rule upt_split [OF i])
  then have di: "distinct (fs @ ?k i @ p # xs)" using assms(4) by (auto simp: fs_def simp del: upt_rec_numeral)
  let ?e = "ent ?m p (of_nat i)"
  have e: "load64 (mem u) (slot p (of_nat i)) = ?e" using u(3) [of i] i by (simp add: ent_def)
  show ?thesis
  proof (cases "valid ?e")
    case False
    then have "?k i = []" by (simp add: kids_def)
    then show ?thesis using False I u unfolding walk_inv_def Let_def fs' fs_def [symmetric] freewalk_at_def e by (simp add: valid_def)
  next
    case True
    let ?c = "PTE2PA ?e" and ?W = "?k i"
    have W: "?W = walk_pages d ?m ?c" using True by (simp add: kids_def)
    have b: "?e AND (PTE_R OR PTE_W OR PTE_X) = 0" "bare d ?m ?c" using assms(3) True i by auto
    have Wp: "page_aligned q" "q \<noteq> p" "q \<notin> set fs" if "q \<in> set ?W" for q
      using that di pg [of q] i kpage_aligned by auto
    have fp: "page_aligned q" if q: "q \<in> set fs" for q
      proof -
        obtain x where "x < i" "q \<in> set (?k x)" using q by (auto simp: fs_def)
        then show ?thesis using pg [of q] i kpage_aligned less_trans by blast
      qed
    have Wm: "mem u a = mem s a" if "q \<in> set ?W" "on_page q a" for q a
      using that Wp(2,3) [OF that(1)] pages_disjoint [OF Wp(1) [OF that(1)] _ that(2)] fp pa by (intro u(4)) auto
    have same: "walk_pages d (mem u) ?c = ?W" "bare d (mem u) ?c"
      using tree_same [of d ?m ?c "mem u"] Wp(1) Wm b(2) unfolding W by blast+
    have ke: "kend u = kend s" using kmem_same_kend [OF u(2)] .
    have "distinct (?W @ rev fs @ xs)" using di by auto
    then obtain t where t: "freewalk f ?c u = Ok t" "kalloc_ready (rev ?W @ rev fs @ xs) t" "kmem_same u t"
      "\<forall>a. (\<forall>q\<in>set ?W. \<not> on_page q a) \<longrightarrow> mem t a = mem u a"
      using assms(1) [OF u(1) same(2)] pg i unfolding same(1) ke by blast
    define v where "v = t\<lparr>mem := store64 (mem t) (slot p (of_nat i)) 0\<rparr>"
    have wi: "(of_nat i :: uint64) < 512" using i by (simp add: word_less_nat_alt unat_of_nat_64)
    have r: "freewalk_at f p i u = Ok v" using t(1) True b(1) unfolding freewalk_at_def e by (simp add: valid_def v_def)
    have "kalloc_ready (rev (fs @ ?W) @ xs) v" using clear_entry [OF t(2) pa _ i] di by (simp add: v_def)
    moreover have "kmem_same s v" using kmem_same_trans [OF u(2) t(3)] by (simp add: v_def)
    moreover have "ent (mem v) p (of_nat j) = ent ?m p (of_nat j)" if "Suc i \<le> j" "j < 512" for j
    proof -
      have "(of_nat j :: uint64) < 512" "(of_nat j :: uint64) \<noteq> of_nat i"
        using that i unat_of_nat_64 [of i] unat_of_nat_64 [of j] by (auto simp: word_less_nat_alt)
      then have "ent (mem v) p (of_nat j) = ent (mem t) p (of_nat j)" using ent_store [OF pa pa wi] by (simp add: v_def)
      also have "\<dots> = ent (mem u) p (of_nat j)"
        using t(4) Wp(1,2) pages_disjoint [OF pa] that(2) by (intro ent_same [OF pa]) blast+
      finally show ?thesis using u(3) that by simp
    qed
    moreover have "mem v a = mem s a" if a: "\<forall>q\<in>insert p (set (fs @ ?W)). \<not> on_page q a" for a
      using a t(4) u(4) [of a] store64_off_page [OF pa wi] by (simp add: v_def)
    ultimately have "walk_inv d p xs s (Suc i) v" unfolding walk_inv_def Let_def fs' by blast
    then show ?thesis using r by simp
  qed
qed

lemma freewalk_ok:
  fixes s :: "'a kmem_scheme"
  assumes "kalloc_ready xs s" "bare d (mem s) p" "d < f" "distinct (walk_pages d (mem s) p @ xs)" "\<forall>q\<in>set (walk_pages d (mem s) p). kpage (kend s) q"
  shows "\<exists>t. freewalk f p s = Ok t \<and> kalloc_ready (rev (walk_pages d (mem s) p) @ xs) t \<and> kmem_same s t \<and>
    (\<forall>a. (\<forall>q\<in>set (walk_pages d (mem s) p). \<not> on_page q a) \<longrightarrow> mem t a = mem s a)"
  using assms
proof (induction d arbitrary: f p s xs)
  case 0
  obtain f' where f: "f = Suc f'" using 0(3) by (cases f) auto
  have kp: "kpage (kend s) p" using 0(5) by simp
  have "okR (foreach (freewalk_at f' p) 0 512 s) (\<lambda>u. u = s)"
    by (rule foreach_invar [where I = "\<lambda>_ u. u = s"]) (use 0(2) in \<open>auto simp: freewalk_at_def valid_def ent_def\<close>)
  then have r: "freewalk f p s = Ok (freed p s)" using kfree_eq [OF kp] 0(1) unfolding f freewalk_Suc by (auto simp: okR_def kalloc_ready_def)
  then show ?case using freed_inv [OF _ kp, of xs] freed_frame [OF kpage_aligned [OF kp], of _ s] 0(1,4)
    by (intro exI [of _ "freed p s"]) (auto simp: kalloc_ready_def freed_def)
next
  case (Suc d)
  obtain f' where f: "f = Suc f'" "d < f'" using Suc.prems(3) by (cases f) auto
  let ?m = "mem s" and ?k = "kids d (mem s) p"
  have dist: "distinct (concat (map ?k [0..<512]) @ p # xs)" using Suc.prems(4) unfolding walk_pages_kids by auto
  have pg: "kpage (kend s) q" if "q = p \<or> (\<exists>i<512. q \<in> set (?k i))" for q
    using Suc.prems(5) that unfolding walk_pages_kids by auto
  have pa: "page_aligned p" using pg kpage_aligned by blast
  note step = freewalk_step [OF Suc.IH [OF _ _ f(2)] _ Suc.prems(2) dist _ pg pa]
  have "walk_inv d p xs s 0 s" using Suc.prems(1) by (simp add: walk_inv_def)
  then have "okR (foreach (freewalk_at f' p) 0 512 s) (walk_inv d p xs s (0 + 512))" by (intro foreach_invar step) simp_all
  then obtain u where u: "foreach (freewalk_at f' p) 0 512 s = Ok u" "walk_inv d p xs s 512 u" by (auto simp: okR_def)
  let ?fs = "concat (map ?k [0..<512])"
  have v: "kalloc_ready (rev ?fs @ xs) u" "kmem_same s u" "\<And>a. (\<forall>q\<in>insert p (set ?fs). \<not> on_page q a) \<Longrightarrow> mem u a = mem s a"
    using u(2) unfolding walk_inv_def Let_def by blast+
  have kp: "kpage (kend u) p" using pg kmem_same_kend [OF v(2)] by simp
  have r: "freewalk f p s = Ok (freed p u)" using u(1) kfree_eq [OF kp] v(1) unfolding f(1) freewalk_Suc by (simp add: kalloc_ready_def)
  have "kalloc_ready (p # rev ?fs @ xs) (freed p u)"
    using freed_inv [OF _ kp, of "rev ?fs @ xs"] v(1) dist by (auto simp: kalloc_ready_def freed_def)
  moreover have "kmem_same s (freed p u)" using v(2) by (simp add: freed_def)
  moreover have "mem (freed p u) a = mem s a" if "\<forall>q\<in>set (walk_pages (Suc d) ?m p). \<not> on_page q a" for a
    using that freed_frame [OF pa, of a u] v(3) [of a] unfolding walk_pages_kids by simp
  ultimately show ?case using r unfolding walk_pages_kids by (intro exI [of _ "freed p u"]) simp
qed

subsection \<open>Properties\<close>

text \<open>
  C30: \<^verbatim>\<open>freewalk\<close> ends, and frees a page table.  On a tree of page-table pages \<open>d\<close> levels below its root in which no mapping is
  left (\<open>d = 2\<close> for the tables of the kernel), whose pages are different pages of RAM and not free, a recursion
  of more than \<open>d\<close> calls is never needed; every page of the tree is freed once, children before their parents, and no byte of any other page changes.
\<close>

theorem freewalk_frees_tree:
  fixes s :: "'a kmem_scheme"
  assumes "kalloc_ready xs s" "bare d (mem s) root" "d < f" "distinct (walk_pages d (mem s) root @ xs)" "\<forall>q\<in>set (walk_pages d (mem s) root). kpage (kend s) q"
  shows "\<exists>t. freewalk f root s = Ok t \<and> kalloc_ready (rev (walk_pages d (mem s) root) @ xs) t \<and>
    (\<forall>a. PGROUNDDOWN a \<notin> set (walk_pages d (mem s) root) \<longrightarrow> mem t a = mem s a)"
proof -
  obtain t where t: "freewalk f root s = Ok t" "kalloc_ready (rev (walk_pages d (mem s) root) @ xs) t"
    "\<forall>a. (\<forall>q\<in>set (walk_pages d (mem s) root). \<not> on_page q a) \<longrightarrow> mem t a = mem s a"
    using freewalk_ok [OF assms] by blast
  have "\<not> on_page q a" if "PGROUNDDOWN a \<notin> set (walk_pages d (mem s) root)" "q \<in> set (walk_pages d (mem s) root)" for a q
    using that assms(5) on_page_iff [of q a] kpage_aligned by blast
  then show ?thesis using t by blast
qed

text \<open>A root with one table below it.\<close>

definition two_tables :: kmem where
  "two_tables = (bss_kmem 0x80020000)\<lparr>mem := store64 (\<lambda>_. 0) (slot 0x80022000 0) (PA2PTE 0x80023000 OR PTE_V)\<rparr>"

lemma two_tables_ent:
  assumes "i < 512"
  shows "ent (mem two_tables) 0x80022000 (of_nat i) = (if i = 0 then PA2PTE 0x80023000 OR PTE_V else 0)" "ent (mem two_tables) 0x80023000 (of_nat i) = 0"
proof -
  have i: "(of_nat i :: uint64) < 512" "(of_nat i :: uint64) = 0 \<longleftrightarrow> i = 0"
    using assms unat_of_nat_64 [of i] by (auto simp: word_less_nat_alt word_unat_eq_iff)
  have z: "ent (\<lambda>_. 0) p k = 0" for p k by (simp add: ent_def load64_def mem_get_def map_replicate_const)
  have a: "page_aligned 0x80022000" "page_aligned 0x80023000" by (simp_all add: page_aligned_def)
  show "ent (mem two_tables) 0x80022000 (of_nat i) = (if i = 0 then PA2PTE 0x80023000 OR PTE_V else 0)" "ent (mem two_tables) 0x80023000 (of_nat i) = 0"
    using ent_store [OF a(1,1) _ i(1), of 0] ent_store [OF a(1,2) _ i(1), of 0] i(2) z by (auto simp: two_tables_def)
qed

lemma two_tables_tree: "walk_pages 1 (mem two_tables) 0x80022000 = [0x80023000, 0x80022000]" "bare 1 (mem two_tables) 0x80022000"
proof -
  note e = two_tables_ent
  have c: "PTE2PA (PA2PTE 0x80023000 OR PTE_V) = 0x80023000" by (rule PTE2PA_PA2PTE) (simp_all add: page_aligned_def)
  have k: "kids 0 (mem two_tables) 0x80022000 i = (if i = 0 then [0x80023000] else [])" if "i < 512" for i
    by (simp only: kids_def e(1) [OF that]) (simp add: c)
  have m: "map (kids 0 (mem two_tables) 0x80022000) [0..<512] = map (\<lambda>i. if i = 0 then [0x80023000] else []) [0..<512]"
    using k by (intro map_cong) auto
  have "concat (map (\<lambda>i :: nat. if i = 0 then [x] else []) [0..<Suc n]) = [x]" for x :: uint64 and n by (induction n) simp_all
  from this [of "0x80023000" 511] have n: "concat (map (\<lambda>i :: nat. if i = 0 then [0x80023000 :: uint64] else []) [0..<512]) = [0x80023000]"
    unfolding eval_nat_numeral by simp
  show "walk_pages 1 (mem two_tables) 0x80022000 = [0x80023000, 0x80022000]" unfolding One_nat_def walk_pages_kids m n by simp
  have f: "(PA2PTE 0x80023000 OR PTE_V) AND (PTE_R OR PTE_W OR PTE_X) = 0" by (simp add: PA2PTE_def)
  show "bare 1 (mem two_tables) 0x80022000" using e c f by auto
qed

theorem freewalk_frees_tree_witness:
  "\<exists>t. freewalk RAM_PAGES 0x80022000 two_tables = Ok t \<and> kalloc_ready [0x80022000, 0x80023000] t"
proof -
  have r: "kalloc_ready [] two_tables" by (simp add: two_tables_def kalloc_ready_def kmem_inv_def)
  have d: "distinct (walk_pages 1 (mem two_tables) 0x80022000 @ [])" by (simp only: two_tables_tree) simp
  have p: "\<forall>q\<in>set (walk_pages 1 (mem two_tables) 0x80022000). kpage (kend two_tables) q"
    by (simp only: two_tables_tree) (simp add: kpage_def page_aligned_def two_tables_def)
  have "1 < (RAM_PAGES :: nat)" by simp
  from freewalk_frees_tree [OF r two_tables_tree(2) this d p] show ?thesis unfolding two_tables_tree(1) by auto
qed

end
