(* ===== verification/Ring.thy ===== *)
theory Ring
  imports Kprelude
begin

section \<open>Ring buffers\<close>

text \<open>
  Pipes, the console and the UART driver all keep bytes in an array of \<open>N\<close> cells with
  free-running read and write counters of a machine word, used modulo \<open>N\<close>.  The locale says
  when that is sound, also after the counters wrap around: \<open>N\<close> divides the range of the
  counters.  The contents of the buffer are then a queue.
\<close>

definition ring_q :: "nat \<Rightarrow> 'b list \<Rightarrow> 'w::len word \<Rightarrow> 'w word \<Rightarrow> 'b list" where
  "ring_q N d r w = map (\<lambda>i. d ! ((unat r + i) mod N)) [0..<unat (w - r)]"

lemma length_ring_q [simp]: "length (ring_q N d r w) = unat (w - r)"
  by (simp add: ring_q_def)

lemma nth_ring_q: "i < unat (w - r) \<Longrightarrow> ring_q N d r w ! i = d ! ((unat r + i) mod N)"
  by (simp add: ring_q_def)

locale ring =
  fixes N :: nat and ty :: "'w::len itself"
  assumes pos: "0 < N" and small: "N < 2 ^ LENGTH('w)" and divides: "N dvd 2 ^ LENGTH('w)"
begin

lemma index: "unat (r + of_nat i :: 'w word) mod N = (unat r + i) mod N"
proof -
  have "unat (r + of_nat i :: 'w word) = (unat r + i) mod 2 ^ LENGTH('w)"
    by (simp add: unat_word_ariths unat_of_nat take_bit_eq_mod mod_add_right_eq)
  then show ?thesis using divides by (simp add: mod_mod_cancel)
qed

lemma last_index: "unat (w :: 'w word) mod N = (unat r + unat (w - r)) mod N"
  using index [of r "unat (w - r)"] by simp

lemma count_put:
  assumes "unat (w - r :: 'w word) < N"
  shows "unat (w + 1 - r) = Suc (unat (w - r))"
proof -
  have "unat (w - r) + unat (1 :: 'w word) < 2 ^ LENGTH('w)" using assms small by simp
  then have "unat (w - r + 1) = Suc (unat (w - r))" using unat_add_lem [of "w - r" 1] by simp
  then show ?thesis by (simp add: diff_add_eq)
qed

lemma count_get: "r \<noteq> w \<Longrightarrow> unat (w - (r + 1) :: 'w word) = unat (w - r) - 1"
  by (metis diff_diff_eq right_minus_eq unat_sub_one)

lemma full_iff: "unat (w - r :: 'w word) \<le> N \<Longrightarrow> w = r + of_nat N \<longleftrightarrow> unat (w - r) = N"
proof
  assume "w = r + of_nat N"
  then show "unat (w - r) = N" using small by (simp add: unat_of_nat take_bit_nat_eq_self)
next
  assume "unat (w - r) = N"
  then have "w - r = of_nat N" using small by (simp add: word_unat_eq_iff unat_of_nat take_bit_nat_eq_self)
  then show "w = r + of_nat N" by (metis add.commute diff_eq_eq)
qed

lemma empty_iff: "ring_q N d r w = [] \<longleftrightarrow> r = (w :: 'w word)"
proof -
  have "ring_q N d r w = [] \<longleftrightarrow> unat (w - r) = 0" by (metis length_0_conv length_ring_q)
  then show ?thesis by (auto simp: unat_eq_zero)
qed

text \<open>Storing at the write counter appends, unless the ring is full.\<close>

lemma put:
  assumes "length d = N" "unat (w - r :: 'w word) < N"
  shows "ring_q N (d[unat w mod N := c]) r (w + 1) = ring_q N d r w @ [c]"
proof -
  let ?k = "unat (w - r)"
  have i: "unat w mod N = (unat r + ?k) mod N" by (rule last_index)
  have ne: "(unat r + j) mod N \<noteq> unat w mod N" if "j < ?k" for j
  proof
    assume "(unat r + j) mod N = unat w mod N"
    then have "(unat r + j) mod N = (unat r + ?k) mod N" using i by simp
    then have "j mod N = ?k mod N" by (simp add: nat_mod_eq_iff)
    then show False using that assms(2) by simp
  qed
  have "ring_q N (d[unat w mod N := c]) r (w + 1) =
      map (\<lambda>j. d[unat w mod N := c] ! ((unat r + j) mod N)) [0..<?k] @ [d[unat w mod N := c] ! ((unat r + ?k) mod N)]"
    using count_put [OF assms(2)] by (simp add: ring_q_def)
  also have "map (\<lambda>j. d[unat w mod N := c] ! ((unat r + j) mod N)) [0..<?k] = ring_q N d r w"
    unfolding ring_q_def by (rule map_cong [OF refl]) (use ne [THEN not_sym] in auto)
  also have "d[unat w mod N := c] ! ((unat r + ?k) mod N) = c" using i assms(1) pos by simp
  finally show ?thesis .
qed

text \<open>Reading at the read counter gives the head.\<close>

lemma get:
  assumes "r \<noteq> (w :: 'w word)"
  shows "ring_q N d r w = d ! (unat r mod N) # ring_q N d (r + 1) w"
proof -
  have nz: "unat (w - r) \<noteq> 0" using assms by (auto simp: unat_eq_zero)
  have k: "unat (w - r) = Suc (unat (w - (r + 1)))"
    using count_get [OF assms] nz by simp
  have e: "d ! ((unat r + Suc j) mod N) = d ! ((unat (r + 1) + j) mod N)" for j
    using index [of r 1] mod_add_left_eq [of "unat (r + 1)" N j] mod_add_left_eq [of "unat r + 1" N j] by simp
  have "ring_q N d r w ! i = (d ! (unat r mod N) # ring_q N d (r + 1) w) ! i" if "i < unat (w - r)" for i
    using nth_ring_q [OF that, of N d] that k e by (cases i) (simp_all add: nth_ring_q)
  then show ?thesis using k by (intro nth_equalityI) simp_all
qed

text \<open>A ring with a mark between its read and write counters; dropping its last element.\<close>

lemma split:
  assumes "unat (m - r :: 'w word) \<le> unat (w - r)"
  shows "ring_q N d r w = ring_q N d r m @ ring_q N d m w"
proof -
  have e: "w - r - (m - r) = w - m" by simp
  have k: "unat (w - r) = unat (m - r) + unat (w - m)" using assms unat_sub_if' [of "w - r" "m - r"] unfolding e by simp
  have "ring_q N d r w ! i = (ring_q N d r m @ ring_q N d m w) ! i" if "i < unat (w - r)" for i
  proof (cases "i < unat (m - r)")
    case True
    then show ?thesis using that by (simp add: nth_append nth_ring_q)
  next
    case False
    have "(unat m + (i - unat (m - r))) mod N = (unat r + unat (m - r) + (i - unat (m - r))) mod N"
      using last_index [of m r] mod_add_left_eq [of "unat m" N] mod_add_left_eq [of "unat r + unat (m - r)" N] by metis
    then show ?thesis using False that k by (simp add: nth_append nth_ring_q)
  qed
  then show ?thesis using k by (intro nth_equalityI) simp_all
qed

lemma drop_last:
  assumes "w \<noteq> (r :: 'w word)"
  shows "unat (w - 1 - r) = unat (w - r) - 1" "ring_q N d r (w - 1) = butlast (ring_q N d r w)"
    "last (ring_q N d r w) = d ! (unat (w - 1) mod N)"
proof -
  have nz: "w - r \<noteq> 0" using assms by simp
  have e: "w - 1 - r = w - r - 1" by simp
  show c: "unat (w - 1 - r) = unat (w - r) - 1" unfolding e by (rule unat_sub_one [OF nz])
  have p: "0 < unat (w - r)" using nz by (simp add: unat_gt_0)
  show "ring_q N d r (w - 1) = butlast (ring_q N d r w)"
    using c p by (intro nth_equalityI) (simp_all add: nth_butlast nth_ring_q)
  have ne: "ring_q N d r w \<noteq> []" using p by (metis length_ring_q length_0_conv less_irrefl)
  have "unat (w - 1) mod N = (unat r + (unat (w - r) - 1)) mod N" using last_index [of "w - 1" r] c by simp
  then show "last (ring_q N d r w) = d ! (unat (w - 1) mod N)"
    using p ne by (simp add: last_conv_nth nth_ring_q)
qed

end

end
