(* ===== verification/Pipequeue.thy ===== *)
theory Pipequeue
  imports Pipe Usercopy Ring
begin

section \<open>Pipes as queues\<close>

text \<open>
  The bytes in a pipe form a queue: \<^verbatim>\<open>pipewrite\<close> appends bytes of user memory until the pipe is
  full, \<^verbatim>\<open>piperead\<close> moves its first bytes to user memory, also when the 32-bit counters wrap
  around.
\<close>

interpretation pring: ring PIPESIZE "TYPE(32)"
  by unfold_locales simp_all

definition pipe_q :: "pipe \<Rightarrow> uint8 list" where
  "pipe_q p = ring_q PIPESIZE (pi_data p) (nread p) (nwrite p)"

definition pipe_inv :: "pipe \<Rightarrow> bool" where
  "pipe_inv p \<longleftrightarrow> length (pi_data p) = PIPESIZE \<and> length (pipe_q p) \<le> PIPESIZE"

lemma pipe_full: "pipe_inv p \<Longrightarrow> nwrite p = nread p + of_nat PIPESIZE \<longleftrightarrow> length (pipe_q p) = PIPESIZE"
  using pring.full_iff [of "nwrite p" "nread p"] by (simp add: pipe_inv_def pipe_q_def)

lemma pipe_empty: "nread p = nwrite p \<longleftrightarrow> pipe_q p = []"
  using pring.empty_iff [of "pi_data p" "nread p" "nwrite p"] by (simp add: pipe_q_def)

lemma pipe_put_q:
  assumes "pipe_inv p" "length (pipe_q p) < PIPESIZE"
  shows "pipe_q (pipe_put c p) = pipe_q p @ [c]" "pipe_inv (pipe_put c p)"
proof -
  show "pipe_q (pipe_put c p) = pipe_q p @ [c]"
    using assms pring.put [of "pi_data p" "nwrite p" "nread p" c] by (simp add: pipe_q_def pipe_put_def pipe_inv_def)
  then show "pipe_inv (pipe_put c p)" using assms by (simp add: pipe_inv_def) (simp add: pipe_put_def)
qed

lemma pipe_get_q:
  assumes "pipe_inv p" "nread p \<noteq> nwrite p"
  shows "pipe_q p = pi_data p ! (unat (nread p) mod PIPESIZE) # pipe_q (p\<lparr>nread := nread p + 1\<rparr>)"
    "pipe_inv (p\<lparr>nread := nread p + 1\<rparr>)"
proof -
  show e: "pipe_q p = pi_data p ! (unat (nread p) mod PIPESIZE) # pipe_q (p\<lparr>nread := nread p + 1\<rparr>)"
    using pring.get [OF assms(2), of "pi_data p"] by (simp add: pipe_q_def)
  then have "Suc (length (pipe_q (p\<lparr>nread := nread p + 1\<rparr>))) = length (pipe_q p)" by simp
  then show "pipe_inv (p\<lparr>nread := nread p + 1\<rparr>)" using assms(1) by (simp add: pipe_inv_def)
qed

subsection \<open>The environment of a pipe operation\<close>

text \<open>
  A process runs with page table \<open>root\<close> and is not killed, and the CPU holds no locks but those
  of \<open>hs\<close>; the pipe is in order and the user memory well formed.
\<close>

definition pipe_env :: "uint64 list \<Rightarrow> uint64 \<Rightarrow> uint64 \<Rightarrow> lockid list \<Rightarrow> 'a kpipe_scheme \<Rightarrow> bool" where
  "pipe_env xs root pi hs s \<longleftrightarrow> user_inv xs root s \<and> held s = hs \<and> length (procs s) = NPROC \<and>
     (\<exists>i<NPROC. cur s = Some i \<and> p_state (procs s ! i) = RUNNING \<and> p_pagetable (procs s ! i) = root \<and> \<not> p_killed (procs s ! i)) \<and>
     pipe_inv (pipes s pi)"

lemma user_inv_cong:
  fixes s :: "'a kmem_scheme" and t :: "'b kmem_scheme"
  assumes "mem t = mem s" "freelist t = freelist s" "kend t = kend s" "kmem_lock \<in> set (held t) \<longleftrightarrow> kmem_lock \<in> set (held s)"
  shows "user_inv xs root t = user_inv xs root s"
  using assms by (simp add: user_inv_def vm_inv_def kalloc_ready_def kmem_inv_def)

lemma copyin_byte:
  assumes "user_inv xs root s" "umem (mem s) root va = Some b"
  shows "copyin root va 1 s = Ok (0, [b])"
proof -
  obtain r bs where c: "copyin root va 1 s = Ok (r, bs)" "r = 0 \<longleftrightarrow> None \<notin> set (umem_get (mem s) root va 1)"
    "r = 0 \<longrightarrow> map Some bs = umem_get (mem s) root va 1"
    using copyin_spec [OF assms(1), of va 1] by blast
  have "umem_get (mem s) root va 1 = [Some b]" using assms(2) by (simp add: umem_get_def)
  then show ?thesis using c by auto
qed

lemma copyout_byte:
  assumes "user_inv xs root s" "umem (mem s) root va \<noteq> None"
  shows "\<exists>t. copyout root va [b] s = Ok (0, t) \<and> user_inv xs root t \<and> kmem_same s t \<and>
    umem (mem t) root = umem_put (umem (mem s) root) va [b]"
proof -
  obtain r t k where c: "copyout root va [b] s = Ok (r, t)" "copied xs root va [b] s r t k"
    using copyout_spec [OF assms(1), of "[b]" va] by auto
  have "umem_get (mem s) root va (length [b]) = [umem (mem s) root va]" by (simp add: umem_get_def)
  then have "None \<notin> set (umem_get (mem s) root va (length [b]))" using assms(2) by auto
  then have "r = 0" "k = length [b]" using c(2) unfolding copied_def by blast+
  then show ?thesis using c by (simp add: copied_def)
qed

lemma umem_get_Suc: "umem_get m root va (Suc n) = umem m root va # umem_get m root (va + 1) n"
  using umem_get_split [of 1 "Suc n" m root va] by (simp add: umem_get_def)

subsection \<open>Writing\<close>

lemma fold_put_q:
  "pipe_inv p \<Longrightarrow> length (pipe_q p) + length bs \<le> PIPESIZE \<Longrightarrow>
   pipe_q (fold pipe_put bs p) = pipe_q p @ bs \<and> pipe_inv (fold pipe_put bs p)"
  by (induction bs arbitrary: p) (auto simp: pipe_put_q)

lemma upd_pipe_simps [simp]:
  "pipes (upd_pipe pi f s) = (pipes s)(pi := f (pipes s pi))" "held (upd_pipe pi f s) = held s" "procs (upd_pipe pi f s) = procs s"
  "cur (upd_pipe pi f s) = cur s" "mem (upd_pipe pi f s) = mem s" "freelist (upd_pipe pi f s) = freelist s" "kend (upd_pipe pi f s) = kend s"
  by (simp_all add: upd_pipe_def)

lemma upd_pipe_held: "upd_pipe pi f (s\<lparr>held := h\<rparr>) = (upd_pipe pi f s)\<lparr>held := h\<rparr>"
  by (cases s) (simp add: upd_pipe_def)

lemma held_self: "held s = h \<Longrightarrow> s\<lparr>held := h\<rparr> = s"
  by (cases s) simp

lemma upd_pipe_twice: "upd_pipe pi g (upd_pipe pi f s) = upd_pipe pi (\<lambda>p. g (f p)) s"
  by (simp add: upd_pipe_def)

lemma upd_pipe_id: "upd_pipe pi (\<lambda>p. p) s = s"
  by (simp add: upd_pipe_def)

lemma fold_put_open [simp]: "readopen (fold pipe_put bs p) = readopen p" "writeopen (fold pipe_put bs p) = writeopen p" "nread (fold pipe_put bs p) = nread p"
  by (induction bs arbitrary: p) (simp_all add: pipe_put_def)

text \<open>The loop stores as many bytes as fit, then ends or goes to sleep.\<close>

lemma pipewrite_loop_eq:
  assumes "pipe_env xs root pi hs s" "readopen (pipes s pi)" "umem_get (mem s) root (addr + of_nat i) n = map Some bs"
    "k = min n (PIPESIZE - length (pipe_q (pipes s pi)))" "t = upd_pipe pi (fold pipe_put (take k bs)) s"
  shows "pipewrite_loop pi addr n i s =
    (if k = n then pipewrite_end pi (i + n) t
     else bindR (wakeup (Some (nread_chan pi)) t) (\<lambda>s. bindR (sleep_out (nwrite_chan pi) (pipe_lock pi) s) (\<lambda>s. Ok (Sleep (i + k), s))))"
  using assms
proof (induction n arbitrary: i s bs k t)
  case 0
  then show ?case by (simp add: upd_pipe_id)
next
  case (Suc n)
  obtain pr where pr: "cur s = Some pr" "p_pagetable (procs s ! pr) = root" "\<not> p_killed (procs s ! pr)"
    and inv: "pipe_inv (pipes s pi)" "user_inv xs root s" using Suc.prems(1) by (auto simp: pipe_env_def)
  obtain b bs' where bs: "bs = b # bs'" "umem (mem s) root (addr + of_nat i) = Some b"
    "umem_get (mem s) root (addr + of_nat i + 1) n = map Some bs'"
    using Suc.prems(3) by (cases bs) (auto simp: umem_get_Suc)
  show ?case
  proof (cases "length (pipe_q (pipes s pi)) = PIPESIZE")
    case True
    then have "k = 0" "nwrite (pipes s pi) = nread (pipes s pi) + of_nat PIPESIZE"
      using Suc.prems(4) pipe_full [OF inv(1)] by simp_all
    then show ?thesis using pr Suc.prems(2,5) by (simp add: myproc_def upd_pipe_id)
  next
    case False
    then have nf: "nwrite (pipes s pi) \<noteq> nread (pipes s pi) + of_nat PIPESIZE" "length (pipe_q (pipes s pi)) < PIPESIZE"
      using pipe_full [OF inv(1)] inv(1) by (auto simp: pipe_inv_def)
    let ?s = "upd_pipe pi (pipe_put b) s"
    have q: "pipe_q (pipes ?s pi) = pipe_q (pipes s pi) @ [b]" "pipe_inv (pipes ?s pi)" using pipe_put_q [OF inv(1) nf(2)] by simp_all
    have env: "pipe_env xs root pi hs ?s"
      using Suc.prems(1) q(2) user_inv_cong [of ?s s] by (simp add: pipe_env_def)
    have k: "k = Suc (min n (PIPESIZE - length (pipe_q (pipes ?s pi))))" using Suc.prems(4) q nf(2) by simp
    have "pipewrite_loop pi addr (Suc n) i s = pipewrite_loop pi addr n (Suc i) ?s"
      using pr nf(1) Suc.prems(2) copyin_byte [OF inv(2) bs(2)] by (simp add: myproc_def)
    also have "\<dots> = (if min n (PIPESIZE - length (pipe_q (pipes ?s pi))) = n then pipewrite_end pi (Suc i + n) t
     else bindR (wakeup (Some (nread_chan pi)) t) (\<lambda>s. bindR (sleep_out (nwrite_chan pi) (pipe_lock pi) s)
       (\<lambda>s. Ok (Sleep (Suc i + min n (PIPESIZE - length (pipe_q (pipes ?s pi)))), s))))"
    proof (rule Suc.IH [OF env _ _ refl])
      show "readopen (pipes ?s pi)" using Suc.prems(2) by (simp add: pipe_put_def)
      show "umem_get (mem ?s) root (addr + of_nat (Suc i)) n = map Some bs'" using bs(3) by (simp add: add.assoc add.commute [of 1])
      show "t = upd_pipe pi (fold pipe_put (take (min n (PIPESIZE - length (pipe_q (pipes ?s pi)))) bs')) ?s"
        unfolding upd_pipe_twice using Suc.prems(5) bs(1) k by simp
    qed
    finally show ?thesis using k by simp
  qed
qed

text \<open>The process sleeps at most on a channel, never with the lock.\<close>

lemma pipewrite_eq:
  assumes "pipe_env xs root pi [] s" "readopen (pipes s pi)" "umem_get (mem s) root addr n = map Some bs"
    "k = min n (PIPESIZE - length (pipe_q (pipes s pi)))" "cur s = Some pr"
    "t = upd_pipe pi (fold pipe_put (take k bs)) s" "ps = wake_from (Some (nread_chan pi)) (cur s) NPROC (procs s)"
  shows "pipewrite pi addr (int n) s =
    (if k = n then Ok (Ret (int n), t\<lparr>procs := ps\<rparr>)
     else Ok (Sleep k, t\<lparr>procs := ps[pr := (ps ! pr)\<lparr>p_chan := Some (nwrite_chan pi), p_state := SLEEPING\<rparr>], held := [plock pr]\<rparr>))"
proof -
  let ?s = "s\<lparr>held := [pipe_lock pi]\<rparr>" and ?t = "t\<lparr>held := [pipe_lock pi]\<rparr>"
  have env: "pipe_env xs root pi [pipe_lock pi] ?s"
    using assms(1) user_inv_cong [of ?s s] by (simp add: pipe_env_def)
  have h: "held s = []" "length (procs s) = NPROC" "pr < NPROC" using assms(1,5) by (auto simp: pipe_env_def)
  have "pipewrite pi addr (int n) s = pipewrite_loop pi addr n 0 ?s"
    using h(1) by (simp add: pipewrite_def lock_simps)
  also have "\<dots> = (if k = n then pipewrite_end pi (0 + n) ?t
     else bindR (wakeup (Some (nread_chan pi)) ?t) (\<lambda>s. bindR (sleep_out (nwrite_chan pi) (pipe_lock pi) s) (\<lambda>s. Ok (Sleep (0 + k), s))))"
    by (rule pipewrite_loop_eq [OF env]) (use assms(2-4,6) in \<open>simp_all add: upd_pipe_held\<close>)
  also have "wakeup (Some (nread_chan pi)) ?t = Ok (?t\<lparr>procs := ps\<rparr>)"
    using wakeup_eq [of ?t] h(2) assms(6,7) by (simp add: plocks_free_def)
  finally have e: "pipewrite pi addr (int n) s = (if k = n then pipewrite_end pi n ?t
     else bindR (sleep_out (nwrite_chan pi) (pipe_lock pi) (?t\<lparr>procs := ps\<rparr>)) (\<lambda>s. Ok (Sleep k, s)))" by simp
  have "sleep_out (nwrite_chan pi) (pipe_lock pi) (?t\<lparr>procs := ps\<rparr>) =
      Ok ((upd_proc pr (\<lambda>p. p\<lparr>p_chan := Some (nwrite_chan pi), p_state := SLEEPING\<rparr>) (?t\<lparr>procs := ps\<rparr>))\<lparr>held := [plock pr]\<rparr>)"
    by (rule sleep_out_eq) (use assms(5-7) h in simp_all)
  moreover have "t\<lparr>procs := ps, held := []\<rparr> = t\<lparr>procs := ps\<rparr>" by (rule held_self) (simp add: h(1) assms(6))
  moreover have "wakeup (Some (nread_chan pi)) ?t = Ok (?t\<lparr>procs := ps\<rparr>)"
    using wakeup_eq [of ?t] h(2) assms(6,7) by (simp add: plocks_free_def)
  ultimately show ?thesis unfolding e by (simp add: pipewrite_end_def lock_simps upd_proc_def)
qed

subsection \<open>Reading\<close>

text \<open>Updates of memory and of the pipe, and nothing else.\<close>

definition pipe_moved :: "uint64 \<Rightarrow> nat \<Rightarrow> 'a kpipe_scheme \<Rightarrow> 'a kpipe_scheme \<Rightarrow> bool" where
  "pipe_moved pi k s t \<longleftrightarrow> (\<exists>m f. t = (upd_pipe pi (\<lambda>p. p\<lparr>nread := nread p + of_nat k\<rparr>) s)\<lparr>mem := m, freelist := f\<rparr>)"

lemma pipe_moved_0: "pipe_moved pi 0 s s"
  unfolding pipe_moved_def by (rule exI [of _ "mem s"], rule exI [of _ "freelist s"]) (cases s, simp add: upd_pipe_def)

lemma pipe_moved_sel:
  assumes "pipe_moved pi k s t"
  shows "held t = held s" "procs t = procs s" "cur t = cur s" "kend t = kend s"
    "pipes t = (pipes s)(pi := (pipes s pi)\<lparr>nread := nread (pipes s pi) + of_nat k\<rparr>)"
  using assms by (auto simp: pipe_moved_def)

lemma upd_pipe_mem: "upd_pipe pi g (s\<lparr>mem := m, freelist := f\<rparr>) = (upd_pipe pi g s)\<lparr>mem := m, freelist := f\<rparr>"
  by (cases s) (simp add: upd_pipe_def)

lemma pipe_moved_step:
  assumes "kmem_same (upd_pipe pi (\<lambda>p. p\<lparr>nread := nread p + 1\<rparr>) s) t" "pipe_moved pi k t u"
  shows "pipe_moved pi (Suc k) s u"
proof -
  obtain m f where t: "t = (upd_pipe pi (\<lambda>p. p\<lparr>nread := nread p + 1\<rparr>) s)\<lparr>mem := m, freelist := f\<rparr>"
    using assms(1) unfolding kmem_same_def by blast
  obtain m' f' where u: "u = (upd_pipe pi (\<lambda>p. p\<lparr>nread := nread p + of_nat k\<rparr>) t)\<lparr>mem := m', freelist := f'\<rparr>"
    using assms(2) unfolding pipe_moved_def by blast
  show ?thesis unfolding pipe_moved_def
    by (rule exI [of _ m'], rule exI [of _ f']) (simp add: u t upd_pipe_mem upd_pipe_twice ac_simps)
qed

lemma piperead_copy_ok:
  assumes "pipe_env xs root pi hs s" "\<forall>j<n. umem (mem s) root (addr + of_nat i + of_nat j) \<noteq> None" "n < 2 ^ 32"
    "q = pipe_q (pipes s pi)" "k = min n (length q)"
  shows "\<exists>t. piperead_copy pi addr n i s = Ok (i + k, t) \<and> pipe_moved pi k s t \<and> user_inv xs root t \<and>
    umem (mem t) root = umem_put (umem (mem s) root) (addr + of_nat i) (take k q) \<and>
    pipe_q (pipes t pi) = drop k q \<and> pipe_inv (pipes t pi)"
  using assms
proof (induction n arbitrary: i s q k)
  case 0
  then show ?case using pipe_moved_0 by (intro exI [of _ s]) (simp add: pipe_env_def)
next
  case (Suc n)
  obtain pr where pr: "cur s = Some pr" "p_pagetable (procs s ! pr) = root"
    and inv: "pipe_inv (pipes s pi)" "user_inv xs root s" using Suc.prems(1) by (auto simp: pipe_env_def)
  show ?case
  proof (cases "nread (pipes s pi) = nwrite (pipes s pi)")
    case True
    then have "q = []" using Suc.prems(4) pipe_empty by simp
    then show ?thesis using True Suc.prems(5) inv pipe_moved_0 Suc.prems(4) by (intro exI [of _ s]) simp
  next
    case False
    let ?u = "upd_pipe pi (\<lambda>p. p\<lparr>nread := nread p + 1\<rparr>) s" and ?a = "addr + of_nat i"
    let ?c = "pi_data (pipes s pi) ! (unat (nread (pipes s pi)) mod PIPESIZE)"
    have q: "q = ?c # pipe_q (pipes ?u pi)" "pipe_inv (pipes ?u pi)"
      using pipe_get_q [OF inv(1) False] Suc.prems(4) by simp_all
    have ui: "user_inv xs root ?u" using user_inv_cong [of ?u s] inv(2) by simp
    have m0: "umem (mem ?u) root ?a \<noteq> None" using spec [OF Suc.prems(2), of 0] by simp
    obtain t where t: "copyout root ?a [?c] ?u = Ok (0, t)" "user_inv xs root t" "kmem_same ?u t"
      "umem (mem t) root = umem_put (umem (mem s) root) ?a [?c]"
      using copyout_byte [OF ui m0] by auto
    obtain m f where te: "t = ?u\<lparr>mem := m, freelist := f\<rparr>" using t(3) unfolding kmem_same_def by blast
    have env: "pipe_env xs root pi hs t" using Suc.prems(1) t(2) q(2) by (simp add: pipe_env_def te)
    have mapped: "umem (mem t) root (addr + of_nat (Suc i) + of_nat j) \<noteq> None" if "j < n" for j
      using spec [OF Suc.prems(2), of "Suc j"] that by (simp add: t(4) umem_put_def ac_simps)
    obtain u where u: "piperead_copy pi addr n (Suc i) t = Ok (Suc i + min n (length (pipe_q (pipes t pi))), u)"
      "pipe_moved pi (min n (length (pipe_q (pipes t pi)))) t u" "user_inv xs root u"
      "umem (mem u) root = umem_put (umem (mem t) root) (addr + of_nat (Suc i)) (take (min n (length (pipe_q (pipes t pi)))) (pipe_q (pipes t pi)))"
      "pipe_q (pipes u pi) = drop (min n (length (pipe_q (pipes t pi)))) (pipe_q (pipes t pi))" "pipe_inv (pipes u pi)"
      using Suc.IH [OF env _ _ refl refl, of "Suc i"] mapped Suc.prems(3) by auto
    have pt: "pipe_q (pipes t pi) = pipe_q (pipes ?u pi)" by (simp add: te)
    have k: "k = Suc (min n (length (pipe_q (pipes t pi))))" using Suc.prems(5) q(1) pt by simp
    have "umem (mem u) root = umem_put (umem (mem s) root) ?a (take k q)"
      using umem_put_append [of "[?c]" "take (min n (length (pipe_q (pipes t pi)))) (pipe_q (pipes t pi))" "umem (mem s) root" ?a]
        u(4) t(4) q(1) pt k Suc.prems(3) by (simp add: ac_simps)
    moreover have "piperead_copy pi addr (Suc n) i s = Ok (i + k, u)"
      using False pr t(1) u(1) k by (simp add: Let_def myproc_def)
    ultimately show ?thesis using u(3,5,6) q(1) pt k pipe_moved_step [OF t(3) u(2)] by (intro exI [of _ u]) simp
  qed
qed

subsection \<open>A sample machine\<close>

text \<open>Some kernel state over a given memory, with one running process.\<close>

definition with_pipe :: "kmem \<Rightarrow> uint64 \<Rightarrow> pipe \<Rightarrow> kpipe" where
  "with_pipe s root p = kcons.extend (kfs.extend (klog.extend (kbio.extend (kmem.extend
     (s\<lparr>held := [], procs := (replicate NPROC bss_proc)[0 := bss_proc\<lparr>p_state := RUNNING, p_pagetable := root\<rparr>], cur := Some 0\<rparr>)
     \<lparr>bufs = [], disk = (\<lambda>_. []), dwrites = []\<rparr>)
     \<lparr>log_start = 0, log_size = 0, outstanding = 0, committing = False, log_dev = 0, lh = \<lparr>lh_n = 0, lh_block = []\<rparr>\<rparr>)
     \<lparr>sb = \<lparr>sb_magic = 0, sb_size = 0, sb_nblocks = 0, sb_ninodes = 0, sb_nlog = 0, sb_logstart = 0, sb_inodestart = 0, sb_bmapstart = 0\<rparr>,
      inodes = []\<rparr>)
     \<lparr>cons_buf = [], cons_r = 0, cons_w = 0, cons_e = 0, uart_tx_buf = [], uart_tx_w = 0, uart_tx_r = 0, panicked = False, pr_locking = True,
      u_in = [], u_idle = 0, u_out = [], u_regs = []\<rparr>)
     \<lparr>pipes = (\<lambda>_. p)\<rparr>"

lemma with_pipe_simps [simp]:
  "mem (with_pipe s root p) = mem s" "freelist (with_pipe s root p) = freelist s" "kend (with_pipe s root p) = kend s"
  "held (with_pipe s root p) = []" "procs (with_pipe s root p) = (replicate NPROC bss_proc)[0 := bss_proc\<lparr>p_state := RUNNING, p_pagetable := root\<rparr>]"
  "cur (with_pipe s root p) = Some 0" "pipes (with_pipe s root p) = (\<lambda>_. p)"
  by (simp_all add: with_pipe_def kcons.extend_def kfs.extend_def klog.extend_def kbio.extend_def kmem.extend_def)

lemma with_pipe_env:
  assumes "user_inv xs root s" "pipe_inv p"
  shows "pipe_env xs root pi [] (with_pipe s root p)"
proof -
  have "kmem_lock \<notin> set (held s)" using assms(1) by (simp add: user_inv_def vm_inv_def kalloc_ready_def)
  have "user_inv xs root (with_pipe s root p)"
    using user_inv_cong [of "with_pipe s root p" s] assms(1) \<open>kmem_lock \<notin> set (held s)\<close> by simp
  then show ?thesis using assms(2) by (simp add: pipe_env_def bss_proc_def)
qed

subsection \<open>Properties\<close>

text \<open>
  C16: Writing to a pipe appends to its queue.  For a process that is not killed and a pipe with
  an open read end, \<^verbatim>\<open>pipewrite\<close> of \<open>n\<close> mapped bytes appends as many of them as fit; it
  returns \<open>n\<close> if all did, and otherwise goes to sleep on the pipe with the lock released, having
  written the ones that fit.  Either way no other process is left asleep waiting for data, and
  user memory and the other pipes are untouched.
\<close>

theorem pipewrite_appends:
  assumes "pipe_env xs root pi [] s" "readopen (pipes s pi)" "umem_get (mem s) root addr n = map Some bs" "cur s = Some pr"
    "q = pipe_q (pipes s pi)" "k = min n (PIPESIZE - length q)"
  shows "\<exists>t. pipewrite pi addr (int n) s = Ok (if k = n then Ret (int n) else Sleep k, t) \<and>
    pipe_q (pipes t pi) = q @ take k bs \<and> pipe_inv (pipes t pi) \<and> (\<forall>pj. pj \<noteq> pi \<longrightarrow> pipes t pj = pipes s pj) \<and> mem t = mem s \<and>
    held t = (if k = n then [] else [plock pr]) \<and>
    (k < n \<longrightarrow> p_state (procs t ! pr) = SLEEPING \<and> p_chan (procs t ! pr) = Some (nwrite_chan pi)) \<and>
    (\<forall>j<NPROC. j \<noteq> pr \<longrightarrow> \<not> (p_state (procs t ! j) = SLEEPING \<and> p_chan (procs t ! j) = Some (nread_chan pi)))"
proof -
  let ?t = "upd_pipe pi (fold pipe_put (take k bs)) s" and ?ps = "wake_from (Some (nread_chan pi)) (cur s) NPROC (procs s)"
  have env: "pipe_inv (pipes s pi)" "held s = []" "length (procs s) = NPROC" "pr < NPROC" using assms(1,4) by (auto simp: pipe_env_def)
  have q: "pipe_q (pipes ?t pi) = q @ take k bs" "pipe_inv (pipes ?t pi)"
    using fold_put_q [OF env(1), of "take k bs"] env(1) assms(5,6) by (auto simp: pipe_inv_def)
  have w: "\<not> (p_state (?ps ! j) = SLEEPING \<and> p_chan (?ps ! j) = Some (nread_chan pi))" if "j < NPROC" "j \<noteq> pr" for j
    using that env(3) assms(4) by (auto simp: nth_wake_from wake_def)
  show ?thesis
  proof (cases "k = n")
    case True
    then have "pipewrite pi addr (int n) s = Ok (Ret (int n), ?t\<lparr>procs := ?ps\<rparr>)"
      using pipewrite_eq [OF assms(1-3) _ assms(4) refl refl] assms(5,6) by simp
    then show ?thesis using True q w env(2) by (intro exI [of _ "?t\<lparr>procs := ?ps\<rparr>"]) simp
  next
    case False
    define u where "u = ?t\<lparr>procs := ?ps[pr := (?ps ! pr)\<lparr>p_chan := Some (nwrite_chan pi), p_state := SLEEPING\<rparr>], held := [plock pr]\<rparr>"
    have "pipewrite pi addr (int n) s = Ok (Sleep k, u)"
      using pipewrite_eq [OF assms(1-3) _ assms(4) refl refl] assms(5,6) False by (simp add: u_def)
    moreover have "p_state (procs u ! pr) = SLEEPING" "p_chan (procs u ! pr) = Some (nwrite_chan pi)" using env(3,4) by (simp_all add: u_def)
    moreover have "\<not> (p_state (procs u ! j) = SLEEPING \<and> p_chan (procs u ! j) = Some (nread_chan pi))" if "j < NPROC" "j \<noteq> pr" for j
      using w [OF that] that by (simp add: u_def)
    ultimately show ?thesis using False q by (intro exI [of _ u]) (simp add: u_def)
  qed
qed

theorem pipewrite_appends_witness:
  "\<exists>(s :: kpipe) t. pipe_q (pipes s 7) = [] \<and> pipewrite 7 0x1000 1 s = Ok (Ret 1, t) \<and> pipe_q (pipes t 7) = [0]"
proof -
  obtain s :: kmem and root xs where s: "user_inv xs root s" "upage (mem s) root 0x1000" "mem s (upa (mem s) root 0x1000) = 0"
    using one_user_page by blast
  let ?p = "\<lparr>pi_data = replicate PIPESIZE 0, nread = 0, nwrite = 0, readopen = True, writeopen = True\<rparr>"
  have q: "pipe_q ?p = []" "pipe_inv ?p" by (simp_all add: pipe_inv_def pipe_q_def ring_q_def)
  have m: "umem_get (mem s) root 0x1000 1 = map Some [0]" using s(2,3) by (simp add: umem_get_def umem_def PGROUNDDOWN_def)
  show ?thesis
    using pipewrite_appends [OF with_pipe_env [OF s(1) q(2), of 7], of "0x1000" 1 "[0]" 0 "[]" 1] q m
    by - (rule exI [of _ "with_pipe s root ?p"], auto)
qed

text \<open>
  C17: Reading from a pipe takes from the front of its queue.  When the queue is not empty or the
  write end is closed, \<^verbatim>\<open>piperead\<close> of \<open>n\<close> bytes to mapped user memory returns the number
  \<open>k\<close> of bytes it moved, the smaller of \<open>n\<close> and the length of the queue (0 at the end of the
  data); the first \<open>k\<close> bytes are in user memory, nothing else there has changed, the queue has
  lost them, and no other process is left asleep waiting for room.
\<close>

theorem piperead_takes:
  assumes "pipe_env xs root pi [] s" "cur s = Some pr" "q = pipe_q (pipes s pi)" "q \<noteq> [] \<or> \<not> writeopen (pipes s pi)" "n < 2 ^ 31"
    "\<forall>j<n. umem (mem s) root (addr + of_nat j) \<noteq> None" "k = min n (length q)"
  shows "\<exists>t. piperead pi addr (int n) s = Ok (Ret (int k), t) \<and> held t = [] \<and>
    pipe_q (pipes t pi) = drop k q \<and> pipe_inv (pipes t pi) \<and> (\<forall>pj. pj \<noteq> pi \<longrightarrow> pipes t pj = pipes s pj) \<and>
    umem (mem t) root = umem_put (umem (mem s) root) addr (take k q) \<and>
    (\<forall>j<NPROC. j \<noteq> pr \<longrightarrow> \<not> (p_state (procs t ! j) = SLEEPING \<and> p_chan (procs t ! j) = Some (nwrite_chan pi)))"
proof -
  let ?s = "s\<lparr>held := [pipe_lock pi]\<rparr>"
  have env: "pipe_env xs root pi [pipe_lock pi] ?s" using assms(1) user_inv_cong [of ?s s] by (simp add: pipe_env_def)
  have h: "held s = []" "length (procs s) = NPROC" using assms(1) by (auto simp: pipe_env_def)
  obtain t where t: "piperead_copy pi addr n 0 ?s = Ok (k, t)" "pipe_moved pi k ?s t"
    "umem (mem t) root = umem_put (umem (mem s) root) addr (take k q)" "pipe_q (pipes t pi) = drop k q" "pipe_inv (pipes t pi)"
    using piperead_copy_ok [OF env, of n addr 0 q k] assms(3,5-7) by auto
  note m = pipe_moved_sel [OF t(2)]
  let ?ps = "wake_from (Some (nwrite_chan pi)) (Some pr) NPROC (procs s)"
  define u where "u = t\<lparr>procs := ?ps, held := []\<rparr>"
  have w: "wakeup (Some (nwrite_chan pi)) t = Ok (t\<lparr>procs := ?ps\<rparr>)"
    using wakeup_eq [of t] m(1-3) h(2) assms(2) by (simp add: plocks_free_def)
  have "\<not> (nread (pipes s pi) = nwrite (pipes s pi) \<and> writeopen (pipes s pi))" using assms(3,4) pipe_empty by auto
  then have "piperead pi addr (int n) s = Ok (Ret (int k), u)"
    using h(1) t(1) w m(1) assms(2) by (simp add: piperead_def piperead_loop_def lock_simps myproc_def u_def)
  moreover have "\<not> (p_state (?ps ! j) = SLEEPING \<and> p_chan (?ps ! j) = Some (nwrite_chan pi))" if "j < NPROC" "j \<noteq> pr" for j
    using that h(2) by (auto simp: nth_wake_from wake_def)
  ultimately show ?thesis using t(3-5) m(5) by (intro exI [of _ u]) (simp add: u_def)
qed

theorem piperead_takes_witness:
  "\<exists>(s :: kpipe) t. pipe_q (pipes s 7) = [5, 6] \<and> piperead 7 0x1000 1 s = Ok (Ret 1, t) \<and> pipe_q (pipes t 7) = [6]"
proof -
  obtain s :: kmem and root xs where s: "user_inv xs root s" "upage (mem s) root 0x1000" using one_user_page by blast
  let ?p = "\<lparr>pi_data = (replicate PIPESIZE 0)[0 := 6, 511 := 5], nread = 0xffffffff, nwrite = 1, readopen = True, writeopen = True\<rparr>"
  have "[0..<2] = [0, 1 :: nat]" by (simp add: numeral_2_eq_2)
  then have q: "pipe_q ?p = [5, 6]" by (simp add: pipe_q_def ring_q_def nth_list_update)
  then have i: "pipe_inv ?p" by (simp add: pipe_inv_def)
  have m: "\<forall>j<1. umem (mem s) root (0x1000 + of_nat j) \<noteq> None" using s(2) by (simp add: umem_def)
  show ?thesis
    using piperead_takes [OF with_pipe_env [OF s(1) i, of 7], of 0 "[5, 6]" 1 "0x1000" 1] q m
    by - (rule exI [of _ "with_pipe s root ?p"], auto)
qed

end
