(* ===== verification/Lineedit.thy ===== *)
theory Lineedit
  imports Console Ring
begin

section \<open>Console input as line editing\<close>

text \<open>
  The ring of the console holds the lines a reader may take, from \<^verbatim>\<open>cons.r\<close> to \<^verbatim>\<open>cons.w\<close>, and
  the line being edited, from \<^verbatim>\<open>cons.w\<close> to \<^verbatim>\<open>cons.e\<close>.  The interrupt handler implements a
  line editor on these two sequences and never loses or overwrites input.
\<close>

interpretation cring: ring INPUT_BUF "TYPE(32)"
  by unfold_locales simp_all

definition cons_lines :: "'a kcons_scheme \<Rightarrow> uint8 list" where
  "cons_lines s = ring_q INPUT_BUF (cons_buf s) (cons_r s) (cons_w s)"

definition cons_edit :: "'a kcons_scheme \<Rightarrow> uint8 list" where
  "cons_edit s = ring_q INPUT_BUF (cons_buf s) (cons_w s) (cons_e s)"

definition cons_inv :: "'a kcons_scheme \<Rightarrow> bool" where
  "cons_inv s \<longleftrightarrow> length (cons_buf s) = INPUT_BUF \<and> unat (cons_w s - cons_r s) \<le> unat (cons_e s - cons_r s) \<and>
     unat (cons_e s - cons_r s) \<le> INPUT_BUF \<and> 10 \<notin> set (cons_edit s)"

text \<open>The editor: control-P prints the processes, control-U kills the line, backspace and delete
  erase a character, return, control-D and a full buffer end the line.\<close>

definition line_edit :: "uint8 \<Rightarrow> uint8 list \<times> uint8 list \<Rightarrow> uint8 list \<times> uint8 list" where
  "line_edit c = (\<lambda>(q, l).
     if c = 16 then (q, l)
     else if c = 21 then (q, [])
     else if c = 8 \<or> c = 127 then (q, butlast l)
     else if c = 0 \<or> INPUT_BUF \<le> length q + length l then (q, l)
     else let c = (if c = 13 then 10 else c); l = l @ [c] in
          if c = 10 \<or> c = 4 \<or> length q + length l = INPUT_BUF then (q @ l, []) else (q, l))"

subsection \<open>Echo\<close>

text \<open>Output to the UART changes the device only.\<close>

definition echoed :: "'a kcons_scheme \<Rightarrow> 'a kcons_scheme \<Rightarrow> bool" where
  "echoed s t \<longleftrightarrow> (\<exists>out idle. t = s\<lparr>u_out := out, u_idle := idle\<rparr>)"

lemma echoed_refl [simp]: "echoed s s"
  unfolding echoed_def by (rule exI [of _ "u_out s"], rule exI [of _ "u_idle s"]) simp

lemma echoed_trans: "echoed s t \<Longrightarrow> echoed t u \<Longrightarrow> echoed s u"
  unfolding echoed_def by (elim exE) (rule exI, rule exI, simp)

lemma echoed_sel:
  assumes "echoed s t"
  shows "panicked t = panicked s" "held t = held s" "procs t = procs s" "cur t = cur s" "cons_buf t = cons_buf s" "cons_r t = cons_r s"
    "cons_w t = cons_w s" "cons_e t = cons_e s" "pr_locking t = pr_locking s"
  using assms by (auto simp: echoed_def)

lemma uartputc_sync_ok:
  assumes "\<not> panicked s"
  shows "okR (uartputc_sync c s) (echoed s)"
proof -
  have "echoed s (putTHR c s)" unfolding echoed_def putTHR_def by (rule exI, rule exI) (rule refl)
  then show ?thesis using assms by (simp add: uartputc_sync_def)
qed

lemma okR_echo: "okR m (echoed s) \<Longrightarrow> (\<And>t. echoed s t \<Longrightarrow> okR (f t) (echoed t)) \<Longrightarrow> okR (bindR m f) (echoed s)"
proof -
  assume "okR m (echoed s)" and f: "\<And>t. echoed s t \<Longrightarrow> okR (f t) (echoed t)"
  then obtain x where x: "m = Ok x" "echoed s x" by (auto simp: okR_def)
  obtain y where "f x = Ok y" "echoed x y" using f [OF x(2)] by (auto simp: okR_def)
  then show ?thesis using x echoed_trans by auto
qed

lemma consputc_ok: "\<not> panicked s \<Longrightarrow> okR (consputc c s) (echoed s)"
  unfolding consputc_def
  by (auto simp del: okR_bind intro!: okR_echo uartputc_sync_ok simp: echoed_sel)

lemma consputs_ok: "\<not> panicked s \<Longrightarrow> okR (consputs cs s) (echoed s)"
proof (induction cs arbitrary: s)
  case (Cons c cs)
  show ?case unfolding consputs.simps
    by (rule okR_echo [OF consputc_ok]) (use Cons echoed_sel in auto)
qed simp

text \<open>A call of printf whose arguments fit its format.\<close>

fun fmt_ok :: "uint8 list \<Rightarrow> arg list \<Rightarrow> bool" where
  "fmt_ok [] as \<longleftrightarrow> True"
| "fmt_ok [c] as \<longleftrightarrow> c \<noteq> 37"
| "fmt_ok (c # d # fmt) as \<longleftrightarrow>
     (if c \<noteq> 37 then fmt_ok (d # fmt) as
      else case as of AInt x # as' \<Rightarrow> d = 100 \<and> fmt_ok fmt as' | AStr x # as' \<Rightarrow> d = 115 \<and> fmt_ok fmt as' | _ \<Rightarrow> False)"

lemma printf_loop_ok:
  fixes s :: "'a kcons_scheme"
  shows "fmt_ok fmt as \<Longrightarrow> \<not> panicked s \<Longrightarrow> okR (printf_loop fmt as s) (echoed s)"
proof (induction fmt as arbitrary: s rule: fmt_ok.induct)
  case (3 c d fmt as)
  show ?case
  proof (cases "c = 37")
    case False
    have "okR (bindR (consputc (unat c) s) (printf_loop (d # fmt) as)) (echoed s)"
      by (rule okR_echo [OF consputc_ok], use 3(5) in simp) (rule 3(1), use 3(4,5) False echoed_sel in auto)
    then show ?thesis using False by simp
  next
    case True
    then consider x as' where "as = AInt x # as'" "d = 100" "fmt_ok fmt as'" | x as' where "as = AStr x # as'" "d = 115" "fmt_ok fmt as'"
      using 3(4) by (auto split: list.splits arg.splits)
    then show ?thesis
    proof cases
      case (1 x as')
      have ih: "okR (printf_loop fmt as' t) (echoed t)" if "\<not> panicked t" for t :: "'a kcons_scheme"
        using 3(2) [of "AInt x" as' x t] 1 True that by simp
      have "okR (bindR (printint x 10 True s) (printf_loop fmt as')) (echoed s)"
        by (rule okR_echo) (use 3(5) ih echoed_sel in \<open>auto simp: printint_def consputs_ok\<close>)
      then show ?thesis using 1 True by simp
    next
      case (2 x as')
      have ih: "okR (printf_loop fmt as' t) (echoed t)" if "\<not> panicked t" for t :: "'a kcons_scheme"
        using 3(3) [of "AStr x" as' x t] 2 True that by simp
      have "okR (bindR (consputs (case x of None \<Rightarrow> [40, 110, 117, 108, 108, 41] | Some cs \<Rightarrow> cs) s) (printf_loop fmt as')) (echoed s)"
        by (rule okR_echo) (use 3(5) ih echoed_sel in \<open>auto simp: consputs_ok\<close>)
      then show ?thesis using 2 True by simp
    qed
  qed
qed (auto simp: consputc_ok)

lemma kprintf_ok:
  assumes "fmt_ok (bytes_of fmt) as" "\<not> panicked s" "pr_lock \<notin> set (held s)"
  shows "okR (kprintf fmt as s) (echoed s)"
proof (cases "pr_locking s")
  case True
  let ?s = "s\<lparr>held := pr_lock # held s\<rparr>"
  obtain t where t: "printf_loop (bytes_of fmt) as ?s = Ok t" "echoed ?s t"
    using printf_loop_ok [OF assms(1), of ?s] assms(2) by (auto simp: okR_def)
  obtain out idle where e: "t = ?s\<lparr>u_out := out, u_idle := idle\<rparr>" using t(2) unfolding echoed_def by blast
  have "t\<lparr>held := held s\<rparr> = s\<lparr>u_out := out, u_idle := idle\<rparr>" unfolding e by (cases s) simp
  then have "echoed s (t\<lparr>held := held s\<rparr>)" unfolding echoed_def by blast
  then show ?thesis using True t(1) e assms(3) by (simp add: kprintf_def lock_simps)
next
  case False
  then show ?thesis using printf_loop_ok [OF assms(1,2)] by (simp add: kprintf_def)
qed

lemma procdump_ok:
  assumes "\<not> panicked s" "pr_lock \<notin> set (held s)"
  shows "okR (procdump s) (echoed s)"
proof -
  have f: "fmt_ok (bytes_of ''%d %s %s'') [AInt x, AStr y, AStr z]" "fmt_ok (bytes_of [CHR 0x0A]) []" for x y z
    by (simp_all add: bytes_of_def)
  have d: "okR (procdump_at i t) (echoed t)" if "echoed s t" for i t
    unfolding procdump_at_def Let_def using assms echoed_sel [OF that]
    by (auto simp del: okR_bind intro!: okR_echo kprintf_ok f simp: echoed_sel)
  have l: "okR (foreach procdump_at i n t) (echoed t)" if "echoed s t" for i n t
    using that
  proof (induction n arbitrary: i t)
    case (Suc n)
    show ?case unfolding foreach.simps by (rule okR_echo [OF d [OF Suc.prems]]) (use Suc echoed_trans in blast)
  qed simp
  show ?thesis unfolding procdump_def
    by (rule okR_echo) (use assms in \<open>auto intro: kprintf_ok f l\<close>)
qed

subsection \<open>The editor\<close>

lemma cons_all:
  assumes "cons_inv s"
  shows "ring_q INPUT_BUF (cons_buf s) (cons_r s) (cons_e s) = cons_lines s @ cons_edit s"
    "unat (cons_e s - cons_r s) = length (cons_lines s) + length (cons_edit s)"
proof -
  show e: "ring_q INPUT_BUF (cons_buf s) (cons_r s) (cons_e s) = cons_lines s @ cons_edit s"
    using cring.split [of "cons_w s" "cons_r s" "cons_e s"] assms by (simp add: cons_inv_def cons_lines_def cons_edit_def)
  show "unat (cons_e s - cons_r s) = length (cons_lines s) + length (cons_edit s)"
    using arg_cong [OF e, of length] by simp
qed

lemma cons_edit_empty: "cons_e s = cons_w s \<longleftrightarrow> cons_edit s = []"
  using cring.empty_iff [of "cons_buf s" "cons_w s" "cons_e s"] by (auto simp: cons_edit_def)

text \<open>Only the counters and the buffer of the console matter.\<close>

lemma cons_cong:
  assumes "cons_buf t = cons_buf s" "cons_r t = cons_r s" "cons_w t = cons_w s" "cons_e t = cons_e s"
  shows "cons_lines t = cons_lines s" "cons_edit t = cons_edit s" "cons_inv t = cons_inv s"
  using assms by (simp_all add: cons_lines_def cons_edit_def cons_inv_def)

text \<open>Erasing the last character of the line.\<close>

lemma erase:
  assumes "cons_inv s" "cons_e s \<noteq> cons_w s" "t = s\<lparr>cons_e := cons_e s - 1\<rparr>"
  shows "cons_inv t" "cons_lines t = cons_lines s" "cons_edit t = butlast (cons_edit s)"
    "cons_buf s ! (unat (cons_e s - 1) mod INPUT_BUF) = last (cons_edit s)"
proof -
  show l: "cons_lines t = cons_lines s" by (simp add: cons_lines_def assms(3))
  show e: "cons_edit t = butlast (cons_edit s)"
    using cring.drop_last(2) [OF assms(2)] by (simp add: cons_edit_def assms(3))
  show "cons_buf s ! (unat (cons_e s - 1) mod INPUT_BUF) = last (cons_edit s)"
    using cring.drop_last(3) [OF assms(2), of "cons_buf s"] by (simp add: cons_edit_def)
  have ne: "cons_edit s \<noteq> []" using assms(2) cons_edit_empty by blast
  have "cons_e s \<noteq> cons_r s" using cons_all(2) [OF assms(1)] ne by auto
  then have "unat (cons_e t - cons_r s) = unat (cons_e s - cons_r s) - 1" using cring.drop_last(1) by (simp add: assms(3))
  moreover have "unat (cons_w s - cons_r s) = length (cons_lines s)" by (simp add: cons_lines_def)
  moreover have "10 \<notin> set (butlast (cons_edit s))" using assms(1) by (auto simp: cons_inv_def dest: in_set_butlastD)
  moreover obtain n where "length (cons_edit s) = Suc n" using ne by (cases "cons_edit s") auto
  ultimately show "cons_inv t"
    using assms(1) cons_all(2) [OF assms(1)] e unfolding cons_inv_def by (simp add: assms(3))
qed

lemma kill_line_ok:
  assumes "cons_inv s" "\<not> panicked s" "n = unat (cons_e s - cons_w s)"
  shows "okR (kill_line n s) (\<lambda>t. echoed (s\<lparr>cons_e := cons_w s\<rparr>) t \<and> cons_inv t \<and> cons_lines t = cons_lines s \<and> cons_edit t = [])"
  using assms
proof (induction n arbitrary: s)
  case 0
  then have e: "cons_e s = cons_w s" by (simp add: unat_eq_zero)
  then have "s\<lparr>cons_e := cons_w s\<rparr> = s" by (cases s) simp
  then have "echoed (s\<lparr>cons_e := cons_w s\<rparr>) s" by simp
  then show ?case using 0 e cons_edit_empty [of s] by simp
next
  case (Suc n)
  have ne: "cons_e s \<noteq> cons_w s" using Suc.prems(3) by (metis cancel_comm_monoid_add_class.diff_cancel nat.distinct(1) unat_0)
  let ?s = "s\<lparr>cons_e := cons_e s - 1\<rparr>"
  note e = erase [OF Suc.prems(1) ne refl]
  have "last (cons_edit s) \<in> set (cons_edit s)" using ne unfolding cons_edit_empty by (rule last_in_set)
  then have nl: "cons_buf s ! (unat (cons_e s - 1) mod INPUT_BUF) \<noteq> 10" using e(4) Suc.prems(1) by (auto simp: cons_inv_def)
  obtain t where t: "consputc BACKSPACE ?s = Ok t" "echoed ?s t"
    using consputc_ok [of ?s] Suc.prems(2) by (auto simp: okR_def)
  note ts = echoed_sel [OF t(2)]
  have c: "cons_inv t" "cons_lines t = cons_lines s" using cons_cong [of t ?s] ts e(1,2) by simp_all
  have n: "n = unat (cons_e t - cons_w t)" using Suc.prems(3) ts cring.drop_last(1) [OF ne] by simp
  have "okR (kill_line n t) (\<lambda>u. echoed (t\<lparr>cons_e := cons_w t\<rparr>) u \<and> cons_inv u \<and> cons_lines u = cons_lines t \<and> cons_edit u = [])"
    by (rule Suc.IH) (use c(1) n ts Suc.prems(2) in simp_all)
  moreover have "echoed (s\<lparr>cons_e := cons_w s\<rparr>) (t\<lparr>cons_e := cons_w t\<rparr>)"
    using t(2) unfolding echoed_def by (elim exE) (rule exI, rule exI, cases s, simp)
  ultimately show ?case using nl ne t(1) c(2) by (auto intro: okR_mono echoed_trans)
qed

text \<open>Adding a character to the line, and ending the line.\<close>

lemma add_char:
  assumes "cons_inv s" "cons_e s - cons_r s < of_nat INPUT_BUF"
    "t = s\<lparr>cons_buf := (cons_buf s)[unat (cons_e s) mod INPUT_BUF := c], cons_e := cons_e s + 1\<rparr>"
  shows "cons_lines t = cons_lines s" "cons_edit t = cons_edit s @ [c]" "unat (cons_e t - cons_r t) = Suc (length (cons_lines s) + length (cons_edit s))"
    "length (cons_buf t) = INPUT_BUF" "unat (cons_w t - cons_r t) \<le> unat (cons_e t - cons_r t)"
proof -
  have k: "unat (cons_e s - cons_r s) < INPUT_BUF" using assms(2) by (simp add: word_less_nat_alt)
  have l: "length (cons_buf s) = INPUT_BUF" "unat (cons_w s - cons_r s) \<le> unat (cons_e s - cons_r s)" using assms(1) by (simp_all add: cons_inv_def)
  have c: "unat (cons_e t - cons_r t) = Suc (unat (cons_e s - cons_r s))" using cring.count_put [OF k] by (simp add: assms(3))
  then show n: "unat (cons_e t - cons_r t) = Suc (length (cons_lines s) + length (cons_edit s))" using cons_all(2) [OF assms(1)] by simp
  show le: "unat (cons_w t - cons_r t) \<le> unat (cons_e t - cons_r t)" using c l(2) by (simp add: assms(3))
  show "length (cons_buf t) = INPUT_BUF" using l(1) by (simp add: assms(3))
  have "ring_q INPUT_BUF (cons_buf t) (cons_r t) (cons_e t) = (cons_lines s @ cons_edit s) @ [c]"
    using cring.put [OF l(1) k, of c] cons_all(1) [OF assms(1)] by (simp add: assms(3))
  moreover have "ring_q INPUT_BUF (cons_buf t) (cons_r t) (cons_e t) = cons_lines t @ cons_edit t"
    using cring.split [OF le] by (simp add: cons_lines_def cons_edit_def)
  moreover have "length (cons_lines t) = length (cons_lines s)" by (simp add: cons_lines_def assms(3))
  ultimately show "cons_lines t = cons_lines s" "cons_edit t = cons_edit s @ [c]" by (simp_all add: append_eq_append_conv)
qed

lemma end_line:
  assumes "cons_inv s \<or> length (cons_buf s) = INPUT_BUF \<and> unat (cons_w s - cons_r s) \<le> unat (cons_e s - cons_r s)"
    "unat (cons_e s - cons_r s) \<le> INPUT_BUF" "t = s\<lparr>cons_w := cons_e s\<rparr>"
  shows "cons_inv t" "cons_lines t = cons_lines s @ cons_edit s" "cons_edit t = []"
proof -
  have l: "length (cons_buf s) = INPUT_BUF" "unat (cons_w s - cons_r s) \<le> unat (cons_e s - cons_r s)"
    using assms(1) by (auto simp: cons_inv_def)
  show "cons_lines t = cons_lines s @ cons_edit s" using cring.split [OF l(2)] by (simp add: cons_lines_def cons_edit_def assms(3))
  show e: "cons_edit t = []" using cons_edit_empty [of t] by (simp add: assms(3))
  show "cons_inv t" using l assms(2) e by (simp add: cons_inv_def assms(3))
qed

text \<open>What the handler does under the lock of the console.\<close>

definition edited :: "uint8 \<Rightarrow> 'a kcons_scheme \<Rightarrow> 'a kcons_scheme \<Rightarrow> bool" where
  "edited c s t \<longleftrightarrow> cons_inv t \<and> held t = held s \<and> cur t = cur s \<and> (cons_lines t, cons_edit t) = line_edit c (cons_lines s, cons_edit s) \<and>
     (cons_lines t \<noteq> cons_lines s \<longrightarrow>
       (\<forall>j<NPROC. cur s \<noteq> Some j \<longrightarrow> \<not> (p_state (procs t ! j) = SLEEPING \<and> p_chan (procs t ! j) = Some cons_chan)))"

lemma edited_same:
  assumes "cons_inv t" "held t = held s" "cur t = cur s" "cons_lines t = cons_lines s" "line_edit c (cons_lines s, cons_edit s) = (cons_lines s, cons_edit t)"
  shows "edited c s t"
  using assms by (simp add: edited_def)

lemma edited_dump:
  assumes "cons_inv s" "\<not> panicked s" "pr_lock \<notin> set (held s)"
  shows "okR (procdump s) (edited 16 s)"
proof (rule okR_mono [OF procdump_ok [OF assms(2,3)]])
  fix t assume "echoed s t"
  note e = echoed_sel [OF this]
  show "edited 16 s t"
    by (rule edited_same) (use assms(1) e cons_cong [of t s] in \<open>simp_all add: line_edit_def\<close>)
qed

lemma edited_kill:
  assumes "cons_inv s" "\<not> panicked s"
  shows "okR (kill_line (unat (cons_e s - cons_w s)) s) (edited 21 s)"
proof (rule okR_mono [OF kill_line_ok [OF assms refl]])
  fix t assume t: "echoed (s\<lparr>cons_e := cons_w s\<rparr>) t \<and> cons_inv t \<and> cons_lines t = cons_lines s \<and> cons_edit t = []"
  note e = echoed_sel [OF conjunct1 [OF t]]
  show "edited 21 s t"
    by (rule edited_same) (use t e in \<open>simp_all add: line_edit_def\<close>)
qed

lemma edited_erase:
  assumes "cons_inv s" "\<not> panicked s" "c = 8 \<or> c = 127"
  shows "okR (if cons_e s \<noteq> cons_w s then consputc BACKSPACE (s\<lparr>cons_e := cons_e s - 1\<rparr>) else Ok s) (edited c s)"
proof (cases "cons_e s = cons_w s")
  case True
  then have "edited c s s"
    by (intro edited_same) (use assms cons_edit_empty [of s] in \<open>auto simp: line_edit_def\<close>)
  then show ?thesis using True by simp
next
  case False
  let ?s = "s\<lparr>cons_e := cons_e s - 1\<rparr>"
  note er = erase [OF assms(1) False refl]
  have "okR (consputc BACKSPACE ?s) (edited c s)"
  proof (rule okR_mono [OF consputc_ok])
    fix t assume "echoed ?s t"
    note e = echoed_sel [OF this]
    show "edited c s t"
      by (rule edited_same) (use assms er e cons_cong [of t ?s] in \<open>auto simp: line_edit_def\<close>)
  qed (simp add: assms(2))
  then show ?thesis using False by simp
qed

lemma ring_full_iff:
  assumes "unat (e - r) \<le> INPUT_BUF"
  shows "(e :: uint32) = r + of_nat INPUT_BUF \<longleftrightarrow> unat (e - r) = INPUT_BUF"
    and "e - r < of_nat INPUT_BUF \<longleftrightarrow> unat (e - r) < INPUT_BUF"
proof -
  have u: "unat (of_nat INPUT_BUF :: uint32) = INPUT_BUF" by simp
  show "e = r + of_nat INPUT_BUF \<longleftrightarrow> unat (e - r) = INPUT_BUF" by (metis u add_diff_cancel_left' diff_add_cancel add.commute word_unat_eq_iff)
  show "e - r < of_nat INPUT_BUF \<longleftrightarrow> unat (e - r) < INPUT_BUF" unfolding word_less_nat_alt u by simp
qed

lemma edited_add:
  assumes "cons_inv s" "\<not> panicked s" "plocks_free s" "length (procs s) = NPROC" "c \<notin> {16, 21, 8, 127, 0}" "cons_e s - cons_r s < of_nat INPUT_BUF"
    "d = (if c = 13 then 10 else c)"
  shows "okR (bindR (consputc (unat d) s) (\<lambda>s.
     let s = s\<lparr>cons_buf := (cons_buf s)[unat (cons_e s) mod INPUT_BUF := d], cons_e := cons_e s + 1\<rparr> in
     if d = 10 \<or> d = 4 \<or> cons_e s = cons_r s + of_nat INPUT_BUF
     then wakeup (Some cons_chan) (s\<lparr>cons_w := cons_e s\<rparr>) else Ok s)) (edited c s)"
proof -
  let ?q = "cons_lines s" and ?l = "cons_edit s"
  obtain t where t: "consputc (unat d) s = Ok t" "echoed s t" using consputc_ok [OF assms(2)] by (auto simp: okR_def)
  note e = echoed_sel [OF t(2)]
  have k: "cons_inv t" "cons_e t - cons_r t < of_nat INPUT_BUF" "cons_lines t = ?q" "cons_edit t = ?l"
    using cons_cong [of t s] e assms(1,6) by simp_all
  define u where "u = t\<lparr>cons_buf := (cons_buf t)[unat (cons_e t) mod INPUT_BUF := d], cons_e := cons_e t + 1\<rparr>"
  note a = add_char [OF k(1,2) u_def, unfolded k(3,4)]
  have us: "held u = held s" "cur u = cur s" "procs u = procs s" "cons_inv s = cons_inv t" using e k assms(1) by (simp_all add: u_def)
  have room: "length ?q + length ?l < INPUT_BUF"
    using cons_all(2) [OF k(1)] k(2-4) ring_full_iff(2) [of "cons_e t" "cons_r t"] k(1) by (simp add: cons_inv_def)
  have n: "unat (cons_e u - cons_r u) \<le> INPUT_BUF" using a(3) room by simp
  have full: "cons_e u = cons_r u + of_nat INPUT_BUF \<longleftrightarrow> length ?q + length (?l @ [d]) = INPUT_BUF"
    using ring_full_iff(1) [OF n] a(3) by simp
  have spec: "line_edit c (?q, ?l) =
      (if d = 10 \<or> d = 4 \<or> cons_e u = cons_r u + of_nat INPUT_BUF then (?q @ ?l @ [d], []) else (?q, ?l @ [d]))"
    using assms(5) room unfolding full by (simp add: line_edit_def Let_def assms(7))
  have "okR (if d = 10 \<or> d = 4 \<or> cons_e u = cons_r u + of_nat INPUT_BUF then wakeup (Some cons_chan) (u\<lparr>cons_w := cons_e u\<rparr>) else Ok u) (edited c s)"
  proof (cases "d = 10 \<or> d = 4 \<or> cons_e u = cons_r u + of_nat INPUT_BUF")
    case False
    have "10 \<notin> set (cons_edit u)" using a(2) assms(1) False by (simp add: cons_inv_def)
    then have "cons_inv u" using a(4,5) n by (simp add: cons_inv_def)
    then have "edited c s u" using us a(1,2) spec False by (simp add: edited_def)
    then show ?thesis unfolding if_not_P [OF False] okR_Ok .
  next
    case True
    define v where "v = u\<lparr>cons_w := cons_e u\<rparr>"
    note el = end_line [OF disjI2 [OF conjI [OF a(4,5)]] n v_def]
    let ?w = "v\<lparr>procs := wake_from (Some cons_chan) (cur v) NPROC (procs v)\<rparr>"
    have "plocks_free v" using assms(3) us by (simp add: plocks_free_def v_def)
    then have w: "wakeup (Some cons_chan) v = Ok ?w" by (rule wakeup_eq) (simp add: v_def us assms(4))
    have "\<not> (p_state (procs ?w ! j) = SLEEPING \<and> p_chan (procs ?w ! j) = Some cons_chan)" if "j < NPROC" "cur s \<noteq> Some j" for j
      using that assms(4) us by (simp add: v_def nth_wake_from wake_def)
    moreover have "cons_inv ?w" "cons_lines ?w = cons_lines v" "cons_edit ?w = []" using cons_cong [of ?w v] el by simp_all
    ultimately have "edited c s ?w" using us a(1,2) el spec True by (simp add: edited_def v_def)
    then show ?thesis unfolding if_P [OF True] v_def [symmetric] w okR_Ok .
  qed
  then show ?thesis unfolding t(1) bindR.simps Let_def u_def .
qed

lemma edited_none:
  assumes "cons_inv s" "c \<notin> {16, 21, 8, 127}" "\<not> (c \<noteq> 0 \<and> cons_e s - cons_r s < of_nat INPUT_BUF)"
  shows "edited c s s"
proof (rule edited_same)
  have "c = 0 \<or> INPUT_BUF \<le> length (cons_lines s) + length (cons_edit s)"
    using assms(3) cons_all(2) [OF assms(1)] ring_full_iff(2) [of "cons_e s" "cons_r s"] assms(1) by (auto simp: cons_inv_def)
  then show "line_edit c (cons_lines s, cons_edit s) = (cons_lines s, cons_edit s)" using assms(2) by (auto simp: line_edit_def)
qed (use assms(1) in simp_all)

text \<open>
  C19: The interrupt handler of the console is a line editor.  On a console whose ring holds the
  complete lines and the line being edited, \<^verbatim>\<open>consoleintr\<close> returns for every character,
  leaves a ring that again holds them, within its 128 bytes, with exactly the change of
  \<^const>\<open>line_edit\<close>: complete lines are never lost or reordered, erasing stops at the start
  of the line, and input beyond the buffer is dropped.  When it completes a line, no other
  process is left asleep waiting for input.
\<close>

theorem consoleintr_refines:
  assumes "cons_inv s" "\<not> panicked s" "cons_lock \<notin> set (held s)" "pr_lock \<notin> set (held s)" "plocks_free s" "length (procs s) = NPROC"
  shows "\<exists>t. consoleintr c s = Ok t \<and> cons_inv t \<and> held t = held s \<and> (cons_lines t, cons_edit t) = line_edit c (cons_lines s, cons_edit s) \<and>
    (cons_lines t \<noteq> cons_lines s \<longrightarrow>
      (\<forall>j<NPROC. cur s \<noteq> Some j \<longrightarrow> \<not> (p_state (procs t ! j) = SLEEPING \<and> p_chan (procs t ! j) = Some cons_chan)))"
proof -
  let ?s = "s\<lparr>held := cons_lock # held s\<rparr>"
  have s: "cons_inv ?s" "\<not> panicked ?s" "pr_lock \<notin> set (held ?s)" "plocks_free ?s" "length (procs ?s) = NPROC"
    "cons_lines ?s = cons_lines s" "cons_edit ?s = cons_edit s"
    using cons_cong [of ?s s] assms by (simp_all add: plocks_free_def)
  have "okR (if c = 16 then procdump ?s
            else if c = 21 then kill_line (unat (cons_e ?s - cons_w ?s)) ?s
            else if c = 8 \<or> c = 127
            then if cons_e ?s \<noteq> cons_w ?s then consputc BACKSPACE (?s\<lparr>cons_e := cons_e ?s - 1\<rparr>) else Ok ?s
            else if c \<noteq> 0 \<and> cons_e ?s - cons_r ?s < of_nat INPUT_BUF
            then let c = (if c = 13 then 10 else c) in
                 bindR (consputc (unat c) ?s) (\<lambda>s.
                 let s = s\<lparr>cons_buf := (cons_buf s)[unat (cons_e s) mod INPUT_BUF := c], cons_e := cons_e s + 1\<rparr> in
                 if c = 10 \<or> c = 4 \<or> cons_e s = cons_r s + of_nat INPUT_BUF
                 then wakeup (Some cons_chan) (s\<lparr>cons_w := cons_e s\<rparr>) else Ok s)
            else Ok ?s) (edited c ?s)" (is "okR ?body _")
    using edited_dump [OF s(1-3)] edited_kill [OF s(1,2)] edited_erase [OF s(1,2), of c] edited_add [OF s(1,2,4,5), of c]
      edited_none [OF s(1), of c] unfolding Let_def by (simp del: okR_bind split: if_split)
  then obtain t where t: "?body = Ok t" "edited c ?s t" by (auto simp: okR_def)
  let ?t = "t\<lparr>held := held s\<rparr>"
  have "consoleintr c s = Ok ?t"
    unfolding consoleintr_def acquire_Ok [OF assms(3)] bindR.simps t(1) using t(2) by (simp add: edited_def lock_simps)
  moreover have "cons_inv ?t" "cons_lines ?t = cons_lines t" "cons_edit ?t = cons_edit t" using cons_cong [of ?t t] t(2) by (simp_all add: edited_def)
  ultimately show ?thesis using t(2) s(6,7) by (intro exI [of _ ?t]) (simp add: edited_def)
qed

theorem consoleintr_refines_witness:
  "\<exists>(s :: kcons) t. (cons_lines s, cons_edit s) = ([], [108]) \<and> consoleintr 13 s = Ok t \<and> (cons_lines t, cons_edit t) = ([108, 10], [])"
proof -
  let ?s = "undefined\<lparr>held := [], cur := None, procs := replicate NPROC undefined, cons_buf := (replicate INPUT_BUF 0)[127 := 108],
    cons_r := 0xffffffff, cons_w := 0xffffffff, cons_e := 0, panicked := False\<rparr> :: kcons"
  have q: "cons_lines ?s = []" "cons_edit ?s = [108]" by (simp_all add: cons_lines_def cons_edit_def ring_q_def nth_list_update)
  have i: "cons_inv ?s" by (simp add: cons_inv_def q)
  have l: "line_edit 13 ([], [108]) = ([108, 10], [])" by (simp add: line_edit_def Let_def)
  show ?thesis
    using consoleintr_refines [OF i, of 13] unfolding q l
    by - (rule exI [of _ ?s], auto simp: q plocks_free_def)
qed

end
