(* ===== verification/Txn.thy ===== *)
theory Txn
  imports Journal Fs
begin

section \<open>Blocks in a transaction\<close>

text \<open>
  The contract of the cache and the log together, as the file system uses them inside a
  transaction: it reads a block, may change and log it, and releases it.  The disk does not
  change; the contents it will have are \<open>blk\<close>, and every block that differs from the disk is in
  the log or locked.
\<close>

subsection \<open>Room in the log and the cache\<close>

text \<open>With the blocks \<open>L\<close> logged and the users \<open>us\<close> of each block, \<open>k\<close> more blocks fit.\<close>

definition room_for :: "int \<Rightarrow> uint32 set \<Rightarrow> (uint32 \<Rightarrow> nat) \<Rightarrow> nat \<Rightarrow> bool" where
  "room_for sz L us k \<longleftrightarrow> card L + k \<le> LOGSIZE \<and> int (card L + k) \<le> sz - 1 \<and> card (L \<union> {m. us m \<noteq> 0}) + k \<le> NBUF"

definition log_room :: "int \<Rightarrow> uint32 set \<Rightarrow> bool" where
  "log_room sz L \<longleftrightarrow> card L < LOGSIZE \<and> int (card L) < sz - 1"

definition cache_room :: "uint32 set \<Rightarrow> (uint32 \<Rightarrow> nat) \<Rightarrow> nat \<Rightarrow> bool" where
  "cache_room L us k \<longleftrightarrow> card (L \<union> {m. us m \<noteq> 0}) + k \<le> NBUF"

lemma room_cache: "room_for sz L us k \<Longrightarrow> cache_room L us k"
  by (simp add: room_for_def cache_room_def)

lemma room_log: "room_for sz L us 1 \<Longrightarrow> log_room sz L"
  by (simp add: room_for_def log_room_def)

lemma room_mono: "room_for sz L us k \<Longrightarrow> j \<le> k \<Longrightarrow> room_for sz L us j"
  by (auto simp: room_for_def)

lemma room_insert: "room_for sz L us (Suc k) \<Longrightarrow> room_for sz (insert n L) us k"
  using card_insert_le_m1 [of "Suc (card L)" L n] card_insert_le_m1 [of "Suc (card (L \<union> {m. us m \<noteq> 0}))" "L \<union> {m. us m \<noteq> 0}" n]
  by (auto simp: room_for_def)

lemma room_hold: "room_for sz L us (Suc k) \<Longrightarrow> room_for sz L (us(n := Suc j)) k"
proof -
  have "{m. (us(n := Suc j)) m \<noteq> 0} = insert n {m. us m \<noteq> 0}" by auto
  then have "L \<union> {m. (us(n := Suc j)) m \<noteq> 0} = insert n (L \<union> {m. us m \<noteq> 0})" by simp
  then show "room_for sz L us (Suc k) \<Longrightarrow> ?thesis"
    using card_insert_le_m1 [of "Suc (card (L \<union> {m. us m \<noteq> 0}))" "L \<union> {m. us m \<noteq> 0}" n] by (auto simp: room_for_def)
qed

subsection \<open>The contract\<close>

text \<open>
  \<open>view\<close>, \<open>own\<close> and \<open>users\<close> are contents, lock holder and number of users of each block, \<open>lg\<close> the
  blocks of the transaction, \<open>bad\<close> the blocks of the log itself.
\<close>

locale txn_store =
  fixes rd :: "uint32 \<Rightarrow> 's \<Rightarrow> (nat \<times> 's) res" and lw rel :: "nat \<Rightarrow> 's \<Rightarrow> 's res"
    and put :: "nat \<Rightarrow> block \<Rightarrow> 's \<Rightarrow> 's" and data :: "nat \<Rightarrow> 's \<Rightarrow> block"
    and has :: "nat \<Rightarrow> uint32 \<Rightarrow> 's \<Rightarrow> bool" and ok :: "'s \<Rightarrow> bool" and frame :: "'s \<Rightarrow> 's \<Rightarrow> bool"
    and view dk :: "'s \<Rightarrow> uint32 \<Rightarrow> block" and own :: "'s \<Rightarrow> uint32 \<Rightarrow> int option" and users :: "'s \<Rightarrow> uint32 \<Rightarrow> nat"
    and lg bad :: "'s \<Rightarrow> uint32 set" and sz :: "'s \<Rightarrow> int" and me :: "'s \<Rightarrow> int" and act :: "'s \<Rightarrow> bool"
  assumes frame: "frame s s" "frame s t \<Longrightarrow> frame t u \<Longrightarrow> frame s u"
    and frame_const: "frame s t \<Longrightarrow> bad t = bad s \<and> sz t = sz s \<and> act t = act s"
    and data: "has b n s \<Longrightarrow> data b s = view s n \<and> own s n = Some (me s)"
    and clean: "ok s \<Longrightarrow> own s n = None \<Longrightarrow> n \<notin> lg s \<Longrightarrow> view s n = dk s n"
    and view_length: "ok s \<Longrightarrow> length (view s n) = BSIZE"
    and rd: "ok s \<Longrightarrow> own s n = None \<Longrightarrow> n \<notin> bad s \<Longrightarrow> cache_room (lg s) (users s) 1 \<Longrightarrow>
      \<exists>b t. rd n s = Ok (b, t) \<and> has b n t \<and> ok t \<and> frame s t \<and> view t = view s \<and> dk t = dk s \<and> lg t = lg s \<and>
        own t = (own s)(n := Some (me s)) \<and> me t = me s \<and> users t = (users s)(n := Suc (users s n)) \<and> (\<forall>c m. m \<noteq> n \<longrightarrow> has c m s \<longrightarrow> has c m t)"
    and put: "ok s \<Longrightarrow> has b n s \<Longrightarrow> length d = BSIZE \<Longrightarrow> t = put b d s \<Longrightarrow>
      has b n t \<and> ok t \<and> frame s t \<and> view t = (view s)(n := d) \<and> dk t = dk s \<and> lg t = lg s \<and> own t = own s \<and> me t = me s \<and>
        users t = users s \<and> (\<forall>c m. m \<noteq> n \<longrightarrow> has c m s \<longrightarrow> has c m t)"
    and lw: "ok s \<Longrightarrow> has b n s \<Longrightarrow> n \<notin> bad s \<Longrightarrow> act s \<Longrightarrow> log_room (sz s) (lg s) \<Longrightarrow>
      \<exists>t. lw b s = Ok t \<and> has b n t \<and> ok t \<and> frame s t \<and> view t = view s \<and> dk t = dk s \<and> lg t = insert n (lg s) \<and>
        own t = own s \<and> me t = me s \<and> users t = users s \<and> (\<forall>c m. m \<noteq> n \<longrightarrow> has c m s \<longrightarrow> has c m t)"
    and rel: "ok s \<Longrightarrow> has b n s \<Longrightarrow> n \<in> lg s \<or> view s n = dk s n \<Longrightarrow>
      \<exists>t. rel b s = Ok t \<and> ok t \<and> frame s t \<and> view t = view s \<and> dk t = dk s \<and> lg t = lg s \<and>
        own t = (own s)(n := None) \<and> me t = me s \<and> users t = (users s)(n := users s n - 1) \<and> (\<forall>c m. m \<noteq> n \<longrightarrow> has c m s \<longrightarrow> has c m t)"
begin

text \<open>Reading a block and releasing it.\<close>

lemma look:
  assumes "ok s" "own s n = None" "n \<notin> bad s" "cache_room (lg s) (users s) 1"
  shows "\<exists>b t u. rd n s = Ok (b, t) \<and> has b n t \<and> ok t \<and> data b t = view s n \<and> frame s t \<and> view t = view s \<and> lg t = lg s \<and>
    own t = (own s)(n := Some (me s)) \<and> users t = (users s)(n := Suc (users s n)) \<and> dk t = dk s \<and>
    rel b t = Ok u \<and> ok u \<and> frame s u \<and> view u = view s \<and> lg u = lg s \<and> own u = own s \<and> users u = users s \<and> dk u = dk s"
proof -
  obtain b t where t: "rd n s = Ok (b, t)" "has b n t" "ok t" "frame s t" "view t = view s" "dk t = dk s" "lg t = lg s"
    "own t = (own s)(n := Some (me s))" "users t = (users s)(n := Suc (users s n))"
    using rd [OF assms] by blast
  have "n \<in> lg t \<or> view t n = dk t n" using clean [OF assms(1,2)] t(5-7) by auto
  then obtain u where "rel b t = Ok u" "ok u" "frame t u" "view u = view t" "dk u = dk t" "lg u = lg t" "own u = (own t)(n := None)"
    "users u = (users t)(n := users t n - 1)"
    using rel [OF t(3,2)] by blast
  then show ?thesis using t data [OF t(2)] frame(2) [OF t(4)] assms(2)
    by (intro exI [of _ b] exI [of _ t] exI [of _ u]) (simp add: fun_upd_idem)
qed

text \<open>Reading a block, changing and logging it, and releasing it.\<close>

lemma modify:
  assumes "ok s" "own s n = None" "n \<notin> bad s" "room_for (sz s) (lg s) (users s) 1" "act s"
  shows "\<exists>b t. rd n s = Ok (b, t) \<and> data b t = view s n \<and> frame s t \<and>
    (\<forall>d. length d = BSIZE \<longrightarrow> (\<exists>v w. lw b (put b d t) = Ok v \<and> rel b v = Ok w \<and> ok w \<and> frame s w \<and> view w = (view s)(n := d) \<and>
      lg w = insert n (lg s) \<and> own w = own s \<and> users w = users s \<and> dk w = dk s \<and> (\<forall>c m. m \<noteq> n \<longrightarrow> has c m s \<longrightarrow> has c m w)))"
proof -
  obtain b t where t: "rd n s = Ok (b, t)" "has b n t" "ok t" "frame s t" "view t = view s" "dk t = dk s" "lg t = lg s"
    "own t = (own s)(n := Some (me s))" "users t = (users s)(n := Suc (users s n))" "\<forall>c m. m \<noteq> n \<longrightarrow> has c m s \<longrightarrow> has c m t"
    using rd [OF assms(1-3) room_cache [OF assms(4)]] by blast
  have "\<exists>v w. lw b (put b d t) = Ok v \<and> rel b v = Ok w \<and> ok w \<and> frame s w \<and> view w = (view s)(n := d) \<and>
      lg w = insert n (lg s) \<and> own w = own s \<and> users w = users s \<and> dk w = dk s \<and> (\<forall>c m. m \<noteq> n \<longrightarrow> has c m s \<longrightarrow> has c m w)" if "length d = BSIZE" for d
  proof -
    define p where "p = put b d t"
    have p: "has b n p" "ok p" "frame t p" "view p = (view t)(n := d)" "dk p = dk t" "lg p = lg t" "own p = own t" "users p = users t"
      "\<forall>c m. m \<noteq> n \<longrightarrow> has c m t \<longrightarrow> has c m p" using put [OF t(3,2) that p_def] by auto
    have c: "bad p = bad s" "sz p = sz s" "act p = act s" using frame_const frame(2) [OF t(4) p(3)] by blast+
    have "log_room (sz p) (lg p)" using room_log [OF assms(4)] c p(6) t(7) by simp
    then obtain v where v: "lw b p = Ok v" "has b n v" "ok v" "frame p v" "view v = view p" "dk v = dk p" "lg v = insert n (lg p)"
      "own v = own p" "users v = users p" "\<forall>c m. m \<noteq> n \<longrightarrow> has c m p \<longrightarrow> has c m v"
      using lw [OF p(2,1)] c(1,3) assms(3,5) by auto
    obtain w where "rel b v = Ok w" "ok w" "frame v w" "view w = view v" "dk w = dk v" "lg w = lg v" "own w = (own v)(n := None)"
      "users w = (users v)(n := users v n - 1)" "\<forall>c m. m \<noteq> n \<longrightarrow> has c m v \<longrightarrow> has c m w"
      using rel [OF v(3,2)] v(7) by blast
    then show ?thesis using t p v frame(2) [OF frame(2) [OF frame(2) [OF t(4) p(3)] v(4)]] assms(2)
      by (intro exI [of _ v] exI [of _ w]) (simp add: p_def [symmetric] fun_upd_idem)
  qed
  then show ?thesis using t(1,4,5) data [OF t(2)] by (intro exI [of _ b] exI [of _ t]) simp
qed

end

subsection \<open>The buffer cache and the log keep it\<close>

definition logged :: "'a klog_scheme \<Rightarrow> uint32 set" where
  "logged s = home s ` {..<nlogged s}"

text \<open>The users of a block other than the log, which pins it once.\<close>

definition users :: "'a klog_scheme \<Rightarrow> uint32 \<Rightarrow> nat" where
  "users s m = brefs s m - (if m \<in> logged s then 1 else 0)"

definition umax :: nat where
  "umax = 2 ^ 31"

lemma umax_bound: "r \<le> umax + 2 \<Longrightarrow> r < 2 ^ 32 - 2"
  by (simp add: umax_def)

definition txn_ok :: "'a klog_scheme \<Rightarrow> bool" where
  "txn_ok s \<longleftrightarrow> kio s \<and> binv s \<and> log_inv s \<and> log_lock \<notin> set (held s) \<and>
     (\<forall>m. bowner s m = None \<longrightarrow> m \<notin> logged s \<longrightarrow> blk s m = disk s m) \<and>
     (\<forall>m. users s m < umax + (if bowner s m = None then 0 else 1))"

definition txn_has :: "nat \<Rightarrow> uint32 \<Rightarrow> 'a klog_scheme \<Rightarrow> bool" where
  "txn_has b n s \<longleftrightarrow> has_buf b n s \<and> 1 \<le> users s n"

text \<open>Processes may wake up, buffers and the header of the log in memory change, and nothing else.\<close>

definition tstep :: "'a klog_scheme \<Rightarrow> 'a klog_scheme \<Rightarrow> bool" where
  "tstep s t \<longleftrightarrow> (\<exists>bs ps h. t = s\<lparr>procs := ps, bufs := bs, lh := h\<rparr> \<and> woken (procs s) ps)"

lemma tstep_refl [simp]: "tstep s s"
  unfolding tstep_def by (rule exI [of _ "bufs s"], rule exI [of _ "procs s"], rule exI [of _ "lh s"]) simp

lemma tstep_trans: "tstep s t \<Longrightarrow> tstep t u \<Longrightarrow> tstep s u"
proof -
  assume "tstep s t" "tstep t u"
  then obtain bs ps h bs' ps' h' where "t = s\<lparr>procs := ps, bufs := bs, lh := h\<rparr>" "woken (procs s) ps"
    "u = t\<lparr>procs := ps', bufs := bs', lh := h'\<rparr>" "woken (procs t) ps'" unfolding tstep_def by blast
  then show ?thesis unfolding tstep_def using woken_trans [of "procs s" ps ps']
    by (intro exI [of _ bs'] exI [of _ ps'] exI [of _ h']) simp
qed

lemma tstep_sel:
  assumes "tstep s t"
  shows "held t = held s" "cur t = cur s" "mem t = mem s" "freelist t = freelist s" "kend t = kend s" "disk t = disk s" "dwrites t = dwrites s"
    "log_start t = log_start s" "log_size t = log_size s" "log_dev t = log_dev s" "outstanding t = outstanding s"
    "committing t = committing s" "klog.more t = klog.more s" "woken (procs s) (procs t)"
  using assms by (auto simp: tstep_def)

lemma bstep_tstep:
  assumes "bstep (s\<lparr>lh := h\<rparr>) t" "disk t = disk s" "dwrites t = dwrites s"
  shows "tstep s t"
proof -
  obtain bs ps d w where e: "t = s\<lparr>lh := h, procs := ps, bufs := bs, disk := d, dwrites := w\<rparr>" "woken (procs s) ps"
    using assms(1) unfolding bstep_def by auto
  then have "t = s\<lparr>procs := ps, bufs := bs, lh := h\<rparr>" using assms(2,3) by (cases s) simp
  then show ?thesis using e(2) unfolding tstep_def by blast
qed

lemma bstep_tstep': "bstep s t \<Longrightarrow> disk t = disk s \<Longrightarrow> dwrites t = dwrites s \<Longrightarrow> tstep s t"
  using bstep_tstep [where h = "lh s" and s = s and t = t] by simp

lemma brefs_users: "log_inv s \<Longrightarrow> brefs s m = users s m + (if m \<in> logged s then 1 else 0)"
  by (auto simp: users_def log_inv_def logged_def)

lemma busy_users: "log_inv s \<Longrightarrow> busy s = logged s \<union> {m. users s m \<noteq> 0}"
  using brefs_users [of s] by (auto simp: busy_def)

lemma card_logged: "log_inv s \<Longrightarrow> card (logged s) = nlogged s"
  by (simp add: logged_def card_image log_inv_def)

lemma logged_cong: "lh t = lh s \<Longrightarrow> logged t = logged s"
  by (simp add: logged_def)

text \<open>Changing the references of one block outside the log keeps the invariants.\<close>

lemma txn_ok_refs:
  assumes "txn_ok s" "bstep s t" "binv t" "disk t = disk s" "dwrites t = dwrites s" "n \<notin> log_area (log_start s) (log_size s)"
    "brefs t = (brefs s)(n := r)" "n \<in> logged s \<longrightarrow> r \<noteq> 0" "bowner t = (bowner s)(n := w)" "\<forall>m. m \<noteq> n \<longrightarrow> blk t m = blk s m"
    "users t n < umax + (if w = None then 0 else 1)" "w = None \<longrightarrow> n \<notin> logged s \<longrightarrow> blk t n = disk s n"
  shows "txn_ok t" "logged t = logged s" "users t = (users s)(n := r - (if n \<in> logged s then 1 else 0))" "tstep s t"
proof -
  note l = bstep_log [OF assms(2)] and h = bstep_sel [OF assms(2)]
  show lg: "logged t = logged s" using l(4) by (rule logged_cong)
  show us: "users t = (users s)(n := r - (if n \<in> logged s then 1 else 0))" using assms(7) lg by (auto simp: users_def fun_eq_iff)
  show "tstep s t" by (rule bstep_tstep' [OF assms(2,4,5)])
  have k: "kio t" using assms(1,2) bstep_kio by (auto simp: txn_ok_def)
  have "r \<le> umax + 2" using us assms(11) by (auto split: if_splits)
  then have "r < 2 ^ 32 - 1" using umax_bound by fastforce
  then have "log_inv t" using assms(1,4,6,7,8) l by (auto simp: log_inv_def txn_ok_def logged_def)
  then show "txn_ok t" unfolding txn_ok_def using assms(1,3,4,9-12) k h(1) l(5) lg us by (auto simp: txn_ok_def)
qed
lemma txn_rd:
  assumes "txn_ok s" "bowner s n = None" "n \<notin> log_area (log_start s) (log_size s)" "cache_room (logged s) (users s) 1"
  shows "\<exists>b t. bread ROOTDEV n s = Ok (b, t) \<and> txn_has b n t \<and> txn_ok t \<and> tstep s t \<and> blk t = blk s \<and> disk t = disk s \<and> logged t = logged s \<and>
    bowner t = (bowner s)(n := Some (my_pid s)) \<and> my_pid t = my_pid s \<and> users t = (users s)(n := Suc (users s n)) \<and>
    (\<forall>c m. m \<noteq> n \<longrightarrow> txn_has c m s \<longrightarrow> txn_has c m t)"
proof -
  have k: "kio s \<and> binv s" "log_inv s" "users s n < umax" using assms(1,2) by (auto simp: txn_ok_def dest: spec [of _ n])
  have "card {m. brefs s m \<noteq> 0} < NBUF" using assms(4) busy_users [OF k(2)] by (simp add: cache_room_def busy_def)
  then obtain b t where t: "bread ROOTDEV n s = Ok (b, t)" "has_buf b n t" "kio t \<and> binv t" "bstep s t" "my_pid t = my_pid s" "blk t = blk s"
    "brefs t = (brefs s)(n := Suc (brefs s n))" "bowner t = (bowner s)(n := Some (my_pid s))" "disk t = disk s" "dwrites t = dwrites s"
    "\<forall>c m. m \<noteq> n \<longrightarrow> has_buf c m s \<longrightarrow> has_buf c m t"
    using bc.rd_ok [OF k(1) assms(2)] k(2) by (auto simp: log_inv_def)
  have lt: "logged t = logged s" using bstep_log(4) [OF t(4)] by (rule logged_cong)
  have "users t n = brefs t n - (if n \<in> logged s then 1 else 0)" by (simp add: users_def lt)
  then have un: "users t n = Suc (users s n)" using t(7) brefs_users [OF k(2), of n] by simp
  have b: "users t n < umax + (if Some (my_pid s) = None then 0 else 1)" using un k(3) by simp
  have o: "n \<in> logged s \<longrightarrow> Suc (brefs s n) \<noteq> 0" "\<forall>m. m \<noteq> n \<longrightarrow> blk t m = blk s m"
    "Some (my_pid s) = None \<longrightarrow> n \<notin> logged s \<longrightarrow> blk t n = disk s n" using t(6) by simp_all
  note r = txn_ok_refs [OF assms(1) t(4) conjunct2 [OF t(3)] t(9,10) assms(3) t(7) o(1) t(8) o(2) b o(3)]
  have e: "txn_ok t" "users t = (users s)(n := Suc (users s n))" "tstep s t"
    using r(1,4) fun_cong [OF r(3), of n] un by (simp_all add: r(3))
  have "txn_has b n t" using t(2) un by (simp add: txn_has_def)
  moreover have "\<forall>c m. m \<noteq> n \<longrightarrow> txn_has c m s \<longrightarrow> txn_has c m t" using t(11) e(2) by (simp add: txn_has_def)
  ultimately show ?thesis using t(1,5,6,8,9) e lt by (intro exI [of _ b] exI [of _ t]) simp
qed

lemma txn_put:
  assumes "txn_ok s" "txn_has b n s" "length d = BSIZE" "t = set_data b d s"
  shows "txn_has b n t \<and> txn_ok t \<and> tstep s t \<and> blk t = (blk s)(n := d) \<and> disk t = disk s \<and> logged t = logged s \<and> bowner t = bowner s \<and>
    my_pid t = my_pid s \<and> users t = users s \<and> (\<forall>c m. m \<noteq> n \<longrightarrow> txn_has c m s \<longrightarrow> txn_has c m t)"
proof -
  have k: "kio s \<and> binv s" "log_inv s" "has_buf b n s" "1 \<le> users s n" "bowner s n = Some (my_pid s)"
    using assms(1,2) by (auto simp: txn_ok_def txn_has_def has_buf_def)
  have t: "has_buf b n t" "kio t \<and> binv t" "bstep s t" "my_pid t = my_pid s" "blk t = (blk s)(n := d)" "brefs t = brefs s"
    "bowner t = (bowner s)(n := Some (my_pid s))" "disk t = disk s" "dwrites t = dwrites s" "\<forall>c m. m \<noteq> n \<longrightarrow> has_buf c m s \<longrightarrow> has_buf c m t"
    using bc.put_ok [OF k(1,3) assms(3,4)] by auto
  have na: "n \<notin> log_area (log_start s) (log_size s)" using k(2,3) by (auto simp: log_inv_def has_buf_def)
  have lt: "logged t = logged s" using bstep_log(4) [OF t(3)] by (rule logged_cong)
  have us: "users t = users s" using t(6) lt by (simp add: users_def fun_eq_iff)
  have rf: "brefs t = (brefs s)(n := brefs s n)" using t(6) by simp
  have b: "users t n < umax + (if Some (my_pid s) = None then 0 else 1)" using assms(1) k(5) us by (auto simp: txn_ok_def dest: spec [of _ n])
  have "n \<in> logged s \<longrightarrow> brefs s n \<noteq> 0" using k(3) by (simp add: has_buf_def)
  moreover have "\<forall>m. m \<noteq> n \<longrightarrow> blk t m = blk s m" "Some (my_pid s) = None \<longrightarrow> n \<notin> logged s \<longrightarrow> blk t n = disk s n" using t(5) by simp_all
  ultimately have e: "txn_ok t" "tstep s t"
    using txn_ok_refs(1,4) [OF assms(1) t(3) conjunct2 [OF t(2)] t(8,9) na rf _ t(7) _ b] by blast+
  moreover have "bowner t = bowner s" using t(7) k(5) by (simp add: fun_upd_idem)
  moreover have "txn_has b n t" using t(1) us k(4) by (simp add: txn_has_def)
  moreover have "\<forall>c m. m \<noteq> n \<longrightarrow> txn_has c m s \<longrightarrow> txn_has c m t" using t(10) us by (simp add: txn_has_def)
  ultimately show ?thesis using t(4,5,8) lt us by simp
qed

lemma txn_rel:
  assumes "txn_ok s" "txn_has b n s" "n \<in> logged s \<or> blk s n = disk s n"
  shows "\<exists>t. brelse b s = Ok t \<and> txn_ok t \<and> tstep s t \<and> blk t = blk s \<and> disk t = disk s \<and> logged t = logged s \<and>
    bowner t = (bowner s)(n := None) \<and> my_pid t = my_pid s \<and> users t = (users s)(n := users s n - 1) \<and>
    (\<forall>c m. m \<noteq> n \<longrightarrow> txn_has c m s \<longrightarrow> txn_has c m t)"
proof -
  have k: "kio s \<and> binv s" "log_inv s" "has_buf b n s" "1 \<le> users s n" "bowner s n = Some (my_pid s)" "users s n < umax + 1"
    using assms(1,2) by (auto simp: txn_ok_def txn_has_def has_buf_def dest: spec [of _ n])
  have na: "n \<notin> log_area (log_start s) (log_size s)" using k(2,3) by (auto simp: log_inv_def has_buf_def)
  have ru: "brefs s n = users s n + (if n \<in> logged s then 1 else 0)" by (rule brefs_users [OF k(2)])
  then have "1 < brefs s n \<or> blk s n = disk s n" using assms(3) k(4) by auto
  then obtain t where t: "brelse b s = Ok t" "kio t \<and> binv t" "bstep s t" "my_pid t = my_pid s" "blk t = blk s"
    "brefs t = (brefs s)(n := brefs s n - 1)" "bowner t = (bowner s)(n := None)" "disk t = disk s" "dwrites t = dwrites s"
    "\<forall>c m. m \<noteq> n \<longrightarrow> has_buf c m s \<longrightarrow> has_buf c m t"
    using bc.rel_ok [OF k(1,3)] by auto
  have lt: "logged t = logged s" using bstep_log(4) [OF t(3)] by (rule logged_cong)
  have "users t n = brefs t n - (if n \<in> logged s then 1 else 0)" by (simp add: users_def lt)
  then have un: "users t n = users s n - 1" using t(6) ru by simp
  have b: "users t n < umax + (if (None :: int option) = None then 0 else 1)" using un k(4,6) by simp
  have lr: "n \<in> logged s \<longrightarrow> brefs s n - 1 \<noteq> 0" using ru k(4) by simp
  have cl: "n \<notin> logged s \<longrightarrow> blk t n = disk s n" using assms(3) t(5) by auto
  have o: "\<forall>m. m \<noteq> n \<longrightarrow> blk t m = blk s m" "None = None \<longrightarrow> n \<notin> logged s \<longrightarrow> blk t n = disk s n" using t(5) cl by simp_all
  note r = txn_ok_refs [OF assms(1) t(3) conjunct2 [OF t(2)] t(8,9) na t(6) lr t(7) o(1) b o(2)]
  have e: "txn_ok t" "users t = (users s)(n := users s n - 1)" "tstep s t"
    using r(1,4) fun_cong [OF r(3), of n] un by (simp_all add: r(3))
  have "\<forall>c m. m \<noteq> n \<longrightarrow> txn_has c m s \<longrightarrow> txn_has c m t" using t(10) e(2) by (simp add: txn_has_def)
  then show ?thesis using t(1,4,5,7,8) e lt by (intro exI [of _ t]) simp
qed

lemma txn_lw:
  assumes "txn_ok s" "txn_has b n s" "n \<notin> log_area (log_start s) (log_size s)" "1 \<le> outstanding s" "log_room (log_size s) (logged s)"
  shows "\<exists>t. log_write b s = Ok t \<and> txn_has b n t \<and> txn_ok t \<and> tstep s t \<and> blk t = blk s \<and> disk t = disk s \<and> logged t = insert n (logged s) \<and>
    bowner t = bowner s \<and> my_pid t = my_pid s \<and> users t = users s \<and> (\<forall>c m. m \<noteq> n \<longrightarrow> txn_has c m s \<longrightarrow> txn_has c m t)"
proof -
  have k: "kio s" "binv s" "log_inv s" "log_lock \<notin> set (held s)" "1 \<le> outstanding s" "has_buf b n s" "1 \<le> users s n"
    "bowner s n = Some (my_pid s)" "users s n < umax + 1"
    using assms(1,2,4) by (auto simp: txn_ok_def txn_has_def has_buf_def dest: spec [of _ n])
  have ru: "brefs s n = users s n + (if n \<in> logged s then 1 else 0)" by (rule brefs_users [OF k(3)])
  have n: "lh_n (lh s) < int LOGSIZE" "lh_n (lh s) < log_size s - 1"
    using assms(5) card_logged [OF k(3)] k(3) by (auto simp: log_room_def log_inv_def)
  show ?thesis
  proof (cases "n \<in> logged s")
    case True
    then have "log_write b s = Ok s" using log_write_again [OF k(1,4,2,3,6,5) _ n] by (simp add: logged_def)
    then show ?thesis using True assms(1,2) by (intro exI [of _ s]) (simp add: insert_absorb)
  next
    case False
    let ?h = "\<lparr>lh_n = lh_n (lh s) + 1, lh_block = (lh_block (lh s))[nlogged s := n]\<rparr>"
    have nh: "n \<notin> home s ` {..<nlogged s}" using False by (simp add: logged_def)
    have b: "brefs s n < 2 ^ 32 - 2" by (rule umax_bound) (use ru False k(9) in simp)
    obtain t where t: "log_write b s = Ok t" "kio t" "binv t" "bstep (s\<lparr>lh := ?h\<rparr>) t" "has_buf b n t" "blk t = blk s"
      "brefs t = (brefs s)(n := Suc (brefs s n))" "bowner t = bowner s" "disk t = disk s" "dwrites t = dwrites s"
      "\<forall>c m. m \<noteq> n \<longrightarrow> has_buf c m s \<longrightarrow> has_buf c m t"
      using log_write_new [OF k(1,4,2,3,6,5) nh n] b by (auto simp: okR_def)
    note l = bstep_log [OF t(4), simplified] and h = bstep_sel [OF t(4), simplified]
    have i: "log_inv t" "logged t = insert n (logged s)"
      using log_write_inv [OF k(3) nh assms(3) n b l(4) t(7,9) l(1-3)] by (simp_all add: logged_def)
    have us: "users t = users s" using t(7) i(2) False by (auto simp: users_def fun_eq_iff)
    have pid: "my_pid t = my_pid s" using bstep_kio [OF t(4)] k(1) by (simp add: kio_def kenv_def my_pid_def)
    have "txn_ok t" unfolding txn_ok_def using assms(1) t(2,3,6,8,9) i us h(1) l(5) by (auto simp: txn_ok_def)
    moreover have "tstep s t" by (rule bstep_tstep [OF t(4,9,10)])
    moreover have "txn_has b n t" using t(5) us k(7) by (simp add: txn_has_def)
    ultimately show ?thesis using t(1,6,8,9,11) i(2) us pid by (intro exI [of _ t]) (simp add: txn_has_def)
  qed
qed


interpretation tx: txn_store "bread ROOTDEV" log_write brelse set_data "\<lambda>b s. bdata b s" txn_has txn_ok tstep blk disk bowner users logged
  "\<lambda>s. log_area (log_start s) (log_size s)" log_size my_pid "\<lambda>s. 1 \<le> outstanding s"
proof (unfold_locales, goal_cases)
  case (2 s t u)
  then show ?case by (rule tstep_trans)
next
  case (3 s t)
  then show ?case using tstep_sel [of s t] by simp
next
  case (4 b n s)
  then show ?case using has_buf_data [of b n s] by (auto simp: txn_has_def has_buf_def)
next
  case (5 s n)
  then show ?case by (simp add: txn_ok_def)
next
  case (6 s n)
  then show ?case by (simp add: txn_ok_def blk_length)
next
  case (7 s n)
  then show ?case by (rule txn_rd)
next
  case (8 s b n d t)
  then show ?case by (rule txn_put)
next
  case (9 s b n)
  then show ?case by (rule txn_lw)
next
  case (10 s b n)
  then show ?case by (rule txn_rel)
qed simp

end
