(* ===== verification/Bitmap.thy ===== *)
theory Bitmap
  imports Txn
begin

section \<open>Allocation of disk blocks\<close>

text \<open>
  \<^verbatim>\<open>balloc\<close> and \<^verbatim>\<open>bfree\<close> on a file system whose bitmap is one block, as \<^verbatim>\<open>mkfs\<close> makes it: the
  bitmap is the set of blocks in use, the log and the bitmap itself are in use, and the blocks
  that are not in use are not locked.
\<close>

subsection \<open>Bits of a block\<close>

definition bbit :: "block \<Rightarrow> nat \<Rightarrow> bool" where
  "bbit d n \<longleftrightarrow> d ! (n div 8) AND bit_mask n \<noteq> 0"

lemma bbit_bit: "bbit d n \<longleftrightarrow> bit (d ! (n div 8)) (n mod 8)"
  by (simp add: bbit_def bit_mask_def push_bit_eq_mult and_exp_eq_0_iff_not_bit)

lemma bit_bit_mask: "bit (bit_mask n) k \<longleftrightarrow> k = n mod 8"
proof -
  have "n mod 8 < 8" by simp
  then show ?thesis by (auto simp: bit_mask_def bit_simps push_bit_eq_mult bit_exp_iff)
qed

lemma first_clear_Some:
  "first_clear d i n = Some j \<longleftrightarrow> i \<le> j \<and> j < i + n \<and> \<not> bbit d j \<and> (\<forall>k. i \<le> k \<longrightarrow> k < j \<longrightarrow> bbit d k)"
proof (induction n arbitrary: i)
  case (Suc n)
  show ?case
  proof (cases "bbit d i")
    case False
    then show ?thesis by (auto simp: bbit_def not_less_eq_eq)
  next
    case True
    then have "first_clear d i (Suc n) = first_clear d (Suc i) n" by (simp add: bbit_def)
    then show ?thesis using Suc.IH [of "Suc i"] True by (auto simp: Suc_le_eq) (metis le_neq_implies_less)+
  qed
qed simp

lemma first_clear_None: "first_clear d i n = None \<longleftrightarrow> (\<forall>k. i \<le> k \<longrightarrow> k < i + n \<longrightarrow> bbit d k)"
proof (induction n arbitrary: i)
  case (Suc n)
  have "first_clear d i (Suc n) = None \<longleftrightarrow> bbit d i \<and> first_clear d (Suc i) n = None" by (simp add: bbit_def)
  then show ?case using Suc.IH [of "Suc i"] by (auto simp: Suc_le_eq) (metis le_neq_implies_less)
qed simp

lemma bbit_set:
  assumes "n < 8192" "m < 8192" "length d = BSIZE"
  shows "bbit (d[n div 8 := d ! (n div 8) OR bit_mask n]) m \<longleftrightarrow> m = n \<or> bbit d m"
    "bbit (d[n div 8 := d ! (n div 8) AND NOT (bit_mask n)]) m \<longleftrightarrow> m \<noteq> n \<and> bbit d m"
proof -
  have eq: "m = n \<longleftrightarrow> m div 8 = n div 8 \<and> m mod 8 = n mod 8" by (metis mult_div_mod_eq)
  have l: "n div 8 < 1024" "m mod 8 < 8" using assms(1) by auto
  show "bbit (d[n div 8 := d ! (n div 8) OR bit_mask n]) m \<longleftrightarrow> m = n \<or> bbit d m"
    unfolding bbit_bit eq using l assms(3) by (auto simp: nth_list_update bit_simps bit_bit_mask)
  show "bbit (d[n div 8 := d ! (n div 8) AND NOT (bit_mask n)]) m \<longleftrightarrow> m \<noteq> n \<and> bbit d m"
    unfolding bbit_bit eq using l assms(3) by (auto simp: nth_list_update bit_simps bit_bit_mask)
qed

subsection \<open>The file system's view of a state\<close>

lemma tstep_fs:
  assumes "tstep s t"
  shows "sb t = sb s" "inodes t = inodes s"
  using assms by (auto simp: tstep_def)

lemma upd_inode_sel [simp]:
  "blk (upd_inode i f s) = blk s" "bowner (upd_inode i f s) = bowner s" "users (upd_inode i f s) = users s"
  "logged (upd_inode i f s) = logged s" "txn_ok (upd_inode i f s) = txn_ok s" "log_size (upd_inode i f s) = log_size s"
  "log_start (upd_inode i f s) = log_start s" "outstanding (upd_inode i f s) = outstanding s" "sb (upd_inode i f s) = sb s"
  "disk (upd_inode i f s) = disk s"
proof -
  let ?t = "upd_inode i f s"
  have e: "bufs ?t = bufs s" "disk ?t = disk s" "lh ?t = lh s" "held ?t = held s" "procs ?t = procs s" "cur ?t = cur s"
    "log_dev ?t = log_dev s" by (simp_all add: upd_inode_def)
  show f: "log_size ?t = log_size s" "log_start ?t = log_start s" "outstanding ?t = outstanding s" "sb ?t = sb s" "disk ?t = disk s"
    by (simp_all add: upd_inode_def)
  note v = cache_view [OF e(1,2)]
  show g: "blk ?t = blk s" "bowner ?t = bowner s" "logged ?t = logged s" "users ?t = users s"
    using v e(3) by (simp_all add: logged_def users_def fun_eq_iff)
  show "txn_ok ?t = txn_ok s" using v(2,4) e f g by (simp add: txn_ok_def kio_def kenv_def log_inv_def)
qed

abbreviation bm :: "'a kfs_scheme \<Rightarrow> uint32" where
  "bm s \<equiv> sb_bmapstart (sb s)"

abbreviation log_blocks :: "'a klog_scheme \<Rightarrow> uint32 set" where
  "log_blocks s \<equiv> log_area (log_start s) (log_size s)"

abbreviation has_room :: "nat \<Rightarrow> 'a klog_scheme \<Rightarrow> bool" where
  "has_room k s \<equiv> room_for (log_size s) (logged s) (users s) k \<and> 1 \<le> outstanding s"

definition in_use :: "'a kfs_scheme \<Rightarrow> uint32 \<Rightarrow> bool" where
  "in_use s n \<longleftrightarrow> unat n < unat (sb_size (sb s)) \<longrightarrow> bbit (blk s (bm s)) (unat n)"

definition fs_ok :: "'a kfs_scheme \<Rightarrow> bool" where
  "fs_ok s \<longleftrightarrow> txn_ok s \<and> sb_size (sb s) \<le> BPB \<and> (\<forall>n\<in>log_blocks s. n < bm s) \<and> (\<forall>n. n \<le> bm s \<longrightarrow> in_use s n) \<and>
     bowner s (bm s) = None \<and> (\<forall>n. \<not> in_use s n \<longrightarrow> bowner s n = None)"

lemma fs_size: "fs_ok s \<Longrightarrow> unat (sb_size (sb s)) \<le> 8192"
  by (simp add: fs_ok_def word_le_nat_alt)

lemma not_in_use:
  assumes "fs_ok s" "\<not> in_use s n"
  shows "unat n < unat (sb_size (sb s))" "\<not> bbit (blk s (bm s)) (unat n)" "n \<notin> log_blocks s" "n \<noteq> bm s" "bowner s n = None" "bm s < n"
  using assms by (auto simp: fs_ok_def in_use_def not_le [symmetric])

text \<open>Changing blocks other than the bitmap.\<close>

lemma fs_ok_step:
  assumes "fs_ok s" "txn_ok t" "sb t = sb s" "log_start t = log_start s" "log_size t = log_size s" "bowner t = bowner s"
    "blk t (bm s) = blk s (bm s)"
  shows "fs_ok t" "in_use t = in_use s"
proof -
  show i: "in_use t = in_use s" using assms(3,7) by (simp add: in_use_def fun_eq_iff)
  show "fs_ok t" using assms i by (simp add: fs_ok_def)
qed

lemma bzero_ok:
  assumes "txn_ok s" "bowner s n = None" "n \<notin> log_blocks s" "has_room 1 s"
  shows "\<exists>t. bzero ROOTDEV n s = Ok t \<and> txn_ok t \<and> tstep s t \<and> blk t = (blk s)(n := replicate BSIZE 0) \<and> logged t = insert n (logged s) \<and>
    bowner t = bowner s \<and> users t = users s \<and> (\<forall>c m. m \<noteq> n \<longrightarrow> txn_has c m s \<longrightarrow> txn_has c m t)"
proof -
  obtain b t where t: "bread ROOTDEV n s = Ok (b, t)" "\<forall>d. length d = BSIZE \<longrightarrow> (\<exists>v w. log_write b (set_data b d t) = Ok v \<and>
      brelse b v = Ok w \<and> txn_ok w \<and> tstep s w \<and> blk w = (blk s)(n := d) \<and> logged w = insert n (logged s) \<and> bowner w = bowner s \<and> users w = users s \<and> disk w = disk s \<and> (\<forall>c m. m \<noteq> n \<longrightarrow> txn_has c m s \<longrightarrow> txn_has c m w))"
    using tx.modify [OF assms(1-3) conjunct1 [OF assms(4)] conjunct2 [OF assms(4)]] by blast
  obtain v w where "log_write b (set_data b (replicate BSIZE 0) t) = Ok v" "brelse b v = Ok w" "txn_ok w" "tstep s w"
    "blk w = (blk s)(n := replicate BSIZE 0)" "logged w = insert n (logged s)" "bowner w = bowner s" "users w = users s"
    "\<forall>c m. m \<noteq> n \<longrightarrow> txn_has c m s \<longrightarrow> txn_has c m w"
    using t(2) [rule_format, OF length_replicate] by blast
  then show ?thesis using t(1) by (intro exI [of _ w]) (simp add: bzero_def)
qed

definition mark :: "nat \<Rightarrow> block \<Rightarrow> block" where
  "mark n d = d[n div 8 := d ! (n div 8) OR bit_mask n]"

definition unmark :: "nat \<Rightarrow> block \<Rightarrow> block" where
  "unmark n d = d[n div 8 := d ! (n div 8) AND NOT (bit_mask n)]"

lemma length_mark [simp]: "length (mark n d) = length d" "length (unmark n d) = length d"
  by (simp_all add: mark_def unmark_def)

lemma balloc_rounds: "fs_ok s \<Longrightarrow> unat (sb_size (sb s)) \<noteq> 0 \<Longrightarrow> (unat (sb_size (sb s)) + unat BPB - 1) div unat BPB = 1"
  using fs_size [of s] by (simp add: div_nat_eqI)

lemma balloc_ok:
  assumes "fs_ok s" "has_room 2 s" "\<not> in_use s n"
  shows "\<exists>b t. balloc ROOTDEV s = Ok (b, t) \<and> \<not> in_use s b \<and> (\<forall>c<b. in_use s c) \<and> txn_ok t \<and> tstep s t \<and>
    blk t = (blk s)(bm s := mark (unat b) (blk s (bm s)), b := replicate BSIZE 0) \<and> logged t = insert b (insert (bm s) (logged s)) \<and>
    bowner t = bowner s \<and> users t = users s \<and> (\<forall>c m. m \<noteq> b \<longrightarrow> m \<noteq> bm s \<longrightarrow> txn_has c m s \<longrightarrow> txn_has c m t)"
proof -
  let ?d = "blk s (bm s)" and ?sz = "unat (sb_size (sb s))"
  note n = not_in_use [OF assms(1,3)]
  have f: "txn_ok s" "bowner s (bm s) = None" "bm s \<notin> log_blocks s" "?sz \<le> 8192" using assms(1) fs_size by (auto simp: fs_ok_def)
  have m: "min (unat BPB) (?sz - 0) = ?sz" using f(4) by simp
  obtain bi where bi: "first_clear ?d 0 ?sz = Some bi" using n(1,2) first_clear_None [of ?d 0 ?sz] by (cases "first_clear ?d 0 ?sz") auto
  then have b1: "bi < ?sz" "\<not> bbit ?d bi" "\<forall>k<bi. bbit ?d k" by (auto simp: first_clear_Some)
  define b :: uint32 where "b = of_nat bi"
  have ub: "unat b = bi" using b1(1) f(4) by (simp add: b_def unat_of_nat)
  have nb: "\<not> in_use s b" "\<forall>c<b. in_use s c" using b1 ub by (auto simp: in_use_def word_less_nat_alt)
  note bb = not_in_use [OF assms(1) nb(1)]
  obtain bp t where t: "bread ROOTDEV (bm s) s = Ok (bp, t)" "bdata bp t = ?d" "tstep s t" "\<forall>d. length d = BSIZE \<longrightarrow> (\<exists>v w. log_write bp (set_data bp d t) = Ok v \<and>
      brelse bp v = Ok w \<and> txn_ok w \<and> tstep s w \<and> blk w = (blk s)(bm s := d) \<and> logged w = insert (bm s) (logged s) \<and> bowner w = bowner s \<and> users w = users s \<and> disk w = disk s \<and> (\<forall>c m. m \<noteq> bm s \<longrightarrow> txn_has c m s \<longrightarrow> txn_has c m w))"
    using tx.modify [OF f(1-3) room_mono [OF conjunct1 [OF assms(2)]]] assms(2) by auto
  have "length (mark bi ?d) = BSIZE" using tx.view_length [OF f(1)] by simp
  then obtain v w where w: "log_write bp (set_data bp (mark bi ?d) t) = Ok v" "brelse bp v = Ok w" "txn_ok w" "tstep s w"
    "blk w = (blk s)(bm s := mark bi ?d)" "logged w = insert (bm s) (logged s)" "bowner w = bowner s" "users w = users s"
    "\<forall>c m. m \<noteq> bm s \<longrightarrow> txn_has c m s \<longrightarrow> txn_has c m w"
    using t(4) by blast
  note ws = tstep_sel [OF w(4)] and wf = tstep_fs [OF w(4)] and tf = tstep_fs [OF t(3)]
  have "has_room 1 w" using room_insert [of "log_size s" "logged s" "users s" 1 "bm s"] assms(2) w(6,8) ws(9,11) by (simp add: numeral_2_eq_2)
  then obtain x where x: "bzero ROOTDEV b w = Ok x" "txn_ok x" "tstep w x" "blk x = (blk w)(b := replicate BSIZE 0)" "logged x = insert b (logged w)"
    "bowner x = bowner w" "users x = users w" "\<forall>c m. m \<noteq> b \<longrightarrow> txn_has c m w \<longrightarrow> txn_has c m x"
    using bzero_ok [OF w(3), of b] bb(3,5) w(7) ws(8,9) by auto
  have "balloc_at ROOTDEV 0 s = Ok (Some b, x)"
    unfolding balloc_at_def Let_def using t(1,2) tf(1) bi w(1,2) x(1) m by (simp add: BBLOCK_def b_def mark_def)
  then have "balloc ROOTDEV s = Ok (b, x)"
    unfolding balloc_def using balloc_rounds [OF assms(1)] b1(1) by simp
  then show ?thesis using nb x w ub tstep_trans [OF w(4) x(3)] by (intro exI [of _ b] exI [of _ x]) simp
qed

text \<open>The file system after an allocation.\<close>

lemma fs_ok_mark:
  assumes "fs_ok s" "\<not> in_use s b" "txn_ok t" "sb t = sb s" "log_start t = log_start s" "log_size t = log_size s" "bowner t = bowner s"
    "blk t (bm s) = mark (unat b) (blk s (bm s))"
  shows "fs_ok t" "in_use t = (in_use s)(b := True)"
proof -
  have f: "txn_ok s" "unat (sb_size (sb s)) \<le> 8192" using assms(1) fs_size by (auto simp: fs_ok_def)
  have l: "length (blk s (bm s)) = BSIZE" by (rule tx.view_length [OF f(1)])
  note b = not_in_use [OF assms(1,2)]
  show i: "in_use t = (in_use s)(b := True)"
    using assms(4,8) b(1) f(2) bbit_set(1) [OF _ _ l, of "unat b"] by (auto simp: in_use_def fun_eq_iff mark_def word_unat_eq_iff)
  show "fs_ok t" using assms i b by (auto simp: fs_ok_def)
qed

lemma balloc_full:
  assumes "fs_ok s" "has_room 1 s" "\<forall>n. in_use s n"
  shows "balloc ROOTDEV s = Panic ''balloc: out of blocks''"
proof (cases "unat (sb_size (sb s)) = 0")
  case True
  then show ?thesis by (simp add: balloc_def)
next
  case False
  let ?d = "blk s (bm s)" and ?sz = "unat (sb_size (sb s))"
  have f: "txn_ok s" "bowner s (bm s) = None" "bm s \<notin> log_blocks s" "?sz \<le> 8192" using assms(1) fs_size by (auto simp: fs_ok_def)
  have "bbit ?d k" if "k < ?sz" for k
  proof -
    have "unat (of_nat k :: uint32) = k" using that f(4) by (simp add: unat_of_nat)
    then show ?thesis using assms(3) that by (auto simp: in_use_def dest!: spec [of _ "of_nat k"])
  qed
  then have fc: "first_clear ?d 0 ?sz = None" by (simp add: first_clear_None)
  obtain bp t u where t: "bread ROOTDEV (bm s) s = Ok (bp, t)" "bdata bp t = ?d" "tstep s t" "brelse bp t = Ok u"
    using tx.look [OF f(1-3) room_cache [OF conjunct1 [OF assms(2)]]] by blast
  have "balloc_at ROOTDEV 0 s = Ok (None, u)"
    unfolding balloc_at_def Let_def using t tstep_fs(1) [OF t(3)] fc f(4) by (simp add: BBLOCK_def)
  then show ?thesis unfolding balloc_def using balloc_rounds [OF assms(1) False] by simp
qed

lemma bfree_ok:
  assumes "fs_ok s" "has_room 1 s" "unat n < unat (sb_size (sb s))" "in_use s n"
  shows "\<exists>t. bfree ROOTDEV n s = Ok t \<and> txn_ok t \<and> tstep s t \<and> blk t = (blk s)(bm s := unmark (unat n) (blk s (bm s))) \<and>
    logged t = insert (bm s) (logged s) \<and> bowner t = bowner s \<and> users t = users s"
proof -
  let ?d = "blk s (bm s)"
  have f: "txn_ok s" "bowner s (bm s) = None" "bm s \<notin> log_blocks s" "unat (sb_size (sb s)) \<le> 8192" using assms(1) fs_size by (auto simp: fs_ok_def)
  have n: "n div 8192 = 0" "unat (n mod 8192) = unat n"
    using assms(3) f(4) by (simp_all add: unat_mod word_unat_eq_iff unat_div)
  have u: "?d ! (unat n div 8) AND bit_mask (unat n) \<noteq> 0" using assms(3,4) by (simp add: in_use_def bbit_def)
  obtain bp t where t: "bread ROOTDEV (bm s) s = Ok (bp, t)" "bdata bp t = ?d" "tstep s t" "\<forall>d. length d = BSIZE \<longrightarrow> (\<exists>v w. log_write bp (set_data bp d t) = Ok v \<and>
      brelse bp v = Ok w \<and> txn_ok w \<and> tstep s w \<and> blk w = (blk s)(bm s := d) \<and> logged w = insert (bm s) (logged s) \<and> bowner w = bowner s \<and> users w = users s \<and> disk w = disk s \<and> (\<forall>c m. m \<noteq> bm s \<longrightarrow> txn_has c m s \<longrightarrow> txn_has c m w))"
    using tx.modify [OF f(1-3) conjunct1 [OF assms(2)]] assms(2) by auto
  have "length (unmark (unat n) ?d) = BSIZE" using tx.view_length [OF f(1)] by simp
  then obtain v w where w: "log_write bp (set_data bp (unmark (unat n) ?d) t) = Ok v" "brelse bp v = Ok w" "txn_ok w" "tstep s w"
    "blk w = (blk s)(bm s := unmark (unat n) ?d)" "logged w = insert (bm s) (logged s)" "bowner w = bowner s" "users w = users s"
    using t(4) by blast
  then have "bfree ROOTDEV n s = Ok w"
    unfolding bfree_def Let_def using t(1,2) tstep_fs(1) [OF t(3)] u n by (simp add: BBLOCK_def unmark_def)
  then show ?thesis using w by (intro exI [of _ w]) simp
qed

lemma bfree_free:
  assumes "fs_ok s" "has_room 1 s" "\<not> in_use s n"
  shows "bfree ROOTDEV n s = Panic ''freeing free block''"
proof -
  have f: "txn_ok s" "bowner s (bm s) = None" "bm s \<notin> log_blocks s" "unat (sb_size (sb s)) \<le> 8192" using assms(1) fs_size by (auto simp: fs_ok_def)
  note b = not_in_use [OF assms(1,3)]
  have n: "n div 8192 = 0" "unat (n mod 8192) = unat n"
    using b(1) f(4) by (simp_all add: unat_mod word_unat_eq_iff unat_div)
  obtain bp t where t: "bread ROOTDEV (bm s) s = Ok (bp, t)" "bdata bp t = blk s (bm s)" "tstep s t"
    using tx.look [OF f(1-3) room_cache [OF conjunct1 [OF assms(2)]]] by blast
  then show ?thesis using tstep_fs(1) [OF t(3)] b(2) n by (simp add: bfree_def Let_def BBLOCK_def bbit_def)
qed

subsection \<open>A small file system\<close>

text \<open>A booted machine with 48 blocks of meta data and 52 blocks for files, none of them in use.\<close>

definition small_sb :: superblock where
  "small_sb = \<lparr>sb_magic = FSMAGIC, sb_size = 100, sb_nblocks = 52, sb_ninodes = 200, sb_nlog = 30, sb_logstart = 2, sb_inodestart = 32, sb_bmapstart = 47\<rparr>"

definition small_disk :: "uint32 \<Rightarrow> block" where
  "small_disk n = (if n = 47 then replicate 6 255 @ replicate 1018 0 else replicate BSIZE 0)"

definition small_fs :: "inode list \<Rightarrow> kfs" where
  "small_fs ips = (case binit (boot_klog small_disk) of Ok s \<Rightarrow> klog.extend s \<lparr>sb = small_sb, inodes = ips\<rparr>)"

lemma small_fs_txn:
  assumes "s = small_fs ips"
  shows "txn_ok s" "blk s = small_disk" "logged s = {}" "users s = (\<lambda>_. 0)" "bowner s = (\<lambda>_. None)" "outstanding s = 1"
    "log_start s = 2" "log_size s = 30" "sb s = small_sb" "inodes s = ips" "held s = []" "cur s = Some 0"
proof -
  have "length (small_disk n) = BSIZE" "get32 0 (small_disk 2) = 0" for n by (simp_all add: small_disk_def zero_head)
  then obtain r where r: "binit (boot_klog small_disk) = Ok r" "fresh r" "log_inv r" "blk r = small_disk" "disk r = small_disk" "bowner r = (\<lambda>_. None)"
    "held r = []" "cur r = Some 0" "log_start r = 2" "log_size r = 30" "outstanding r = 1" "lh_n (lh r) = 0"
    using booted_log [of small_disk] by auto
  have s: "s = klog.extend r \<lparr>sb = small_sb, inodes = ips\<rparr>" using assms r(1) by (simp add: small_fs_def)
  have e: "bufs s = bufs r" "disk s = disk r" "lh s = lh r" "held s = held r" "procs s = procs r" "cur s = cur r" "log_dev s = log_dev r"
    "log_start s = log_start r" "log_size s = log_size r" "outstanding s = outstanding r" "sb s = small_sb" "inodes s = ips"
    by (simp_all add: s klog.extend_def)
  note v = cache_view [OF e(1,2)]
  have b: "brefs r = (\<lambda>_. 0)" "kio r" "binv r" using r(2) by (simp_all add: fresh_def)
  show l: "logged s = {}" using e(3) r(12) by (simp add: logged_def)
  show u: "users s = (\<lambda>_. 0)" using v(2) b(1) by (simp add: users_def fun_eq_iff)
  show k: "blk s = small_disk" "bowner s = (\<lambda>_. None)" "outstanding s = 1" "log_start s = 2" "log_size s = 30" "sb s = small_sb" "inodes s = ips"
    "held s = []" "cur s = Some 0" using v(1,3) e r by simp_all
  have "log_inv s" using r(3) v(2) e by (simp add: log_inv_def)
  then show "txn_ok s" using b v(4) e k(1,2) r(5,7) u by (simp add: txn_ok_def kio_def kenv_def umax_def)
qed

lemma small_bits: "bbit (replicate 6 255 @ replicate 1018 0) k \<longleftrightarrow> k < 48" if "k < 100"
proof (cases "k < 48")
  case True
  then have "k div 8 < 6" by (simp add: div_less_iff_less_mult)
  moreover have "bit (255 :: uint8) (k mod 8)"
  proof -
    have "(255 :: uint8) = mask 8" by (simp add: mask_eq_exp_minus_1)
    then show ?thesis by (simp only: bit_mask_iff) simp
  qed
  ultimately show ?thesis using True by (simp add: bbit_bit nth_append)
next
  case False
  then have "6 \<le> k div 8" by (simp add: less_eq_div_iff_mult_less_eq)
  then show ?thesis using that False by (simp add: bbit_bit nth_append)
qed

lemma small_fs_ok:
  assumes "s = small_fs ips"
  shows "fs_ok s" "in_use s n \<longleftrightarrow> n \<le> 47 \<or> 100 \<le> n" "k \<le> 29 \<Longrightarrow> has_room k s"
proof -
  note t = small_fs_txn [OF assms]
  have u: "in_use s n \<longleftrightarrow> n \<le> 47 \<or> 100 \<le> n" for n
    using small_bits [of "unat n"] by (auto simp: in_use_def t small_sb_def small_disk_def word_le_nat_alt)
  show "in_use s n \<longleftrightarrow> n \<le> 47 \<or> 100 \<le> n" by (rule u)
  show "fs_ok s" using t u by (auto simp: fs_ok_def small_sb_def log_area_def word_less_nat_alt)
  show "has_room k s" if "k \<le> 29" using t that by (simp add: room_for_def)
qed

subsection \<open>Properties\<close>

text \<open>
  C6: \<^verbatim>\<open>balloc\<close> allocates the first free block.  In a transaction with room for two more blocks,
  on a file system whose bitmap is well formed, it panics if every block is in use; otherwise it
  returns the lowest block that is not in use, zeroes it, marks it in the bitmap, changes no other block and no
  block on disk, and leaves the file system well formed, and \<^verbatim>\<open>bfree\<close> then makes the block free again, with the
  bitmap as it was.
\<close>

theorem balloc_takes_first_free:
  assumes "fs_ok s" "has_room 3 s"
  shows "if \<forall>n. in_use s n then balloc ROOTDEV s = Panic ''balloc: out of blocks''
    else \<exists>b t u. balloc ROOTDEV s = Ok (b, t) \<and> \<not> in_use s b \<and> (\<forall>c<b. in_use s c) \<and> in_use t = (in_use s)(b := True) \<and>
      blk t b = replicate BSIZE 0 \<and> (\<forall>m. m \<noteq> b \<longrightarrow> m \<noteq> bm s \<longrightarrow> blk t m = blk s m) \<and> disk t = disk s \<and> fs_ok t \<and>
      logged t = logged s \<union> {b, bm s} \<and> bfree ROOTDEV b t = Ok u \<and> in_use u = in_use s \<and> disk u = disk s"
proof (cases "\<forall>n. in_use s n")
  case True
  then show ?thesis using balloc_full [OF assms(1)] room_mono [of _ _ _ 3 1] assms(2) by auto
next
  case False
  then obtain n where "\<not> in_use s n" by blast
  then obtain b t where t: "balloc ROOTDEV s = Ok (b, t)" "\<not> in_use s b" "\<forall>c<b. in_use s c" "txn_ok t" "tstep s t"
    "blk t = (blk s)(bm s := mark (unat b) (blk s (bm s)), b := replicate BSIZE 0)" "logged t = insert b (insert (bm s) (logged s))"
    "bowner t = bowner s" "users t = users s"
    using balloc_ok [OF assms(1)] room_mono [of _ _ _ 3 2] assms(2) by auto blast
  note ts = tstep_sel [OF t(5)] and tf = tstep_fs [OF t(5)] and b = not_in_use [OF assms(1) t(2)]
  have f: "fs_ok t" "in_use t = (in_use s)(b := True)"
    using fs_ok_mark [OF assms(1) t(2,4) tf(1) ts(8,9) t(8)] t(6) b(4) by auto
  have "room_for (log_size s) (insert b (insert (bm s) (logged s))) (users s) 1"
    using assms(2) by (auto intro!: room_insert simp: numeral_3_eq_3)
  then have "has_room 1 t" using t(7,9) ts(9,11) assms(2) by simp
  then obtain u where u: "bfree ROOTDEV b t = Ok u" "txn_ok u" "tstep t u" "blk u = (blk t)(bm t := unmark (unat b) (blk t (bm t)))"
    using bfree_ok [OF f(1), of b] f(2) b(1) tf(1) by auto
  have l: "length (blk s (bm s)) = BSIZE" using assms(1) tx.view_length by (auto simp: fs_ok_def)
  have "in_use u = in_use s"
    using u(4) tstep_fs(1) [OF u(3)] tf(1) t(6) b(1,2,4) fs_size [OF assms(1)] bbit_set [OF _ _ l, of "unat b"] l
      bbit_set(2) [of "unat b" _ "mark (unat b) (blk s (bm s))"]
    by (auto simp: in_use_def fun_eq_iff mark_def unmark_def word_unat_eq_iff)
  then show ?thesis using False t f u(1) b(4) ts(6) tstep_sel(6) [OF u(3)]
    by (auto intro!: exI [of _ b] exI [of _ t] exI [of _ u])
qed

theorem balloc_takes_first_free_witness:
  "\<exists>t u. balloc ROOTDEV (small_fs []) = Ok (48, t) \<and> in_use t 48 \<and> bfree ROOTDEV 48 t = Ok u \<and> \<not> in_use u 48"
proof -
  note f = small_fs_ok [OF refl, where ips = "[]"]
  have n: "\<not> in_use (small_fs []) 48" unfolding f(2) by simp
  obtain b t u where b: "balloc ROOTDEV (small_fs []) = Ok (b, t)" "\<not> in_use (small_fs []) b" "\<forall>c<b. in_use (small_fs []) c"
    "in_use t = (in_use (small_fs []))(b := True)" "bfree ROOTDEV b t = Ok u" "in_use u = in_use (small_fs [])"
    using balloc_takes_first_free [OF f(1) f(3)] n by (auto split: if_splits)
  have "b = 48" using b(2,3) n unfolding f(2) by (auto simp: not_less word_le_nat_alt word_less_nat_alt word_unat_eq_iff dest: spec [of _ 48])
  then show ?thesis using b n by (intro exI [of _ t] exI [of _ u]) simp
qed

end
