(* ===== verification/Dinode.thy ===== *)
theory Dinode
  imports Fs
begin

section \<open>Inodes on disk\<close>

text \<open>
  A \<^verbatim>\<open>struct dinode\<close> written by \<^verbatim>\<open>iupdate\<close> is read back by \<^verbatim>\<open>ilock\<close> as it was, and no other byte of
  the block changes.
\<close>

lemma get_at_put16_other:
  "off + 2 \<le> length d \<Longrightarrow> k + n \<le> length d \<Longrightarrow> k + n \<le> off \<or> off + 2 \<le> k \<Longrightarrow> get_at k n (put16 off w d) = get_at k n d"
  by (simp add: put16_def get_put_other)

lemma get_at_put32_other:
  "off + 4 \<le> length d \<Longrightarrow> k + n \<le> length d \<Longrightarrow> k + n \<le> off \<or> off + 4 \<le> k \<Longrightarrow> get_at k n (put32 off w d) = get_at k n d"
  by (simp add: put32_def get_put_other)

lemma put_addrs_at:
  assumes "off + 12 + 4 * n \<le> length d" "e = foldl (\<lambda>d i. put32 (off + 12 + 4 * i) (as ! i) d) d [0..<n]"
  shows "length e = length d \<and> (\<forall>i<n. get32 (off + 12 + 4 * i) e = as ! i) \<and>
    (\<forall>k m. k + m \<le> length d \<longrightarrow> k + m \<le> off + 12 \<or> off + 12 + 4 * n \<le> k \<longrightarrow> get_at k m e = get_at k m d)"
  using assms(1) unfolding assms(2)
proof (induction n)
  case (Suc n)
  define g where "g = foldl (\<lambda>d i. put32 (off + 12 + 4 * i) (as ! i) d) d [0..<n]"
  have g: "length g = length d" "\<forall>i<n. get32 (off + 12 + 4 * i) g = as ! i"
    "\<forall>k m. k + m \<le> length d \<longrightarrow> k + m \<le> off + 12 \<or> off + 12 + 4 * n \<le> k \<longrightarrow> get_at k m g = get_at k m d"
    using Suc unfolding g_def by auto
  let ?e = "put32 (off + 12 + 4 * n) (as ! n) g"
  have "get32 (off + 12 + 4 * i) ?e = as ! i" if "i < Suc n" for i
  proof (cases "i = n")
    case True
    then show ?thesis using g(1) Suc.prems by simp
  next
    case False
    then have "get32 (off + 12 + 4 * i) ?e = get32 (off + 12 + 4 * i) g"
      using g(1) Suc.prems that by (intro get32_put32_other) auto
    then show ?thesis using g(2) False that by simp
  qed
  moreover have "get_at k m ?e = get_at k m d" if "k + m \<le> length d" "k + m \<le> off + 12 \<or> off + 12 + 4 * Suc n \<le> k" for k m
    using get_at_put32_other [of "off + 12 + 4 * n" g k m] g Suc.prems that by auto
  ultimately show ?case using g(1) Suc.prems by (simp add: g_def [symmetric])
qed simp

lemma put_dinode_length:
  assumes "off + 64 \<le> length d"
  shows "length (put_dinode off ip d) = length d"
  using put_addrs_at [OF _ refl, of off "Suc NDIRECT"] assms by (simp add: put_dinode_def put_addrs_def)

lemma put_dinode_other:
  assumes "off + 64 \<le> length d" "k + n \<le> length d" "k + n \<le> off \<or> off + 64 \<le> k"
  shows "get_at k n (put_dinode off ip d) = get_at k n d"
proof -
  define e where "e = put32 (off + 8) (i_size ip) (put16 (off + 6) (i_nlink ip) (put16 (off + 4) (i_minor ip)
         (put16 (off + 2) (i_major ip) (put16 off (i_type ip) d))))"
  have l: "length e = length d" using assms(1) by (simp add: e_def)
  have pd: "put_dinode off ip d = put_addrs off (i_addrs ip) e" by (simp only: put_dinode_def e_def)
  have "get_at k n (put_dinode off ip d) = get_at k n e"
    using put_addrs_at [OF _ refl, of off "Suc NDIRECT" e "i_addrs ip"] assms l by (auto simp: pd put_addrs_def)
  also have "\<dots> = get_at k n d" unfolding e_def
    using assms(3,1,2) by (elim disjE) (simp_all add: get_at_put32_other get_at_put16_other)
  finally show ?thesis .
qed

lemma get_put_dinode:
  assumes "off + 64 \<le> length d" "length (i_addrs ip) = Suc NDIRECT"
  shows "get_dinode off (put_dinode off ip d) jp = jp\<lparr>i_type := i_type ip, i_major := i_major ip, i_minor := i_minor ip,
    i_nlink := i_nlink ip, i_size := i_size ip, i_addrs := i_addrs ip\<rparr>"
proof -
  define e where "e = put32 (off + 8) (i_size ip) (put16 (off + 6) (i_nlink ip) (put16 (off + 4) (i_minor ip)
         (put16 (off + 2) (i_major ip) (put16 off (i_type ip) d))))"
  have l: "length e = length d" using assms(1) by (simp add: e_def)
  have pd: "put_dinode off ip d = put_addrs off (i_addrs ip) e" by (simp only: put_dinode_def e_def)
  note p = put_addrs_at [OF _ refl, of off "Suc NDIRECT" e "i_addrs ip"]
  have a: "get_addrs off (put_dinode off ip d) = i_addrs ip"
    using p assms l by (intro nth_equalityI) (simp_all add: pd put_addrs_def get_addrs_def del: upt_Suc)
  have f: "get_at k n (put_dinode off ip d) = get_at k n e" if "k + n \<le> off + 12" for k n
    using p that assms(1) l by (auto simp: pd put_addrs_def)
  have "get16 off e = i_type ip" "get16 (off + 2) e = i_major ip" "get16 (off + 4) e = i_minor ip" "get16 (off + 6) e = i_nlink ip"
    "get32 (off + 8) e = i_size ip"
    unfolding get16_def get32_def e_def using assms(1)
    by (simp_all add: get_at_put32_other get_at_put16_other) (simp_all add: put16_def put32_def)
  then show ?thesis using a f by (simp add: get_dinode_def get16_def get32_def)
qed

lemma din_off_bound: "din_off inum + 64 \<le> BSIZE"
proof -
  have "unat (inum mod 16) < 16" by (simp add: unat_mod)
  then show ?thesis by (simp add: din_off_def)
qed

lemma din_off_apart: "inum mod IPB \<noteq> jnum mod IPB \<Longrightarrow> din_off jnum + 64 \<le> din_off inum \<or> din_off inum + 64 \<le> din_off jnum"
proof -
  assume "inum mod IPB \<noteq> jnum mod IPB"
  then have "unat (inum mod IPB) \<noteq> unat (jnum mod IPB)" by (simp add: word_unat_eq_iff)
  then show ?thesis unfolding din_off_def by linarith
qed

text \<open>Other inodes of the block.\<close>

lemma get_dinode_other:
  assumes "length d = BSIZE" "inum mod IPB \<noteq> jnum mod IPB"
  shows "get_dinode (din_off jnum) (put_dinode (din_off inum) ip d) jp = get_dinode (din_off jnum) d jp"
proof -
  have g: "get_at (din_off jnum + k) n (put_dinode (din_off inum) ip d) = get_at (din_off jnum + k) n d" if "k + n \<le> 64" for k n
    using put_dinode_other [of "din_off inum" d "din_off jnum + k" n ip] din_off_bound [of inum] din_off_bound [of jnum] din_off_apart [OF assms(2)] that assms(1)
    by auto
  have "get_addrs (din_off jnum) (put_dinode (din_off inum) ip d) = get_addrs (din_off jnum) d"
    unfolding get_addrs_def get32_def using g by (intro map_cong) (auto simp: add.assoc simp del: upt_Suc)
  moreover have "get16 (din_off jnum) (put_dinode (din_off inum) ip d) = get16 (din_off jnum) d" using g [of 0 2] by (simp add: get16_def)
  ultimately show ?thesis using g [of 2 2] g by (simp add: get_dinode_def get16_def get32_def)
qed
end
