(* ===== verification/Filedata.thy ===== *)
theory Filedata
  imports Bitmap Dinode Usercopy
begin

section \<open>The contents of a file\<close>

text \<open>
  An inode and its blocks are a sequence of bytes: \<^verbatim>\<open>bmap\<close> finds or allocates the block of an
  offset without changing the bytes, \<^verbatim>\<open>writei\<close> overwrites and extends the sequence, \<^verbatim>\<open>readi\<close>
  returns a part of it, and no other file changes.
\<close>

subsection \<open>The blocks of an inode\<close>

text \<open>
  Block \<open>k\<close> of the file for \<open>k < MAXFILE\<close>, and its indirect block for \<open>k = MAXFILE\<close>; 0 if it has
  none.
\<close>

definition fa :: "'a kfs_scheme \<Rightarrow> nat \<Rightarrow> nat \<Rightarrow> uint32" where
  "fa s i k = (let as = i_addrs (inodes s ! i) in
     if k < NDIRECT then as ! k else if k = MAXFILE then as ! NDIRECT
     else if as ! NDIRECT = 0 then 0 else get32 (4 * (k - NDIRECT)) (blk s (as ! NDIRECT)))"

definition fblocks :: "'a kfs_scheme \<Rightarrow> nat \<Rightarrow> uint32 set" where
  "fblocks s i = fa s i ` {..MAXFILE} - {0}"

abbreviation iblock :: "'a kfs_scheme \<Rightarrow> nat \<Rightarrow> uint32" where
  "iblock s i \<equiv> IBLOCK (i_inum (inodes s ! i)) (sb s)"

definition data_ok :: "'a kfs_scheme \<Rightarrow> uint32 \<Rightarrow> bool" where
  "data_ok s a \<longleftrightarrow> bm s < a \<and> unat a < unat (sb_size (sb s)) \<and> in_use s a \<and> bowner s a = None"

definition addrs_ok :: "'a kfs_scheme \<Rightarrow> nat \<Rightarrow> bool" where
  "addrs_ok s i \<longleftrightarrow> i < length (inodes s) \<and> i_dev (inodes s ! i) = ROOTDEV \<and> length (i_addrs (inodes s ! i)) = Suc NDIRECT \<and>
     (\<forall>a\<in>fblocks s i. data_ok s a) \<and> (\<forall>j\<le>MAXFILE. \<forall>k\<le>MAXFILE. fa s i j = fa s i k \<longrightarrow> fa s i j \<noteq> 0 \<longrightarrow> j = k)"

definition file_ok :: "'a kfs_scheme \<Rightarrow> nat \<Rightarrow> bool" where
  "file_ok s i \<longleftrightarrow> addrs_ok s i \<and> unat (i_size (inodes s ! i)) \<le> MAXFILE * BSIZE \<and>
     (\<forall>k<MAXFILE. k * BSIZE < unat (i_size (inodes s ! i)) \<longrightarrow> fa s i k \<noteq> 0) \<and>
     iblock s i < bm s \<and> iblock s i \<notin> log_blocks s \<and> bowner s (iblock s i) = None"

definition fbyte :: "'a kfs_scheme \<Rightarrow> nat \<Rightarrow> nat \<Rightarrow> uint8" where
  "fbyte s i k = (if fa s i (k div BSIZE) = 0 then 0 else blk s (fa s i (k div BSIZE)) ! (k mod BSIZE))"

definition free_blocks :: "'a kfs_scheme \<Rightarrow> uint32 set" where
  "free_blocks s = {n. \<not> in_use s n}"

lemma fa_in: "k \<le> MAXFILE \<Longrightarrow> fa s i k \<noteq> 0 \<Longrightarrow> fa s i k \<in> fblocks s i"
  by (simp add: fblocks_def)

lemma fa_data: "addrs_ok s i \<Longrightarrow> k \<le> MAXFILE \<Longrightarrow> fa s i k \<noteq> 0 \<Longrightarrow> data_ok s (fa s i k)"
  using fa_in [of k s i] by (simp add: addrs_ok_def)

lemma fa_inj: "addrs_ok s i \<Longrightarrow> j \<le> MAXFILE \<Longrightarrow> k \<le> MAXFILE \<Longrightarrow> fa s i j = fa s i k \<Longrightarrow> fa s i j \<noteq> 0 \<Longrightarrow> j = k"
  by (simp add: addrs_ok_def)

lemma data_okD:
  assumes "fs_ok s" "data_ok s a"
  shows "a \<noteq> bm s" "a \<notin> log_blocks s" "in_use s a" "bowner s a = None" "bm s < a"
  using assms by (auto simp: data_ok_def fs_ok_def)

lemma fa_direct: "k < NDIRECT \<Longrightarrow> fa s i k = i_addrs (inodes s ! i) ! k" "fa s i MAXFILE = i_addrs (inodes s ! i) ! NDIRECT"
  "NDIRECT \<le> k \<Longrightarrow> k < MAXFILE \<Longrightarrow> fa s i MAXFILE \<noteq> 0 \<Longrightarrow> fa s i k = get32 (4 * (k - NDIRECT)) (blk s (fa s i MAXFILE))"
  "NDIRECT \<le> k \<Longrightarrow> k < MAXFILE \<Longrightarrow> fa s i MAXFILE = 0 \<Longrightarrow> fa s i k = 0"
  by (simp_all add: fa_def Let_def)

lemma fa_max: "fa s i 268 = i_addrs (inodes s ! i) ! NDIRECT"
  by (simp add: fa_def Let_def)

lemma fa_cong:
  assumes "i_addrs (inodes t ! i) = i_addrs (inodes s ! i)" "fa s i MAXFILE \<noteq> 0 \<Longrightarrow> blk t (fa s i MAXFILE) = blk s (fa s i MAXFILE)"
  shows "fa t i k = fa s i k"
  using assms by (auto simp: fa_def Let_def)

text \<open>Steps on the file: they may add blocks, and change the blocks of the file and the bitmap only.\<close>

definition fchg :: "nat \<Rightarrow> 'a kfs_scheme \<Rightarrow> 'a kfs_scheme \<Rightarrow> bool" where
  "fchg i s t \<longleftrightarrow> fs_ok t \<and> addrs_ok t i \<and> (\<exists>as. tstep (upd_inode i (\<lambda>ip. ip\<lparr>i_addrs := as\<rparr>) s) t) \<and> bowner t = bowner s \<and> users t = users s \<and>
     (\<forall>m. in_use s m \<longrightarrow> in_use t m) \<and> fblocks t i \<subseteq> fblocks s i \<union> free_blocks s \<and>
     (\<forall>m. in_use s m \<longrightarrow> m \<noteq> bm s \<longrightarrow> m \<notin> fblocks s i \<longrightarrow> blk t m = blk s m) \<and>
     (\<forall>k\<le>MAXFILE. fa s i k \<noteq> 0 \<longrightarrow> fa t i k = fa s i k)"

lemma tstep_upd: "tstep s t \<Longrightarrow> tstep (upd_inode i f s) (upd_inode i f t)"
proof -
  assume "tstep s t"
  then obtain bs ps h where "t = s\<lparr>procs := ps, bufs := bs, lh := h\<rparr>" "woken (procs s) ps" unfolding tstep_def by blast
  then show ?thesis unfolding tstep_def
    by (intro exI [of _ bs] exI [of _ ps] exI [of _ h]) (simp add: upd_inode_def)
qed

lemma upd_inode_twice: "i < length (inodes s) \<Longrightarrow> upd_inode i f (upd_inode i g s) = upd_inode i (\<lambda>ip. f (g ip)) s"
  by (simp add: upd_inode_def)

lemma fchg_frame:
  assumes "fchg i s t"
  shows "sb t = sb s" "log_start t = log_start s" "log_size t = log_size s" "outstanding t = outstanding s" "disk t = disk s"
    "held t = held s" "cur t = cur s" "mem t = mem s" "freelist t = freelist s" "kend t = kend s" "woken (procs s) (procs t)"
    "length (inodes t) = length (inodes s)" "\<And>j. j \<noteq> i \<Longrightarrow> inodes t ! j = inodes s ! j"
    "i < length (inodes s) \<Longrightarrow> \<exists>as. inodes t ! i = (inodes s ! i)\<lparr>i_addrs := as\<rparr>"
    "dwrites t = dwrites s"
proof -
  obtain as where "tstep (upd_inode i (\<lambda>ip. ip\<lparr>i_addrs := as\<rparr>) s) t" using assms by (auto simp: fchg_def)
  note a = tstep_sel [OF this] tstep_fs [OF this]
  show "sb t = sb s" "log_start t = log_start s" "log_size t = log_size s" "outstanding t = outstanding s" "disk t = disk s"
    "held t = held s" "cur t = cur s" "mem t = mem s" "freelist t = freelist s" "kend t = kend s" "woken (procs s) (procs t)"
    "length (inodes t) = length (inodes s)" "\<And>j. j \<noteq> i \<Longrightarrow> inodes t ! j = inodes s ! j" "dwrites t = dwrites s"
    using a by (simp_all add: upd_inode_def)
  show "i < length (inodes s) \<Longrightarrow> \<exists>as. inodes t ! i = (inodes s ! i)\<lparr>i_addrs := as\<rparr>"
    using a(16) by (auto simp: upd_inode_def)
qed

lemma fchg_refl: "fs_ok s \<Longrightarrow> addrs_ok s i \<Longrightarrow> fchg i s s"
proof -
  assume a: "fs_ok s" "addrs_ok s i"
  have "upd_inode i (\<lambda>ip. ip\<lparr>i_addrs := i_addrs (inodes s ! i)\<rparr>) s = s" by (simp add: upd_inode_def)
  then have "tstep (upd_inode i (\<lambda>ip. ip\<lparr>i_addrs := i_addrs (inodes s ! i)\<rparr>) s) s" by simp
  then show ?thesis using a by (auto simp: fchg_def)
qed

lemma fchg_trans:
  assumes "fchg i s t" "fchg i t u" "i < length (inodes s)"
  shows "fchg i s u"
proof -
  obtain as bs where "tstep (upd_inode i (\<lambda>ip. ip\<lparr>i_addrs := as\<rparr>) s) t" "tstep (upd_inode i (\<lambda>ip. ip\<lparr>i_addrs := bs\<rparr>) t) u"
    using assms by (auto simp: fchg_def)
  then have "tstep (upd_inode i (\<lambda>ip. ip\<lparr>i_addrs := bs\<rparr>) (upd_inode i (\<lambda>ip. ip\<lparr>i_addrs := as\<rparr>) s)) u"
    using tstep_upd tstep_trans by blast
  then have "\<exists>as. tstep (upd_inode i (\<lambda>ip. ip\<lparr>i_addrs := as\<rparr>) s) u" using assms(3) by (auto simp: upd_inode_twice)
  moreover have "blk u m = blk s m" if "in_use s m" "m \<noteq> bm s" "m \<notin> fblocks s i" for m
  proof -
    have "in_use t m" "m \<notin> fblocks t i" "m \<noteq> bm t" "blk t m = blk s m"
      using assms(1) that fchg_frame(1) [OF assms(1)] by (auto simp: fchg_def free_blocks_def)
    then show ?thesis using assms(2) by (simp add: fchg_def)
  qed
  moreover have "fblocks u i \<subseteq> fblocks s i \<union> free_blocks s" using assms(1,2) by (auto simp: fchg_def free_blocks_def)
  ultimately show ?thesis using assms(1,2) by (auto simp: fchg_def)
qed
subsection \<open>Allocating blocks of the file\<close>

lemma get32_zeros: "get32 k (replicate BSIZE 0) = 0"
  by (simp add: get32_def get_at_def)

lemma fchgI:
  assumes "fs_ok s" "addrs_ok s i" "fs_ok u" "tstep (upd_inode i (\<lambda>ip. ip\<lparr>i_addrs := as\<rparr>) s) u" "length as = Suc NDIRECT"
    "bowner u = bowner s" "users u = users s" "in_use u = (in_use s)(a := True)" "\<not> in_use s a" "k \<le> MAXFILE"
    "\<And>k'. k' \<le> MAXFILE \<Longrightarrow> fa u i k' = (if k' = k then a else fa s i k')" "fa s i k = 0"
    "\<And>m. m \<noteq> a \<Longrightarrow> m \<noteq> bm s \<Longrightarrow> m \<notin> fblocks s i \<Longrightarrow> blk u m = blk s m"
  shows "fchg i s u" "free_blocks u = free_blocks s - {a}"
proof -
  note n = not_in_use [OF assms(1,9)] and t = tstep_sel [OF assms(4)] tstep_fs [OF assms(4)]
  have a0: "a \<noteq> 0" using n(6) by auto
  have i: "i < length (inodes s)" "i_dev (inodes s ! i) = ROOTDEV" using assms(2) by (simp_all add: addrs_ok_def)
  have fb: "fblocks u i \<subseteq> insert a (fblocks s i)" using assms(11) by (auto simp: fblocks_def)
  have d: "data_ok u x" if "x = a \<or> data_ok s x" for x using that n assms(6,8) t by (auto simp: data_ok_def)
  have "\<forall>x\<in>fblocks u i. data_ok u x" using fb d assms(2) by (auto simp: addrs_ok_def)
  moreover have "l = m" if "l \<le> MAXFILE" "m \<le> MAXFILE" "fa u i l = fa u i m" "fa u i l \<noteq> 0" for l m
  proof -
    have x: "fa s i x \<noteq> a" if "x \<le> MAXFILE" for x using fa_data [OF assms(2) that] a0 assms(9) by (auto simp: data_ok_def)
    show ?thesis using that assms(11) [OF that(1)] assms(11) [OF that(2)] x fa_inj [OF assms(2) that(1,2)] by (auto split: if_splits)
  qed
  ultimately have ad: "addrs_ok u i" unfolding addrs_ok_def using i t assms(5) by (auto simp: upd_inode_def)
  have "fblocks u i \<subseteq> fblocks s i \<union> free_blocks s" using fb assms(9) by (auto simp: free_blocks_def)
  moreover have "blk u m = blk s m" if "in_use s m" "m \<noteq> bm s" "m \<notin> fblocks s i" for m using assms(13) [of m] assms(9) that by auto
  moreover have "\<forall>l\<le>MAXFILE. fa s i l \<noteq> 0 \<longrightarrow> fa u i l = fa s i l" using assms(11,12) by auto
  ultimately show "fchg i s u" unfolding fchg_def using assms(3,4,6-8) ad by auto
  show "free_blocks u = free_blocks s - {a}" using assms(8) by (auto simp: free_blocks_def)
qed

lemma slot_alloc:
  assumes "fs_ok s" "addrs_ok s i" "has_room 2 s" "free_blocks s \<noteq> {}" "j \<le> NDIRECT" "k = (if j < NDIRECT then j else MAXFILE)" "fa s i k = 0"
  shows "\<exists>a t u. balloc ROOTDEV s = Ok (a, t) \<and> u = upd_inode i (\<lambda>ip. ip\<lparr>i_addrs := (i_addrs ip)[j := a]\<rparr>) t \<and> fchg i s u \<and>
    (\<forall>k'\<le>MAXFILE. fa u i k' = (if k' = k then a else fa s i k')) \<and> a \<noteq> 0 \<and> \<not> in_use s a \<and> blk u a = replicate BSIZE 0 \<and>
    (\<forall>m. m \<noteq> a \<longrightarrow> m \<noteq> bm s \<longrightarrow> blk u m = blk s m) \<and> logged u = logged s \<union> {a, bm s} \<and> free_blocks u = free_blocks s - {a}"
proof -
  obtain n where "\<not> in_use s n" using assms(4) by (auto simp: free_blocks_def)
  then obtain a t where t: "balloc ROOTDEV s = Ok (a, t)" "\<not> in_use s a" "txn_ok t" "tstep s t"
    "blk t = (blk s)(bm s := mark (unat a) (blk s (bm s)), a := replicate BSIZE 0)" "logged t = insert a (insert (bm s) (logged s))"
    "bowner t = bowner s" "users t = users s"
    using balloc_ok [OF assms(1,3)] by blast
  note ts = tstep_sel [OF t(4)] and tf = tstep_fs [OF t(4)] and n = not_in_use [OF assms(1) t(2)]
  have i: "i < length (inodes s)" "length (i_addrs (inodes s ! i)) = Suc NDIRECT" using assms(2) by (simp_all add: addrs_ok_def)
  define u where "u = upd_inode i (\<lambda>ip. ip\<lparr>i_addrs := (i_addrs ip)[j := a]\<rparr>) t"
  define as where "as = (i_addrs (inodes s ! i))[j := a]"
  have u: "blk u = blk t" "txn_ok u" "sb u = sb s" "log_start u = log_start s" "log_size u = log_size s" "bowner u = bowner s" "users u = users s"
    "logged u = logged t" "i_addrs (inodes u ! i) = as" "length as = Suc NDIRECT"
    using t(3,7,8) tf ts i by (simp_all add: u_def as_def) (simp_all add: upd_inode_def)
  have e: "upd_inode i (\<lambda>ip. ip\<lparr>i_addrs := (i_addrs ip)[j := a]\<rparr>) s = upd_inode i (\<lambda>ip. ip\<lparr>i_addrs := as\<rparr>) s"
    by (simp add: upd_inode_def as_def)
  have st: "tstep (upd_inode i (\<lambda>ip. ip\<lparr>i_addrs := as\<rparr>) s) u" using tstep_upd [OF t(4)] unfolding u_def e [symmetric] by blast
  have f: "fs_ok u" "in_use u = (in_use s)(a := True)"
    using fs_ok_mark [OF assms(1) t(2) u(2-6)] t(5) u(1) n(4) by auto
  have ind: "blk u (fa s i MAXFILE) = blk s (fa s i MAXFILE)" if "fa s i MAXFILE \<noteq> 0"
    using data_okD(1,3) [OF assms(1) fa_data [OF assms(2) _ that]] t(2,5) u(1) by auto
  have fa: "fa u i k' = (if k' = k then a else fa s i k')" if "k' \<le> MAXFILE" for k'
  proof (cases "j < NDIRECT")
    case True
    then have "fa u i MAXFILE = fa s i MAXFILE" using u(9) by (simp add: fa_max as_def)
    then show ?thesis using that True assms(6) u(9,10) ind i(2)
      by (cases "fa s i MAXFILE = 0") (auto simp: fa_def Let_def as_def nth_list_update split: if_splits)
  next
    case False
    then have j: "j = NDIRECT" "k = MAXFILE" using assms(5,6) by auto
    then have "fa u i MAXFILE = a" using u(9) i(2) by (simp add: fa_max as_def)
    moreover have "blk u a = replicate BSIZE 0" using t(5) u(1) by simp
    ultimately show ?thesis using that j assms(7) u(9) get32_zeros i(2) by (auto simp: fa_def Let_def as_def)
  qed
  have k: "k \<le> MAXFILE" using assms(5,6) by auto
  have bl: "blk u m = blk s m" if "m \<noteq> a" "m \<noteq> bm s" for m using that t(5) u(1) by simp
  note c = fchgI [OF assms(1,2) f(1) st u(10,6,7) f(2) t(2) k fa assms(7) bl]
  have "a \<noteq> 0" using n(6) by auto
  moreover have "logged u = logged s \<union> {a, bm s}" using t(6) u(8) by auto
  moreover have "blk u a = replicate BSIZE 0" using t(5) u(1) by simp
  moreover have "\<forall>k'\<le>MAXFILE. fa u i k' = (if k' = k then a else fa s i k')" "\<forall>m. m \<noteq> a \<longrightarrow> m \<noteq> bm s \<longrightarrow> blk u m = blk s m"
    using fa bl by simp_all
  moreover note t(1,2) c u_def
  ultimately show ?thesis by (intro exI conjI)
qed

text \<open>An entry of the indirect block.\<close>

lemma ind_alloc:
  assumes "fs_ok s" "addrs_ok s i" "has_room 3 s" "free_blocks s \<noteq> {}" "NDIRECT \<le> k" "k < MAXFILE" "fa s i MAXFILE \<noteq> 0" "fa s i k = 0"
  shows "\<exists>b t a u v w. bread ROOTDEV (fa s i MAXFILE) s = Ok (b, t) \<and> bdata b t = blk s (fa s i MAXFILE) \<and> inodes t = inodes s \<and>
    balloc ROOTDEV t = Ok (a, u) \<and> log_write b (set_data b (put32 (4 * (k - NDIRECT)) a (bdata b u)) u) = Ok v \<and> brelse b v = Ok w \<and>
    fchg i s w \<and> (\<forall>k'\<le>MAXFILE. fa w i k' = (if k' = k then a else fa s i k')) \<and> a \<noteq> 0 \<and> \<not> in_use s a \<and> blk w a = replicate BSIZE 0 \<and>
    (\<forall>m. m \<noteq> a \<longrightarrow> m \<noteq> bm s \<longrightarrow> m \<noteq> fa s i MAXFILE \<longrightarrow> blk w m = blk s m) \<and> logged w = logged s \<union> {a, bm s, fa s i MAXFILE} \<and>
    free_blocks w = free_blocks s - {a} \<and> tstep s w"
proof -
  let ?n = "fa s i MAXFILE" and ?o = "4 * (k - NDIRECT)"
  have ok: "txn_ok s" using assms(1) by (simp add: fs_ok_def)
  note nd = data_okD [OF assms(1) fa_data [OF assms(2) order_refl assms(7)]]
  have "cache_room (logged s) (users s) 1" by (rule room_cache [OF room_mono [OF conjunct1 [OF assms(3)]]]) simp
  then obtain b t where t: "bread ROOTDEV ?n s = Ok (b, t)" "txn_has b ?n t" "txn_ok t" "tstep s t" "blk t = blk s" "logged t = logged s"
    "bowner t = (bowner s)(?n := Some (my_pid s))" "users t = (users s)(?n := Suc (users s ?n))"
    using tx.rd [OF ok nd(4,2)] by blast
  note ts = tstep_sel [OF t(4)] tstep_fs [OF t(4)]
  have iu: "in_use t = in_use s" using t(5) ts by (simp add: in_use_def fun_eq_iff)
  have ft: "fs_ok t" using assms(1) t(3,7) iu ts nd by (auto simp: fs_ok_def)
  have r2: "has_room 2 t" using room_hold [of _ _ _ 2] assms(3) t(6,8) ts by (simp add: numeral_3_eq_3 numeral_2_eq_2)
  obtain m where "\<not> in_use t m" using assms(4) iu by (auto simp: free_blocks_def)
  then obtain a u where u: "balloc ROOTDEV t = Ok (a, u)" "\<not> in_use t a" "txn_ok u" "tstep t u"
    "blk u = (blk t)(bm t := mark (unat a) (blk t (bm t)), a := replicate BSIZE 0)" "logged u = insert a (insert (bm t) (logged t))"
    "bowner u = bowner t" "users u = users t" "\<forall>c m. m \<noteq> a \<longrightarrow> m \<noteq> bm t \<longrightarrow> txn_has c m t \<longrightarrow> txn_has c m u"
    using balloc_ok [OF ft r2] by blast
  note us = tstep_sel [OF u(4)] tstep_fs [OF u(4)] and an = not_in_use [OF ft u(2)]
  have a: "a \<noteq> ?n" "a \<noteq> bm s" "\<not> in_use s a" "a \<noteq> 0" using u(2) nd(3) iu an(4,6) ts by auto
  have hu: "txn_has b ?n u" using u(9) t(2) a(1) nd(1) ts by auto
  have bd: "bdata b u = blk s ?n" using tx.data [OF hu] u(5) t(5) a(1) nd(1) ts by simp
  define d where "d = put32 ?o a (blk s ?n)"
  have l: "length (blk s ?n) = BSIZE" by (rule tx.view_length [OF ok])
  have o: "?o + 4 \<le> BSIZE" using assms(5,6) by simp
  define p where "p = set_data b d u"
  have "length d = BSIZE" using l o by (simp add: d_def)
  then have p: "txn_has b ?n p" "txn_ok p" "tstep u p" "blk p = (blk u)(?n := d)" "logged p = logged u" "bowner p = bowner u" "users p = users u"
    using tx.put [OF u(3) hu _ p_def] by auto
  note ps = tstep_sel [OF p(3)] tstep_fs [OF p(3)]
  have "room_for (log_size s) (insert a (insert (bm s) (logged s))) (users s) 1" using assms(3) by (auto intro!: room_insert simp: numeral_3_eq_3)
  then have "log_room (log_size p) (logged p)" using room_log p(5) u(6) t(6) ps us ts by simp
  then obtain v where v: "log_write b p = Ok v" "txn_has b ?n v" "txn_ok v" "tstep p v" "blk v = blk p" "logged v = insert ?n (logged p)"
    "bowner v = bowner p" "users v = users p"
    using tx.lw [OF p(2,1)] nd(2) assms(3) ps us ts by auto
  obtain w where w: "brelse b v = Ok w" "txn_ok w" "tstep v w" "blk w = blk v" "logged w = logged v" "bowner w = (bowner v)(?n := None)"
    "users w = (users v)(?n := users v ?n - 1)"
    using tx.rel [OF v(3,2)] v(6) by blast
  have sw: "tstep s w" using tstep_trans t(4) u(4) p(3) v(4) w(3) by blast
  note ws = tstep_sel [OF sw] tstep_fs [OF sw]
  have bw: "blk w = (blk s)(bm s := mark (unat a) (blk s (bm s)), a := replicate BSIZE 0, ?n := d)"
    using w(4) v(5) p(4) u(5) t(5) ts by simp
  have own: "bowner w = bowner s" "users w = users s" using w(6,7) v(7,8) p(6,7) u(7,8) t(7,8) nd(4) by (simp_all add: fun_upd_idem)
  have f: "fs_ok w" "in_use w = (in_use s)(a := True)"
    using fs_ok_mark [OF assms(1) a(3) w(2) ws(15,8,9) own(1)] bw a(2) nd(1) by auto
  have fm: "fa w i MAXFILE = ?n" using ws by (simp add: fa_max)
  have fa: "fa w i k' = (if k' = k then a else fa s i k')" if kk: "k' \<le> MAXFILE" for k'
  proof -
    consider "k' < NDIRECT \<or> k' = MAXFILE" | "NDIRECT \<le> k'" "k' < MAXFILE" using kk by linarith
    then show ?thesis
    proof cases
      case 1
      then show ?thesis using ws assms(5,6) by (auto simp: fa_def Let_def)
    next
      case 2
      then have "fa w i k' = get32 (4 * (k' - NDIRECT)) d" "fa s i k' = get32 (4 * (k' - NDIRECT)) (blk s ?n)"
        using fa_direct(3) [OF 2, of w i] fa_direct(3) [OF 2, of s i] fm assms(7) bw by simp_all
      moreover have "k' - NDIRECT < k - NDIRECT \<or> k - NDIRECT < k' - NDIRECT" if "k' \<noteq> k" using 2 that assms(5) by linarith
      ultimately show ?thesis using 2 l o assms(5) get32_put32_other [of ?o "blk s ?n" "4 * (k' - NDIRECT)" a] by (cases "k' = k") (auto simp: d_def)
    qed
  qed
  have "inodes s ! i = (inodes s ! i)\<lparr>i_addrs := i_addrs (inodes s ! i)\<rparr>" by simp
  then have e: "upd_inode i (\<lambda>ip. ip\<lparr>i_addrs := i_addrs (inodes s ! i)\<rparr>) s = s" by (simp add: upd_inode_def)
  have bl: "blk w m = blk s m" if "m \<noteq> a" "m \<noteq> bm s" "m \<noteq> ?n" for m using bw that by simp
  have bl': "blk w m = blk s m" if "m \<noteq> a" "m \<noteq> bm s" "m \<notin> fblocks s i" for m
    by (rule bl [OF that(1,2)]) (use fa_in [OF order_refl assms(7)] that(3) in blast)
  have ad: "length (i_addrs (inodes s ! i)) = Suc NDIRECT" using assms(2) by (simp add: addrs_ok_def)
  note c = fchgI [OF assms(1,2) f(1) _ ad own f(2) a(3) less_imp_le [OF assms(6)] fa assms(8) bl', unfolded e, OF sw]
  have "log_write b (set_data b (put32 ?o a (bdata b u)) u) = Ok v" using v(1) by (simp add: p_def d_def bd)
  moreover have "logged w = logged s \<union> {a, bm s, ?n}" using w(5) v(6) p(5) u(6) t(6) ts by auto
  moreover have "blk w a = replicate BSIZE 0" using bw a(1) by simp
  moreover have "bdata b t = blk s ?n" using tx.data [OF t(2)] t(5) by simp
  moreover have "\<forall>k'\<le>MAXFILE. fa w i k' = (if k' = k then a else fa s i k')" using fa by simp
  moreover have "\<forall>m. m \<noteq> a \<longrightarrow> m \<noteq> bm s \<longrightarrow> m \<noteq> ?n \<longrightarrow> blk w m = blk s m" using bl by simp
  moreover note t(1) ts(16) u(1) w(1) c a(3,4) sw
  ultimately show ?thesis by (intro exI conjI)
qed

subsection \<open>Finding a block: \<^verbatim>\<open>bmap\<close>\<close>

text \<open>Steps that leave all contents alone.\<close>

definition same_view :: "'a kfs_scheme \<Rightarrow> 'a kfs_scheme \<Rightarrow> bool" where
  "same_view s t \<longleftrightarrow> txn_ok t \<and> tstep s t \<and> blk t = blk s \<and> logged t = logged s \<and> bowner t = bowner s \<and> users t = users s"

lemma same_view_refl: "txn_ok s \<Longrightarrow> same_view s s"
  by (simp add: same_view_def)

lemma same_view_trans: "same_view s t \<Longrightarrow> same_view t u \<Longrightarrow> same_view s u"
  using tstep_trans by (auto simp: same_view_def)

lemma same_viewD:
  assumes "same_view s t"
  shows "sb t = sb s" "inodes t = inodes s" "log_start t = log_start s" "log_size t = log_size s" "outstanding t = outstanding s"
    "fa t = fa s" "fblocks t = fblocks s" "in_use t = in_use s" "fbyte t = fbyte s" "blk t = blk s" "logged t = logged s" "users t = users s" "bowner t = bowner s"
    "free_blocks t = free_blocks s" "fs_ok s \<Longrightarrow> fs_ok t" "addrs_ok t i = addrs_ok s i" "file_ok t i = file_ok s i" "disk t = disk s" "mem t = mem s" "cur t = cur s"
    "held t = held s" "woken (procs s) (procs t)"
proof -
  have v: "tstep s t" "txn_ok t" "blk t = blk s" "logged t = logged s" "bowner t = bowner s" "users t = users s"
    using assms by (auto simp: same_view_def)
  note f = tstep_sel [OF v(1)] tstep_fs [OF v(1)]
  show "sb t = sb s" "inodes t = inodes s" "log_start t = log_start s" "log_size t = log_size s" "outstanding t = outstanding s"
    "blk t = blk s" "logged t = logged s" "users t = users s" "bowner t = bowner s" "disk t = disk s" "mem t = mem s" "cur t = cur s"
    "held t = held s" "woken (procs s) (procs t)" using v f by simp_all
  show a: "fa t = fa s" using v(3) f by (simp add: fa_def fun_eq_iff Let_def)
  then show b: "fblocks t = fblocks s" by (simp add: fblocks_def fun_eq_iff)
  show u: "in_use t = in_use s" using v(3) f by (simp add: in_use_def fun_eq_iff)
  then show "free_blocks t = free_blocks s" by (simp add: free_blocks_def)
  show "fbyte t = fbyte s" using a v(3) by (simp add: fbyte_def fun_eq_iff)
  show "fs_ok t" if "fs_ok s" using that v(2,5) f u by (simp add: fs_ok_def)
  show ad: "addrs_ok t i = addrs_ok s i" using a b u v(5) f by (simp add: addrs_ok_def data_ok_def)
  show "file_ok t i = file_ok s i" using ad a v(5) f by (simp add: file_ok_def)
qed

lemma same_view_fchg: "fs_ok s \<Longrightarrow> addrs_ok s i \<Longrightarrow> same_view s t \<Longrightarrow> fchg i s t"
proof -
  assume a: "fs_ok s" "addrs_ok s i" "same_view s t"
  note d = same_viewD [OF a(3)]
  have "upd_inode i (\<lambda>ip. ip\<lparr>i_addrs := i_addrs (inodes s ! i)\<rparr>) s = s" by (simp add: upd_inode_def)
  then have "tstep (upd_inode i (\<lambda>ip. ip\<lparr>i_addrs := i_addrs (inodes s ! i)\<rparr>) s) t" using a(3) by (simp add: same_view_def)
  then show ?thesis using a d by (auto simp: fchg_def)
qed

lemma bn_word:
  assumes "bn < MAXFILE"
  shows "(of_nat bn :: uint32) < of_nat NDIRECT \<longleftrightarrow> bn < NDIRECT" "unat (of_nat bn :: uint32) = bn"
    "NDIRECT \<le> bn \<Longrightarrow> unat (of_nat bn - of_nat NDIRECT :: uint32) = bn - NDIRECT"
    "NDIRECT \<le> bn \<Longrightarrow> (of_nat bn - of_nat NDIRECT :: uint32) < of_nat NINDIRECT"
proof -
  show u: "unat (of_nat bn :: uint32) = bn" using assms by (simp add: unat_of_nat)
  then show "(of_nat bn :: uint32) < of_nat NDIRECT \<longleftrightarrow> bn < NDIRECT" by (simp add: word_less_nat_alt)
  show s: "unat (of_nat bn - of_nat NDIRECT :: uint32) = bn - NDIRECT" if "NDIRECT \<le> bn" using u that by (simp add: unat_sub_if')
  show "(of_nat bn - of_nat NDIRECT :: uint32) < of_nat NINDIRECT" if "NDIRECT \<le> bn" using s [OF that] that assms by (simp add: word_less_nat_alt)
qed

lemma bmap_mapped:
  assumes "fs_ok s" "addrs_ok s i" "cache_room (logged s) (users s) 1" "bn < MAXFILE" "fa s i bn \<noteq> 0"
  shows "\<exists>t. bmap i (of_nat bn) s = Ok (fa s i bn, t) \<and> same_view s t"
proof (cases "bn < NDIRECT")
  case True
  then have "bmap i (of_nat bn) s = Ok (fa s i bn, s)"
    using bn_word [OF assms(4)] assms(5) by (simp add: bmap_def fa_direct)
  then show ?thesis using same_view_refl assms(1) by (auto simp: fs_ok_def)
next
  case False
  then have k: "NDIRECT \<le> bn" by simp
  have ok: "txn_ok s" "i_dev (inodes s ! i) = ROOTDEV" using assms(1,2) by (simp_all add: fs_ok_def addrs_ok_def)
  have n0: "fa s i MAXFILE \<noteq> 0" using assms(5) fa_direct(4) [OF k assms(4)] by metis
  note nd = data_okD [OF assms(1) fa_data [OF assms(2) order_refl n0]]
  obtain b t u where t: "bread ROOTDEV (fa s i MAXFILE) s = Ok (b, t)" "bdata b t = blk s (fa s i MAXFILE)" "brelse b t = Ok u" "txn_ok u"
    "tstep s u" "blk u = blk s" "logged u = logged s" "bowner u = bowner s" "users u = users s"
    using tx.look [OF ok(1) nd(4,2) assms(3)] by blast
  have "get32 (4 * (bn - NDIRECT)) (blk s (fa s i MAXFILE)) = fa s i bn" using fa_direct(3) [OF k assms(4) n0] by simp
  then have "bmap i (of_nat bn) s = Ok (fa s i bn, u)"
    unfolding bmap_def Let_def using bn_word [OF assms(4)] k t(1-3) n0 ok(2) assms(5) False
    by (simp add: fa_max)
  then show ?thesis using t by (auto simp: same_view_def)
qed

lemma fbyte_alloc:
  assumes "fs_ok s" "addrs_ok s i" "\<forall>k'\<le>MAXFILE. fa u i k' = (if k' = k then a else fa s i k')" "fa s i k = 0" "\<not> in_use s a"
    "blk u a = replicate BSIZE 0" "\<forall>m. m \<noteq> a \<longrightarrow> m \<noteq> bm s \<longrightarrow> m \<noteq> fa s i MAXFILE \<longrightarrow> blk u m = blk s m" "x < MAXFILE * BSIZE"
  shows "fbyte u i x = fbyte s i x"
proof -
  let ?k = "x div BSIZE"
  have k: "?k < MAXFILE" using assms(8) by (simp add: div_less_iff_less_mult)
  then have f: "fa u i ?k = (if ?k = k then a else fa s i ?k)" using assms(3) by simp
  show ?thesis
  proof (cases "?k = k")
    case True
    then show ?thesis using f assms(4,6) by (simp add: fbyte_def)
  next
    case False
    have "blk u (fa s i ?k) = blk s (fa s i ?k)" if "fa s i ?k \<noteq> 0"
    proof -
      note d = data_okD [OF assms(1) fa_data [OF assms(2) less_imp_le [OF k] that]]
      have "fa s i ?k \<noteq> fa s i MAXFILE" using fa_inj [OF assms(2) less_imp_le [OF k] order_refl _ that] k by auto
      then show ?thesis using assms(5,7) d by auto
    qed
    then show ?thesis using f False by (simp add: fbyte_def)
  qed
qed

definition ind_missing :: "'a kfs_scheme \<Rightarrow> nat \<Rightarrow> nat" where
  "ind_missing s i = (if fa s i MAXFILE = 0 then 1 else 0)"

definition bmap_post :: "nat \<Rightarrow> nat \<Rightarrow> 'a kfs_scheme \<Rightarrow> 'a kfs_scheme \<Rightarrow> bool" where
  "bmap_post i bn s t \<longleftrightarrow> fchg i s t \<and> fa t i bn \<noteq> 0 \<and> (\<forall>k<MAXFILE * BSIZE. fbyte t i k = fbyte s i k) \<and>
     logged s \<subseteq> logged t \<and> logged t \<subseteq> logged s \<union> {bm s, fa t i bn} \<union> ({fa t i MAXFILE} - {0}) \<and>
     (fa s i MAXFILE = 0 \<longrightarrow> fa t i MAXFILE \<noteq> 0 \<longrightarrow> fa t i MAXFILE \<in> logged t) \<and>
     card (free_blocks s) + ind_missing t i \<le> card (free_blocks t) + 1 + ind_missing s i"

lemma card_free_remove:
  fixes s :: "'a kfs_scheme" and t :: "'b kfs_scheme"
  assumes "free_blocks t = free_blocks s - {a}"
  shows "card (free_blocks s) \<le> card (free_blocks t) + 1"
  unfolding assms by (auto simp: card_Diff_singleton_if)

lemma bmap_direct:
  assumes "fs_ok s" "addrs_ok s i" "has_room 2 s" "bn < NDIRECT" "free_blocks s \<noteq> {}" "fa s i bn = 0"
  shows "\<exists>t. bmap i (of_nat bn) s = Ok (fa t i bn, t) \<and> bmap_post i bn s t"
proof -
  have b: "bn < MAXFILE" using assms(4) by simp
  obtain a t u where u: "balloc ROOTDEV s = Ok (a, t)" "u = upd_inode i (\<lambda>ip. ip\<lparr>i_addrs := (i_addrs ip)[bn := a]\<rparr>) t" "fchg i s u"
    "\<forall>k'\<le>MAXFILE. fa u i k' = (if k' = bn then a else fa s i k')" "a \<noteq> 0" "\<not> in_use s a" "blk u a = replicate BSIZE 0"
    "\<forall>m. m \<noteq> a \<longrightarrow> m \<noteq> bm s \<longrightarrow> blk u m = blk s m" "logged u = logged s \<union> {a, bm s}" "free_blocks u = free_blocks s - {a}"
    using slot_alloc [OF assms(1-3,5), of bn bn] assms(4,6) by auto
  have f: "fa u i bn = a" "fa u i MAXFILE = fa s i MAXFILE" using u(4) assms(4) by simp_all
  have "bmap i (of_nat bn) s = Ok (a, u)"
    using bn_word [OF b] assms(2,4,6) u(1,2) by (simp add: bmap_def fa_direct addrs_ok_def)
  moreover have "fbyte u i k = fbyte s i k" if "k < MAXFILE * BSIZE" for k
    by (rule fbyte_alloc [OF assms(1,2) u(4) assms(6) u(6,7) _ that]) (use u(8) in blast)
  ultimately show ?thesis using u(3,5,9) f card_free_remove [OF u(10)]
    by (intro exI [of _ u]) (auto simp: bmap_post_def ind_missing_def)
qed

lemma bmap_indirect:
  assumes "fs_ok s" "addrs_ok s i" "has_room 3 s" "NDIRECT \<le> bn" "bn < MAXFILE" "free_blocks s \<noteq> {}" "fa s i MAXFILE \<noteq> 0" "fa s i bn = 0"
  shows "\<exists>t. bmap i (of_nat bn) s = Ok (fa t i bn, t) \<and> bmap_post i bn s t \<and> fa t i MAXFILE = fa s i MAXFILE \<and> fa s i MAXFILE \<in> logged t"
proof -
  obtain b t a u v w where w: "bread ROOTDEV (fa s i MAXFILE) s = Ok (b, t)" "bdata b t = blk s (fa s i MAXFILE)" "inodes t = inodes s"
    "balloc ROOTDEV t = Ok (a, u)" "log_write b (set_data b (put32 (4 * (bn - NDIRECT)) a (bdata b u)) u) = Ok v" "brelse b v = Ok w"
    "fchg i s w" "\<forall>k'\<le>MAXFILE. fa w i k' = (if k' = bn then a else fa s i k')" "a \<noteq> 0" "\<not> in_use s a" "blk w a = replicate BSIZE 0"
    "\<forall>m. m \<noteq> a \<longrightarrow> m \<noteq> bm s \<longrightarrow> m \<noteq> fa s i MAXFILE \<longrightarrow> blk w m = blk s m" "logged w = logged s \<union> {a, bm s, fa s i MAXFILE}"
    "free_blocks w = free_blocks s - {a}"
    using ind_alloc [OF assms(1-3,6,4,5,7,8)] by (elim exE conjE) (rule that, assumption+)
  have f: "fa w i bn = a" "fa w i MAXFILE = fa s i MAXFILE" using w(8) assms(5) by simp_all
  have g: "get32 (4 * (bn - NDIRECT)) (blk s (fa s i MAXFILE)) = 0" using fa_direct(3) [OF assms(4,5,7)] assms(8) by simp
  have "\<not> bn < NDIRECT" using assms(4) by simp
  then have "bmap i (of_nat bn) s = Ok (a, w)"
    unfolding bmap_def Let_def using bn_word [OF assms(5)] assms(2,4,7) w(1-6) g
    by (simp add: fa_max addrs_ok_def)
  moreover have "fbyte w i k = fbyte s i k" if "k < MAXFILE * BSIZE" for k
    by (rule fbyte_alloc [OF assms(1,2) w(8) assms(8) w(10-12) that])
  ultimately show ?thesis using w(7,9,13) f assms(7) card_free_remove [OF w(14)]
    by (intro exI [of _ w]) (auto simp: bmap_post_def ind_missing_def)
qed

lemma bmap_first_indirect:
  assumes "fs_ok s" "addrs_ok s i" "has_room 5 s" "NDIRECT \<le> bn" "bn < MAXFILE" "2 \<le> card (free_blocks s)" "fa s i MAXFILE = 0"
  shows "\<exists>t. bmap i (of_nat bn) s = Ok (fa t i bn, t) \<and> bmap_post i bn s t"
proof -
  have r2: "has_room 2 s" using room_mono [of _ _ _ 5 2] assms(3) by auto
  have "free_blocks s \<noteq> {}" using assms(6) by auto
  then obtain a t u where u: "balloc ROOTDEV s = Ok (a, t)" "u = upd_inode i (\<lambda>ip. ip\<lparr>i_addrs := (i_addrs ip)[NDIRECT := a]\<rparr>) t" "fchg i s u"
    "\<forall>k'\<le>MAXFILE. fa u i k' = (if k' = MAXFILE then a else fa s i k')" "a \<noteq> 0" "\<not> in_use s a" "blk u a = replicate BSIZE 0"
    "\<forall>m. m \<noteq> a \<longrightarrow> m \<noteq> bm s \<longrightarrow> blk u m = blk s m" "logged u = logged s \<union> {a, bm s}" "free_blocks u = free_blocks s - {a}"
    using slot_alloc [OF assms(1,2) r2 _ order_refl _ assms(7)] by (elim meta_impE) (assumption, simp, elim exE conjE, rule that, assumption+)
  note cf = fchg_frame [OF u(3)]
  have c: "fs_ok u" "addrs_ok u i" "users u = users s" using u(3) by (simp_all add: fchg_def)
  have fu: "fa u i MAXFILE = a" "fa u i bn = 0" using u(4) assms(5,7) fa_direct(4) [OF assms(4,5,7)] by simp_all
  have "room_for (log_size s) (insert a (insert (bm s) (logged s))) (users s) 3"
    using assms(3) by (auto intro!: room_insert simp: numeral_eq_Suc)
  moreover have "logged u = insert a (insert (bm s) (logged s))" using u(9) by auto
  ultimately have r3: "has_room 3 u" using cf(3,4) c(3) assms(3) by simp
  have "free_blocks u \<noteq> {}" using card_free_remove [OF u(10)] assms(6) by auto
  then obtain v where v: "bmap i (of_nat bn) u = Ok (fa v i bn, v)" "bmap_post i bn u v" "fa v i MAXFILE = a" "a \<in> logged v"
    using bmap_indirect [OF c(1,2) r3 assms(4,5) _ _ fu(2)] fu(1) u(5) by auto
  have i: "i < length (inodes t)" "length (i_addrs (inodes t ! i)) = Suc NDIRECT"
    using cf(12) assms(2) c(2) by (auto simp: u(2) upd_inode_def addrs_ok_def)
  have e: "i_addrs (inodes u ! i) ! NDIRECT = a" "i_addrs (inodes s ! i) ! NDIRECT = 0" using fu(1) assms(7) by (simp_all add: fa_max)
  have "\<not> bn < NDIRECT" using assms(4) by simp
  then have "bmap i (of_nat bn) s = bmap i (of_nat bn) u"
    unfolding bmap_def Let_def using bn_word [OF assms(5)] assms(2,4) u(1,2,5) e by (simp add: addrs_ok_def)
  moreover have "bmap_post i bn s v"
  proof -
    have p: "fchg i u v" "fa v i bn \<noteq> 0" "\<forall>k<MAXFILE * BSIZE. fbyte v i k = fbyte u i k" "logged u \<subseteq> logged v"
      "logged v \<subseteq> logged u \<union> {bm u, fa v i bn} \<union> ({fa v i MAXFILE} - {0})"
      "card (free_blocks u) + ind_missing v i \<le> card (free_blocks v) + 1 + ind_missing u i" using v(2) by (simp_all add: bmap_post_def)
    have b: "fbyte u i k = fbyte s i k" if "k < MAXFILE * BSIZE" for k
      by (rule fbyte_alloc [OF assms(1,2) u(4) assms(7) u(6,7) _ that]) (use u(8) in blast)
    have "i < length (inodes s)" using assms(2) by (simp add: addrs_ok_def)
    moreover have "ind_missing v i = 0" "ind_missing u i = 0" "ind_missing s i = 1" using v(3) fu(1) u(5) assms(7) by (simp_all add: ind_missing_def)
    ultimately show ?thesis unfolding bmap_post_def
      using fchg_trans [OF u(3) p(1)] p(2-6) b u(5,9) v(3,4) cf(1) card_free_remove [OF u(10)] by auto
  qed
  ultimately show ?thesis using v(1) by auto
qed

lemma bmap_ok:
  assumes "fs_ok s" "addrs_ok s i" "has_room (3 + 2 * ind_missing s i) s" "bn < MAXFILE" "1 + ind_missing s i \<le> card (free_blocks s)"
  shows "\<exists>t. bmap i (of_nat bn) s = Ok (fa t i bn, t) \<and> bmap_post i bn s t"
proof -
  have r: "has_room 3 s" "has_room 2 s" using assms(3) by (auto intro: room_mono)
  have c: "cache_room (logged s) (users s) 1" by (rule room_cache [OF room_mono [OF conjunct1 [OF r(1)]]]) simp
  have ne: "free_blocks s \<noteq> {}" using assms(5) by auto
  consider "fa s i bn \<noteq> 0" | "fa s i bn = 0" "bn < NDIRECT" | "fa s i bn = 0" "NDIRECT \<le> bn" "fa s i MAXFILE \<noteq> 0" | "NDIRECT \<le> bn" "fa s i MAXFILE = 0"
    by linarith
  then show ?thesis
  proof cases
    case 1
    obtain t where t: "bmap i (of_nat bn) s = Ok (fa s i bn, t)" "same_view s t" using bmap_mapped [OF assms(1,2) c assms(4) 1] by blast
    note d = same_viewD [OF t(2)]
    have "bmap_post i bn s t" unfolding bmap_post_def using same_view_fchg [OF assms(1,2) t(2)] d 1 by (auto simp: ind_missing_def)
    then show ?thesis using t(1) d(6) by auto
  next
    case 2
    then show ?thesis using bmap_direct [OF assms(1,2) r(2) _ ne] by blast
  next
    case 3
    then show ?thesis using bmap_indirect [OF assms(1,2) r(1) _ assms(4) ne] by blast
  next
    case 4
    then show ?thesis using bmap_first_indirect [OF assms(1,2) _ _ assms(4)] assms(3,5) by (auto simp: ind_missing_def)
  qed
qed

subsection \<open>Writing\<close>

lemma put_bytes:
  assumes "p + length bs \<le> BSIZE" "length d = BSIZE" "k div BSIZE = bn"
  shows "put_at p bs d ! (k mod BSIZE) =
    (if bn * BSIZE + p \<le> k \<and> k < bn * BSIZE + p + length bs then bs ! (k - (bn * BSIZE + p)) else d ! (k mod BSIZE))"
proof -
  have k: "k = bn * BSIZE + k mod BSIZE" using div_mult_mod_eq [of k BSIZE] unfolding assms(3) by (rule sym)
  have "k mod BSIZE < BSIZE" by simp
  then have "put_at p bs d ! (k mod BSIZE) = (if p \<le> k mod BSIZE \<and> k mod BSIZE < p + length bs then bs ! (k mod BSIZE - p) else d ! (k mod BSIZE))"
    using nth_put_at [of p bs d "k mod BSIZE"] assms(1,2) by simp
  moreover have "p \<le> k mod BSIZE \<longleftrightarrow> bn * BSIZE + p \<le> k" "k mod BSIZE < p + length bs \<longleftrightarrow> k < bn * BSIZE + p + length bs"
    "k mod BSIZE - p = k - (bn * BSIZE + p)" using k by linarith+
  ultimately show ?thesis by simp
qed

text \<open>Overwriting a part of one block of the file.\<close>

lemma write_block:
  assumes "fs_ok s" "addrs_ok s i" "bn < MAXFILE" "fa s i bn \<noteq> 0" "has_room 1 s"
  shows "\<exists>b t. bread ROOTDEV (fa s i bn) s = Ok (b, t) \<and> tstep s t \<and> (\<forall>p bs. p + length bs \<le> BSIZE \<longrightarrow>
    (\<exists>v w. log_write b (set_data b (put_at p bs (bdata b t)) t) = Ok v \<and> brelse b v = Ok w \<and> fchg i s w \<and> fa w i = fa s i \<and>
    logged w = insert (fa s i bn) (logged s) \<and> free_blocks w = free_blocks s \<and>
    (\<forall>k<MAXFILE * BSIZE. fbyte w i k = (if bn * BSIZE + p \<le> k \<and> k < bn * BSIZE + p + length bs then bs ! (k - (bn * BSIZE + p)) else fbyte s i k))))"
proof -
  let ?a = "fa s i bn"
  have ok: "txn_ok s" using assms(1) by (simp add: fs_ok_def)
  note d = data_okD [OF assms(1) fa_data [OF assms(2) less_imp_le [OF assms(3)] assms(4)]]
  have l: "length (blk s ?a) = BSIZE" by (rule tx.view_length [OF ok])
  obtain b t where t: "bread ROOTDEV ?a s = Ok (b, t)" "bdata b t = blk s ?a" "tstep s t" "\<forall>d. length d = BSIZE \<longrightarrow> (\<exists>v w. log_write b (set_data b d t) = Ok v \<and>
      brelse b v = Ok w \<and> txn_ok w \<and> tstep s w \<and> blk w = (blk s)(?a := d) \<and> logged w = insert ?a (logged s) \<and> bowner w = bowner s \<and> users w = users s \<and>
      disk w = disk s \<and> (\<forall>c m. m \<noteq> ?a \<longrightarrow> txn_has c m s \<longrightarrow> txn_has c m w))"
    using tx.modify [OF ok d(4,2) conjunct1 [OF assms(5)] conjunct2 [OF assms(5)]] by (elim exE conjE) (rule that, assumption+)
  have "\<exists>v w. log_write b (set_data b (put_at p bs (bdata b t)) t) = Ok v \<and> brelse b v = Ok w \<and> fchg i s w \<and> fa w i = fa s i \<and>
    logged w = insert ?a (logged s) \<and> free_blocks w = free_blocks s \<and>
    (\<forall>k<MAXFILE * BSIZE. fbyte w i k = (if bn * BSIZE + p \<le> k \<and> k < bn * BSIZE + p + length bs then bs ! (k - (bn * BSIZE + p)) else fbyte s i k))"
    if p: "p + length bs \<le> BSIZE" for p bs
  proof -
    have "length (put_at p bs (blk s ?a)) = BSIZE" using p l by simp
    then obtain v w where w: "log_write b (set_data b (put_at p bs (blk s ?a)) t) = Ok v" "brelse b v = Ok w" "txn_ok w" "tstep s w"
      "blk w = (blk s)(?a := put_at p bs (blk s ?a))" "logged w = insert ?a (logged s)" "bowner w = bowner s" "users w = users s"
      using t(4) by blast
    note ws = tstep_sel [OF w(4)] tstep_fs [OF w(4)]
    have f: "fs_ok w" "in_use w = in_use s" using fs_ok_step [OF assms(1) w(3) ws(15,8,9) w(7)] w(5) d(1) by auto
    have "?a \<noteq> fa s i MAXFILE" using fa_inj [OF assms(2) less_imp_le [OF assms(3)] order_refl _ assms(4)] assms(3) by auto
    then have fa: "fa w i = fa s i" using fa_cong [of w i s] ws w(5) by (simp add: fun_eq_iff)
    have fb: "fblocks w i = fblocks s i" using fa by (simp add: fblocks_def)
    have ad: "addrs_ok w i" using assms(2) fa fb f(2) ws w(7) by (simp add: addrs_ok_def data_ok_def)
    have "upd_inode i (\<lambda>ip. ip\<lparr>i_addrs := i_addrs (inodes s ! i)\<rparr>) s = s" by (simp add: upd_inode_def)
    then have "tstep (upd_inode i (\<lambda>ip. ip\<lparr>i_addrs := i_addrs (inodes s ! i)\<rparr>) s) w" using w(4) by simp
    moreover have "?a \<in> fblocks s i" by (rule fa_in [OF less_imp_le [OF assms(3)] assms(4)])
    ultimately have c: "fchg i s w" using f ad fa fb w(5,7,8) by (auto simp: fchg_def)
    have "fbyte w i k = (if bn * BSIZE + p \<le> k \<and> k < bn * BSIZE + p + length bs then bs ! (k - (bn * BSIZE + p)) else fbyte s i k)"
      if k: "k < MAXFILE * BSIZE" for k
    proof (cases "k div BSIZE = bn")
      case True
      then show ?thesis using put_bytes [OF p l True] fa w(5) assms(4) by (simp add: fbyte_def)
    next
      case False
      then have "\<not> (bn * BSIZE + p \<le> k \<and> k < bn * BSIZE + p + length bs)" using p by (auto simp: div_nat_eqI)
      moreover have "k div BSIZE \<le> MAXFILE" "bn \<le> MAXFILE" using k assms(3) by (simp_all add: div_le_mono2 less_imp_le div_less_iff_less_mult)
      then have "fa s i (k div BSIZE) \<noteq> 0 \<Longrightarrow> fa s i (k div BSIZE) \<noteq> ?a" using fa_inj [OF assms(2)] False by metis
      ultimately show ?thesis using fa w(5) by (auto simp: fbyte_def)
    qed
    moreover have "free_blocks w = free_blocks s" using f(2) by (simp add: free_blocks_def)
    ultimately show ?thesis using w(1,2,6) c fa t(2) by (intro exI [of _ v] exI [of _ w] conjI) auto
  qed
  then show ?thesis using t(1,3) by (intro exI [of _ b] exI [of _ t]) blast
qed

text \<open>
  What a write may still add to the log besides its data blocks: the bitmap and the indirect
  block.
\<close>

definition cost :: "'a kfs_scheme \<Rightarrow> nat \<Rightarrow> nat" where
  "cost s i = (if bm s \<in> logged s then 0 else 1) + (if fa s i MAXFILE \<noteq> 0 \<and> fa s i MAXFILE \<in> logged s then 0 else 1)"

lemma room_grow:
  assumes "room_for sz L us (k + c)" "L \<subseteq> L'" "card (L' - L) \<le> c"
  shows "room_for sz L' us k"
proof -
  have "card L' \<le> card L + c" using card_Diff_subset [of L L'] assms(2,3) card_mono [of L' L] by simp
  moreover have "L' \<union> {m. us m \<noteq> 0} \<subseteq> (L \<union> {m. us m \<noteq> 0}) \<union> (L' - L)" by auto
  then have "card (L' \<union> {m. us m \<noteq> 0}) \<le> card ((L \<union> {m. us m \<noteq> 0}) \<union> (L' - L))" by (rule card_mono [rotated]) simp
  then have "card (L' \<union> {m. us m \<noteq> 0}) \<le> card (L \<union> {m. us m \<noteq> 0}) + c" using card_Un_le [of "L \<union> {m. us m \<noteq> 0}" "L' - L"] assms(3) by linarith
  ultimately show ?thesis using assms(1) by (simp add: room_for_def)
qed

lemma card_added:
  assumes "L' \<subseteq> L \<union> {x, a} \<union> ({n} - {0 :: uint32})"
  shows "card (L' - L) \<le> 1 + (if x \<in> L' - L then 1 else 0) + (if n \<noteq> 0 \<and> n \<in> L' - L then 1 else 0)"
proof -
  let ?B = "if x \<in> L' - L then {x} else {}" and ?N = "if n \<noteq> 0 \<and> n \<in> L' - L then {n} else {}"
  have "m \<in> {a} \<union> ?B \<union> ?N" if m: "m \<in> L' - L" for m
  proof -
    consider "m = a" | "m = x" | "m = n" "n \<noteq> 0" using assms m by blast
    then show ?thesis using m by cases simp_all
  qed
  then have "L' - L \<subseteq> {a} \<union> ?B \<union> ?N" by (rule subsetI)
  then have "card (L' - L) \<le> card ({a} \<union> ?B \<union> ?N)" by (rule card_mono [rotated]) simp
  also have "\<dots> \<le> 1 + card ?B + card ?N" using card_Un_le [of "{a} \<union> ?B" ?N] card_Un_le [of "{a}" ?B] by simp
  finally show ?thesis by (auto split: if_splits)
qed

lemma cost_step:
  assumes "logged s \<subseteq> logged t" "logged t \<subseteq> logged s \<union> {bm s, a} \<union> ({fa t i MAXFILE} - {0})" "bm t = bm s"
    "fa s i MAXFILE \<noteq> 0 \<Longrightarrow> fa t i MAXFILE = fa s i MAXFILE"
  shows "card (logged t - logged s) + cost t i \<le> 1 + cost s i"
proof -
  let ?n = "fa t i MAXFILE"
  note c = card_added [OF assms(2)]
  have b: "(if bm s \<in> logged t - logged s then 1 else 0) + (if bm t \<in> logged t then 0 else 1) \<le> (if bm s \<in> logged s then 0 else (1 :: nat))"
    using assms(1,3) by auto
  have "(if ?n \<noteq> 0 \<and> ?n \<in> logged t - logged s then 1 else 0) + (if ?n \<noteq> 0 \<and> ?n \<in> logged t then 0 else 1) \<le>
    (if fa s i MAXFILE \<noteq> 0 \<and> fa s i MAXFILE \<in> logged s then 0 else (1 :: nat))"
    using assms(1,4) by auto
  then show ?thesis unfolding cost_def using b c by linarith
qed

text \<open>One round of the loop of \<^verbatim>\<open>writei\<close>.\<close>

lemma write_round:
  assumes "fs_ok s" "addrs_ok s i" "bn < MAXFILE" "has_room (Suc nb + cost s i + 3) s" "Suc nb + ind_missing s i \<le> card (free_blocks s)"
  shows "\<exists>t b u. bmap i (of_nat bn) s = Ok (fa t i bn, t) \<and> fchg i s t \<and> bread ROOTDEV (fa t i bn) t = Ok (b, u) \<and> tstep t u \<and> fa t i bn \<noteq> 0 \<and>
    (\<forall>p bs. p + length bs \<le> BSIZE \<longrightarrow> (\<exists>v w. log_write b (set_data b (put_at p bs (bdata b u)) u) = Ok v \<and> brelse b v = Ok w \<and> fchg i s w \<and>
      (\<forall>k<MAXFILE * BSIZE. fbyte w i k = (if bn * BSIZE + p \<le> k \<and> k < bn * BSIZE + p + length bs then bs ! (k - (bn * BSIZE + p)) else fbyte s i k)) \<and>
      has_room (nb + cost w i + 3) w \<and> nb + ind_missing w i \<le> card (free_blocks w) \<and> card (logged w) + cost w i \<le> card (logged s) + cost s i + 1 \<and>
      fa w i bn \<noteq> 0))"
proof -
  have "ind_missing s i \<le> cost s i" by (simp add: ind_missing_def cost_def)
  then have "has_room (3 + 2 * ind_missing s i) s"
    using room_mono [of _ _ _ "Suc nb + cost s i + 3" "3 + 2 * ind_missing s i"] assms(4) by (auto simp: ind_missing_def split: if_splits)
  then obtain t where t: "bmap i (of_nat bn) s = Ok (fa t i bn, t)" "bmap_post i bn s t"
    using bmap_ok [OF assms(1,2) _ assms(3)] assms(5) by auto
  have p: "fchg i s t" "fa t i bn \<noteq> 0" "\<forall>k<MAXFILE * BSIZE. fbyte t i k = fbyte s i k" "logged s \<subseteq> logged t"
    "logged t \<subseteq> logged s \<union> {bm s, fa t i bn} \<union> ({fa t i MAXFILE} - {0})"
    "card (free_blocks s) + ind_missing t i \<le> card (free_blocks t) + 1 + ind_missing s i" using t(2) by (simp_all add: bmap_post_def)
  note cf = fchg_frame [OF p(1)]
  have c: "fs_ok t" "addrs_ok t i" "users t = users s" "fa s i MAXFILE \<noteq> 0 \<Longrightarrow> fa t i MAXFILE = fa s i MAXFILE" using p(1) by (simp_all add: fchg_def)
  have k: "card (logged t - logged s) + cost t i \<le> 1 + cost s i" by (rule cost_step [OF p(4,5) _ c(4)]) (simp add: cf(1))
  have "room_for (log_size s) (logged t) (users s) 1"
    by (rule room_grow [OF _ p(4), where c = "1 + cost s i"]) (use k assms(4) in \<open>auto intro: room_mono\<close>)
  then have rt: "has_room 1 t" using assms(4) c(3) cf(3,4) by simp
  obtain b u where u: "bread ROOTDEV (fa t i bn) t = Ok (b, u)" "tstep t u" "\<forall>p bs. p + length bs \<le> BSIZE \<longrightarrow>
    (\<exists>v w. log_write b (set_data b (put_at p bs (bdata b u)) u) = Ok v \<and> brelse b v = Ok w \<and> fchg i t w \<and> fa w i = fa t i \<and>
    logged w = insert (fa t i bn) (logged t) \<and> free_blocks w = free_blocks t \<and>
    (\<forall>k<MAXFILE * BSIZE. fbyte w i k = (if bn * BSIZE + p \<le> k \<and> k < bn * BSIZE + p + length bs then bs ! (k - (bn * BSIZE + p)) else fbyte t i k)))"
    using write_block [OF c(1,2) assms(3) p(2) rt] by (elim exE conjE) (rule that, assumption+)
  have "\<exists>v w. log_write b (set_data b (put_at q bs (bdata b u)) u) = Ok v \<and> brelse b v = Ok w \<and> fchg i s w \<and>
      (\<forall>k<MAXFILE * BSIZE. fbyte w i k = (if bn * BSIZE + q \<le> k \<and> k < bn * BSIZE + q + length bs then bs ! (k - (bn * BSIZE + q)) else fbyte s i k)) \<and>
      has_room (nb + cost w i + 3) w \<and> nb + ind_missing w i \<le> card (free_blocks w) \<and> card (logged w) + cost w i \<le> card (logged s) + cost s i + 1 \<and>
      fa w i bn \<noteq> 0" if q: "q + length bs \<le> BSIZE" for q bs
  proof -
    obtain v w where w: "log_write b (set_data b (put_at q bs (bdata b u)) u) = Ok v" "brelse b v = Ok w" "fchg i t w" "fa w i = fa t i"
      "logged w = insert (fa t i bn) (logged t)" "free_blocks w = free_blocks t"
      "\<forall>k<MAXFILE * BSIZE. fbyte w i k = (if bn * BSIZE + q \<le> k \<and> k < bn * BSIZE + q + length bs then bs ! (k - (bn * BSIZE + q)) else fbyte t i k)"
      using u(3) q by blast
    note wf = fchg_frame [OF w(3)]
    have sw: "fchg i s w" using fchg_trans [OF p(1) w(3)] assms(2) by (simp add: addrs_ok_def)
    have lw: "logged s \<subseteq> logged w" "logged w \<subseteq> logged s \<union> {bm s, fa t i bn} \<union> ({fa w i MAXFILE} - {0})" using p(4,5) w(4,5) by auto
    have kw: "card (logged w - logged s) + cost w i \<le> 1 + cost s i"
      by (rule cost_step [OF lw]) (use cf(1) wf(1) w(4) c(4) in simp_all)
    have uw: "users w = users s" using sw by (simp add: fchg_def)
    have "room_for (log_size s) (logged w) (users s) (nb + cost w i + 3)"
      by (rule room_grow [OF _ lw(1), where c = "1 + cost s i - cost w i"]) (use kw assms(4) in \<open>auto intro: room_mono\<close>)
    then have "has_room (nb + cost w i + 3) w" using uw cf(3,4) wf(3,4) assms(4) by simp
    moreover have "nb + ind_missing w i \<le> card (free_blocks w)" using p(6) w(4,6) assms(5) by (simp add: ind_missing_def)
    moreover have "card (logged w) = card (logged s) + card (logged w - logged s)"
      using card_Un_disjoint [of "logged s" "logged w - logged s"] lw(1) by (simp add: Un_absorb1)
    ultimately show ?thesis using w(1,2,7) sw p(2,3) w(4) kw by (intro exI [of _ v] exI [of _ w] conjI) auto
  qed
  then show ?thesis using t(1) p(1,2) u(1,2) by (intro exI [of _ t] exI [of _ b] exI [of _ u] conjI) blast+
qed

text \<open>The number of blocks that \<open>r\<close> bytes from offset \<open>off\<close> on touch.\<close>

definition nblk :: "nat \<Rightarrow> nat \<Rightarrow> nat" where
  "nblk off r = (if r = 0 then 0 else Suc ((off + r - 1) div BSIZE - off div BSIZE))"

lemma nblk_step:
  assumes "0 < r" "m = min r (BSIZE - off mod BSIZE)"
  shows "nblk off r = Suc (nblk (off + m) (r - m))"
proof (cases "r \<le> BSIZE - off mod BSIZE")
  case True
  have "off + r - 1 = off div BSIZE * BSIZE + (off mod BSIZE + (r - 1))" using assms(1) div_mult_mod_eq [of off BSIZE] by linarith
  moreover have "off mod BSIZE + (r - 1) < BSIZE" using True assms(1) by linarith
  moreover have "BSIZE * Suc (off div BSIZE) = BSIZE * (off div BSIZE) + BSIZE" by simp
  ultimately have "(off + r - 1) div BSIZE = off div BSIZE" by (intro div_nat_eqI) linarith+
  then show ?thesis using True assms by (simp add: nblk_def)
next
  case False
  have lt: "off mod BSIZE < BSIZE" by simp
  have m: "m = BSIZE - off mod BSIZE" using False assms(2) by simp
  have om: "off + m = (off div BSIZE + 1) * BSIZE" using m lt div_mult_mod_eq [of off BSIZE] unfolding add_mult_distrib by linarith
  then have d: "(off + m) div BSIZE = off div BSIZE + 1" by simp
  have "off + m \<le> off + r - 1" using False m by linarith
  then have "off div BSIZE + 1 \<le> (off + r - 1) div BSIZE" using div_le_mono [of "off + m" "off + r - 1" BSIZE] d by simp
  moreover have "off + m + (r - m) - 1 = off + r - 1" "r - m \<noteq> 0" using False m by linarith+
  then have "nblk (off + m) (r - m) = Suc ((off + r - 1) div BSIZE - (off div BSIZE + 1))" unfolding nblk_def d by simp
  moreover have "nblk off r = Suc ((off + r - 1) div BSIZE - off div BSIZE)" using assms(1) by (simp add: nblk_def)
  ultimately show ?thesis by linarith
qed

definition src_bytes :: "src \<Rightarrow> uint8 list \<Rightarrow> 'a kfs_scheme \<Rightarrow> bool" where
  "src_bytes src bs s \<longleftrightarrow> (\<forall>tot m (u :: 'a kfs_scheme). held u = held s \<longrightarrow> mem u = mem s \<longrightarrow> freelist u = freelist s \<longrightarrow> kend u = kend s \<longrightarrow> cur u = cur s \<longrightarrow>
     woken (procs s) (procs u) \<longrightarrow> tot + m \<le> length bs \<longrightarrow> either_copyin src (of_nat tot) m u = Ok (0, get_at tot m bs))"

lemma src_bytes_frame:
  fixes s t :: "'a kfs_scheme"
  assumes "src_bytes src bs s" "held t = held s" "mem t = mem s" "freelist t = freelist s" "kend t = kend s" "cur t = cur s" "woken (procs s) (procs t)"
  shows "src_bytes src bs t"
  unfolding src_bytes_def
proof (intro allI impI)
  fix tot m and u :: "'a kfs_scheme"
  assume u: "held u = held t" "mem u = mem t" "freelist u = freelist t" "kend u = kend t" "cur u = cur t" "woken (procs t) (procs u)" "tot + m \<le> length bs"
  show "either_copyin src (of_nat tot) m u = Ok (0, get_at tot m bs)"
    by (rule assms(1) [unfolded src_bytes_def, rule_format]) (use u assms woken_trans [OF assms(7) u(6)] in simp_all)
qed

lemma off_word:
  assumes "off < 2 ^ 32"
  shows "(of_nat off :: uint32) div of_nat BSIZE = of_nat (off div BSIZE)" "unat ((of_nat off :: uint32) mod of_nat BSIZE) = off mod BSIZE"
    "unat (of_nat off :: uint32) = off"
proof -
  show u: "unat (of_nat off :: uint32) = off" using assms by (simp add: unat_of_nat)
  have "off div BSIZE < 2 ^ 32" using assms div_le_dividend [of off BSIZE] by linarith
  then have "unat (of_nat (off div BSIZE) :: uint32) = off div BSIZE" by (simp add: unat_of_nat)
  then show "(of_nat off :: uint32) div of_nat BSIZE = of_nat (off div BSIZE)" using u by (simp add: word_unat_eq_iff unat_div)
  show "unat ((of_nat off :: uint32) mod of_nat BSIZE) = off mod BSIZE" using u by (simp add: unat_mod)
qed

lemma unat_of_nat_32: "x < 2 ^ 32 \<Longrightarrow> unat (of_nat x :: uint32) = x"
  by (simp add: unat_of_nat)

lemma chunk_eq:
  assumes "T \<le> N" "N < 2 ^ 32" "off < 2 ^ 32"
  shows "chunk (of_nat N) (of_nat T) (of_nat off) = of_nat (min (N - T) (BSIZE - off mod BSIZE))"
proof -
  have n: "(of_nat N - of_nat T :: uint32) = of_nat (N - T)" using assms(1) by (simp add: of_nat_diff)
  have l: "off mod BSIZE \<le> BSIZE" by (simp add: less_imp_le)
  have "(of_nat BSIZE - of_nat off mod of_nat BSIZE :: uint32) = of_nat (BSIZE - off mod BSIZE)"
  proof -
    have "(of_nat off mod of_nat BSIZE :: uint32) = of_nat (off mod BSIZE)"
      unfolding word_unat_eq_iff off_word(2) [OF assms(3)] by (simp add: unat_of_nat)
    then show ?thesis using l by (simp add: of_nat_diff)
  qed
  moreover have "unat (of_nat (N - T) :: uint32) = N - T" "unat (of_nat (BSIZE - off mod BSIZE) :: uint32) = BSIZE - off mod BSIZE"
    using assms(1,2) by (intro unat_of_nat_32; simp)+
  ultimately show ?thesis unfolding chunk_def n by (auto simp: min_def word_le_nat_alt)
qed

lemma writei_loop_ok:
  fixes s :: "'a kfs_scheme"
  assumes "fs_ok s" "addrs_ok s i" "T \<le> length bs" "off + (length bs - T) \<le> MAXFILE * BSIZE" "length bs \<le> MAXFILE * BSIZE" "src_bytes src bs s"
    "has_room (nblk off (length bs - T) + cost s i + 3) s" "nblk off (length bs - T) + ind_missing s i \<le> card (free_blocks s)"
  shows "\<exists>t. writei_loop i src (of_nat off) (of_nat (length bs)) (of_nat T) s = Ok (of_nat (length bs), of_nat (off + (length bs - T)), t) \<and> fchg i s t \<and>
    (\<forall>k<MAXFILE * BSIZE. fbyte t i k = (if off \<le> k \<and> k < off + (length bs - T) then bs ! (T + (k - off)) else fbyte s i k)) \<and>
    has_room (cost t i + 3) t \<and> card (logged t) + cost t i \<le> card (logged s) + cost s i + nblk off (length bs - T) \<and>
    (\<forall>k. off \<le> k \<longrightarrow> k < off + (length bs - T) \<longrightarrow> fa t i (k div BSIZE) \<noteq> 0)"
  using assms
proof (induction "length bs - T" arbitrary: T off s rule: less_induct)
  case less
  let ?N = "length bs" and ?w = "of_nat :: nat \<Rightarrow> uint32"
  have N: "?N < 2 ^ 32" "off < 2 ^ 32" "T < 2 ^ 32" using less.prems(3-5) by simp_all
  have lt: "?w T < ?w ?N \<longleftrightarrow> T < ?N" using unat_of_nat_32 N(1,3) by (simp add: word_less_nat_alt)
  show ?case
  proof (cases "T = ?N")
    case True
    then show ?thesis using less.prems fchg_refl [OF less.prems(1,2)]
      by (intro exI [of _ s]) (auto simp: writei_loop.simps nblk_def)
  next
    case False
    define m where "m = min (?N - T) (BSIZE - off mod BSIZE)"
    define bn where "bn = off div BSIZE"
    have T: "T < ?N" "0 < m" "m \<le> ?N - T" "off mod BSIZE + m \<le> BSIZE" using False less.prems(3) by (auto simp: m_def min_def)
    define nb where "nb = nblk (off + m) (?N - (T + m))"
    have nb: "nblk off (?N - T) = Suc nb" using nblk_step [OF _ m_def] T(1) by (simp add: nb_def diff_diff_eq)
    have bn: "bn < MAXFILE" using less.prems(4) T(1) by (simp add: bn_def div_less_iff_less_mult)
    obtain t b u where t: "bmap i (?w bn) s = Ok (fa t i bn, t)" "fchg i s t" "bread ROOTDEV (fa t i bn) t = Ok (b, u)" "tstep t u" "fa t i bn \<noteq> 0"
      "\<forall>p bs. p + length bs \<le> BSIZE \<longrightarrow> (\<exists>v w. log_write b (set_data b (put_at p bs (bdata b u)) u) = Ok v \<and> brelse b v = Ok w \<and> fchg i s w \<and>
      (\<forall>k<MAXFILE * BSIZE. fbyte w i k = (if bn * BSIZE + p \<le> k \<and> k < bn * BSIZE + p + length bs then bs ! (k - (bn * BSIZE + p)) else fbyte s i k)) \<and>
      has_room (nb + cost w i + 3) w \<and> nb + ind_missing w i \<le> card (free_blocks w) \<and> card (logged w) + cost w i \<le> card (logged s) + cost s i + 1 \<and>
      fa w i bn \<noteq> 0)"
      using write_round [OF less.prems(1,2) bn less.prems(7,8) [unfolded nb]] by (elim exE conjE) (rule that, assumption+)
    define c where "c = get_at T m bs"
    have Tm: "T + m \<le> ?N" using T(1,3) by linarith
    have c: "length c = m" "\<And>j. j < m \<Longrightarrow> c ! j = bs ! (T + j)" using Tm by (simp_all add: c_def nth_get_at)
    have "off mod BSIZE + length c \<le> BSIZE" using c(1) T(4) by simp
    then obtain v w where w: "log_write b (set_data b (put_at (off mod BSIZE) c (bdata b u)) u) = Ok v" "brelse b v = Ok w" "fchg i s w"
      "\<forall>k<MAXFILE * BSIZE. fbyte w i k = (if bn * BSIZE + off mod BSIZE \<le> k \<and> k < bn * BSIZE + off mod BSIZE + length c
         then c ! (k - (bn * BSIZE + off mod BSIZE)) else fbyte s i k)"
      "has_room (nb + cost w i + 3) w" "nb + ind_missing w i \<le> card (free_blocks w)" "card (logged w) + cost w i \<le> card (logged s) + cost s i + 1" "fa w i bn \<noteq> 0"
      using t(6) by blast
    have bo: "bn * BSIZE + off mod BSIZE = off" by (simp add: bn_def)
    note tf = fchg_frame [OF t(2)] and us = tstep_sel [OF t(4)] tstep_fs [OF t(4)] and wf = fchg_frame [OF w(3)]
    have wk: "woken (procs s) (procs u)" using woken_trans [OF tf(11) us(14)] .
    have ci: "either_copyin src (of_nat T) m u = Ok (0, c)"
      unfolding c_def by (rule less.prems(6) [unfolded src_bytes_def, rule_format]) (use tf us wk Tm in simp_all)
    have cm: "chunk (?w ?N) (?w T) (?w off) = ?w m" unfolding m_def by (rule chunk_eq [OF less.prems(3) N(1,2)])
    have um: "unat (?w m) = m" by (rule unat_of_nat_32) (use T(3) N(1) in linarith)
    have ut: "(ucast (?w T) :: uint64) = of_nat T" unfolding word_unat_eq_iff unat_ucast_32_64 unat_of_nat_32 [OF N(3)] using N(3) by (simp add: unat_of_nat_64)
    have dev: "i_dev (inodes t ! i) = ROOTDEV" using t(2) by (simp add: fchg_def addrs_ok_def)
    have step: "writei_loop i src (?w off) (?w ?N) (?w T) s = writei_loop i src (?w (off + m)) (?w ?N) (?w (T + m)) w"
      apply (subst writei_loop.simps)
      using lt T(1) t(1,3) dev ci w(1,2) off_word [OF N(2)] by (simp add: cm um ut bn_def [symmetric] Let_def)
    have wo: "fs_ok w" "addrs_ok w i" using w(3) by (simp_all add: fchg_def)
    have sw: "src_bytes src bs w" by (rule src_bytes_frame [OF less.prems(6)]) (use wf in simp_all)
    have e: "off + m + (?N - (T + m)) = off + (?N - T)" "?N - (T + m) < ?N - T" using T(1-3) by linarith+
    have h: "off + m + (?N - (T + m)) \<le> MAXFILE * BSIZE" unfolding e(1) by (rule less.prems(4))
    obtain x where x: "writei_loop i src (?w (off + m)) (?w ?N) (?w (T + m)) w = Ok (?w ?N, ?w (off + m + (?N - (T + m))), x)" "fchg i w x"
      "\<forall>k<MAXFILE * BSIZE. fbyte x i k = (if off + m \<le> k \<and> k < off + m + (?N - (T + m)) then bs ! (T + m + (k - (off + m))) else fbyte w i k)"
      "has_room (cost x i + 3) x" "card (logged x) + cost x i \<le> card (logged w) + cost w i + nb"
      "\<forall>k. off + m \<le> k \<longrightarrow> k < off + m + (?N - (T + m)) \<longrightarrow> fa x i (k div BSIZE) \<noteq> 0"
      using less.hyps [OF e(2) wo Tm h less.prems(5) sw w(5,6) [unfolded nb_def], folded nb_def]
      by (elim exE conjE) (rule that, (assumption | rule conjI)+)
    have "fchg i s x" using fchg_trans [OF w(3) x(2)] less.prems(2) by (simp add: addrs_ok_def)
    moreover have "fbyte x i k = (if off \<le> k \<and> k < off + (?N - T) then bs ! (T + (k - off)) else fbyte s i k)" if k: "k < MAXFILE * BSIZE" for k
    proof (cases "off + m \<le> k \<and> k < off + (?N - T)")
      case True
      then have "T + m + (k - (off + m)) = T + (k - off)" by linarith
      then show ?thesis using x(3) k True unfolding e(1) by simp
    next
      case out: False
      then have xw: "fbyte x i k = fbyte w i k" using x(3) [unfolded e(1), rule_format, OF k] by (simp only: if_False)
      note wk = w(4) [unfolded bo c(1), rule_format, OF k]
      show ?thesis
      proof (cases "off \<le> k \<and> k < off + m")
        case True
        then have "k < off + (?N - T)" "k - off < m" using T(3) by linarith+
        then show ?thesis using xw wk True c(2) [of "k - off"] by simp
      next
        case False
        then have "\<not> (off \<le> k \<and> k < off + (?N - T))" using out by linarith
        then show ?thesis using xw wk False by (simp only: if_False)
      qed
    qed
    moreover have "fa x i (k div BSIZE) \<noteq> 0" if k: "off \<le> k" "k < off + (?N - T)" for k
    proof (cases "off + m \<le> k")
      case True
      then show ?thesis using x(6) k(2) unfolding e(1) by blast
    next
      case False
      have "off div BSIZE * BSIZE + off mod BSIZE = off" by (rule div_mult_mod_eq)
      moreover have "BSIZE * Suc (off div BSIZE) = BSIZE * (off div BSIZE) + BSIZE" by simp
      ultimately have "k div BSIZE = bn" unfolding bn_def using False k(1) T(4) by (intro div_nat_eqI) linarith+
      then show ?thesis using x(2) w(8) bn by (simp add: fchg_def)
    qed
    ultimately show ?thesis using x(1,4,5) w(7) unfolding step e(1) nb by (intro exI [of _ x]) auto
  qed
qed

definition contents :: "'a kfs_scheme \<Rightarrow> nat \<Rightarrow> uint8 list" where
  "contents s i = map (fbyte s i) [0..<unat (i_size (inodes s ! i))]"

lemma iupdate_ok:
  assumes "fs_ok s" "i_dev (inodes s ! i) = ROOTDEV" "iblock s i \<notin> log_blocks s" "bowner s (iblock s i) = None" "has_room 1 s"
  shows "\<exists>t. iupdate i s = Ok t \<and> txn_ok t \<and> tstep s t \<and>
    blk t = (blk s)(iblock s i := put_dinode (din_off (i_inum (inodes s ! i))) (inodes s ! i) (blk s (iblock s i))) \<and>
    logged t = insert (iblock s i) (logged s) \<and> bowner t = bowner s \<and> users t = users s"
proof -
  let ?n = "iblock s i"
  have ok: "txn_ok s" using assms(1) by (simp add: fs_ok_def)
  let ?d = "put_dinode (din_off (i_inum (inodes s ! i))) (inodes s ! i) (blk s ?n)"
  obtain b t where t: "bread ROOTDEV ?n s = Ok (b, t)" "bdata b t = blk s ?n" "tstep s t" "\<forall>d. length d = BSIZE \<longrightarrow> (\<exists>v w. log_write b (set_data b d t) = Ok v \<and>
      brelse b v = Ok w \<and> txn_ok w \<and> tstep s w \<and> blk w = (blk s)(?n := d) \<and> logged w = insert ?n (logged s) \<and> bowner w = bowner s \<and> users w = users s \<and>
      disk w = disk s \<and> (\<forall>c m. m \<noteq> ?n \<longrightarrow> txn_has c m s \<longrightarrow> txn_has c m w))"
    using tx.modify [OF ok assms(4,3) conjunct1 [OF assms(5)] conjunct2 [OF assms(5)]] by (elim exE conjE) (rule that, assumption+)
  have "length ?d = BSIZE" using put_dinode_length din_off_bound tx.view_length [OF ok] by simp
  then obtain v w where w: "log_write b (set_data b ?d t) = Ok v" "brelse b v = Ok w" "txn_ok w" "tstep s w" "blk w = (blk s)(?n := ?d)"
    "logged w = insert ?n (logged s)" "bowner w = bowner s" "users w = users s" using t(4) by blast
  have "iupdate i s = Ok w" unfolding iupdate_def Let_def using assms(2) t(1,2) tstep_fs [OF t(3)] w(1,2) by simp
  then show ?thesis using w by blast
qed

lemma fsize_word:
  assumes "off + n \<le> MAXFILE * BSIZE"
  shows "unat (of_nat off + of_nat n :: uint32) = off + n" "unat (of_nat off :: uint32) = off"
    "\<not> (of_nat off + of_nat n :: uint32) < of_nat off" "\<not> (of_nat off + of_nat n :: uint32) > of_nat (MAXFILE * BSIZE)"
proof -
  have e: "(of_nat off + of_nat n :: uint32) = of_nat (off + n)" by simp
  show u: "unat (of_nat off + of_nat n :: uint32) = off + n" unfolding e by (rule unat_of_nat_32) (use assms in simp)
  show o: "unat (of_nat off :: uint32) = off" by (rule unat_of_nat_32) (use assms in simp)
  show "\<not> (of_nat off + of_nat n :: uint32) < of_nat off" unfolding word_less_nat_alt u o by simp
  have "unat (of_nat (MAXFILE * BSIZE) :: uint32) = MAXFILE * BSIZE" by (rule unat_of_nat_32) simp
  then show "\<not> (of_nat off + of_nat n :: uint32) > of_nat (MAXFILE * BSIZE)" unfolding word_less_nat_alt u using assms by linarith
qed

text \<open>What \<^verbatim>\<open>writei\<close> guarantees.\<close>

definition written :: "nat \<Rightarrow> nat \<Rightarrow> uint8 list \<Rightarrow> 'a kfs_scheme \<Rightarrow> 'a kfs_scheme \<Rightarrow> bool" where
  "written i off bs s t \<longleftrightarrow> fs_ok t \<and> file_ok t i \<and> contents t i = take off (contents s i) @ bs @ drop (off + length bs) (contents s i) \<and>
     get_dinode (din_off (i_inum (inodes t ! i))) (blk t (iblock t i)) (inodes t ! i) = inodes t ! i \<and>
     (\<forall>jnum ip. IBLOCK jnum (sb s) = iblock s i \<longrightarrow> jnum mod IPB \<noteq> i_inum (inodes s ! i) mod IPB \<longrightarrow>
        get_dinode (din_off jnum) (blk t (iblock s i)) ip = get_dinode (din_off jnum) (blk s (iblock s i)) ip) \<and>
     (\<forall>m. in_use s m \<longrightarrow> m \<notin> fblocks s i \<union> {bm s, iblock s i} \<longrightarrow> blk t m = blk s m) \<and>
     (\<forall>j. j \<noteq> i \<longrightarrow> inodes t ! j = inodes s ! j) \<and> bowner t = bowner s \<and> users t = users s \<and> disk t = disk s \<and>
     card (logged t) \<le> card (logged s) + nblk off (length bs) + 3"

lemma upd_inode_fs [simp]: "in_use (upd_inode i f s) = in_use s" "fs_ok (upd_inode i f s) = fs_ok s"
  by (simp_all add: in_use_def fs_ok_def fun_eq_iff)

text \<open>The state after the loop of \<^verbatim>\<open>writei\<close> from \<open>s\<close>.\<close>

definition loop_post :: "nat \<Rightarrow> nat \<Rightarrow> uint8 list \<Rightarrow> 'a kfs_scheme \<Rightarrow> 'a kfs_scheme \<Rightarrow> bool" where
  "loop_post i off bs s t \<longleftrightarrow> fchg i s t \<and>
     (\<forall>k<MAXFILE * BSIZE. fbyte t i k = (if off \<le> k \<and> k < off + length bs then bs ! (k - off) else fbyte s i k)) \<and>
     card (logged t) \<le> card (logged s) + 2 + nblk off (length bs) \<and>
     (\<forall>k. off \<le> k \<longrightarrow> k < off + length bs \<longrightarrow> fa t i (k div BSIZE) \<noteq> 0)"

text \<open>The size is set and the inode written to its block.\<close>

lemma written_finish:
  assumes "fs_ok s" "file_ok s i" "off \<le> unat (i_size (inodes s ! i))" "off + length bs \<le> MAXFILE * BSIZE" "loop_post i off bs s t"
    "sz = max (unat (i_size (inodes s ! i))) (off + length bs)" "t1 = upd_inode i (\<lambda>ip. ip\<lparr>i_size := of_nat sz\<rparr>) t"
    "txn_ok u" "tstep t1 u" "blk u = (blk t)(iblock s i := put_dinode (din_off (i_inum (inodes s ! i))) (inodes t1 ! i) (blk t (iblock s i)))"
    "logged u = insert (iblock s i) (logged t)" "bowner u = bowner s" "users u = users s"
  shows "written i off bs s u"
proof -
  let ?N = "length bs" and ?sz = "unat (i_size (inodes s ! i))" and ?n = "iblock s i"
  have f: "addrs_ok s i" "?sz \<le> MAXFILE * BSIZE" "?n < bm s" "?n \<notin> log_blocks s" "bowner s ?n = None"
    "\<And>k. k < MAXFILE \<Longrightarrow> k * BSIZE < ?sz \<Longrightarrow> fa s i k \<noteq> 0" using assms(2) by (auto simp: file_ok_def)
  have t: "fchg i s t" "\<And>k. k < MAXFILE * BSIZE \<Longrightarrow> fbyte t i k = (if off \<le> k \<and> k < off + ?N then bs ! (k - off) else fbyte s i k)"
    "card (logged t) \<le> card (logged s) + 2 + nblk off ?N" "\<And>k. off \<le> k \<Longrightarrow> k < off + ?N \<Longrightarrow> fa t i (k div BSIZE) \<noteq> 0"
    using assms(5) by (auto simp: loop_post_def)
  have tc: "fs_ok t" "addrs_ok t i" "bowner t = bowner s" "\<And>k. k \<le> MAXFILE \<Longrightarrow> fa s i k \<noteq> 0 \<Longrightarrow> fa t i k = fa s i k"
    "\<And>m. in_use s m \<Longrightarrow> m \<noteq> bm s \<Longrightarrow> m \<notin> fblocks s i \<Longrightarrow> blk t m = blk s m" using t(1) by (auto simp: fchg_def)
  note tf = fchg_frame [OF t(1)]
  have i: "i < length (inodes s)" using f(1) by (simp add: addrs_ok_def)
  obtain as where as: "inodes t ! i = (inodes s ! i)\<lparr>i_addrs := as\<rparr>" using tf(14) [OF i] by blast
  have us: "sb u = sb s" "log_start u = log_start s" "log_size u = log_size s" "disk u = disk s" "inodes u = inodes t1"
    using tstep_sel [OF assms(9)] tstep_fs [OF assms(9)] tf by (simp_all add: assms(7))
  have iu: "inodes u ! i = (inodes s ! i)\<lparr>i_addrs := as, i_size := of_nat sz\<rparr>" "length (inodes u) = length (inodes s)"
    "\<And>j. j \<noteq> i \<Longrightarrow> inodes u ! j = inodes s ! j" using as tf(12,13) i by (simp_all add: us(5) assms(7) upd_inode_def)
  have usz: "unat (of_nat sz :: uint32) = sz" by (rule unat_of_nat_32) (use f(2) assms(4) in \<open>simp add: assms(6)\<close>)
  have nb: "?n \<noteq> bm s" "?n \<notin> fblocks s i" "in_use s ?n" using f(1,3) assms(1) by (auto simp: addrs_ok_def data_ok_def fs_ok_def)
  have ib: "iblock u i = ?n" "blk t ?n = blk s ?n" using iu(1) us(1) tc(5) nb by simp_all
  have fu: "fs_ok u" "in_use u = in_use t" using fs_ok_step [OF tc(1) assms(8)] us tf(1-3) tc(3) assms(10,12) nb(1) by auto
  have fa: "fa u i = fa t i"
  proof (rule ext)
    fix k
    have "fa t i MAXFILE \<noteq> 0 \<Longrightarrow> fa t i MAXFILE \<noteq> ?n"
      using data_okD(5) [OF tc(1) fa_data [OF tc(2) order_refl]] f(3) tf(1) by (metis less_asym)
    then show "fa u i k = fa t i k" by (intro fa_cong) (use iu(1) as assms(10) in auto)
  qed
  have fb: "fbyte u i k = fbyte t i k" if "k < MAXFILE * BSIZE" for k
  proof -
    have "k div BSIZE \<le> MAXFILE" using that by (simp add: div_le_mono less_imp_le div_less_iff_less_mult)
    then have "fa t i (k div BSIZE) \<noteq> 0 \<Longrightarrow> fa t i (k div BSIZE) \<noteq> ?n" using data_okD(5) [OF tc(1) fa_data [OF tc(2)]] f(3) tf(1) by (metis less_asym)
    then show ?thesis using fa assms(10) by (auto simp: fbyte_def)
  qed
  have bl: "fblocks u i = fblocks t i" using fa by (simp add: fblocks_def)
  have ao: "addrs_ok u i"
    using tc(2) fa bl fu(2) us(1) tf(1,12) assms(12) tc(3) iu as by (simp add: addrs_ok_def data_ok_def)
  have "fa u i k \<noteq> 0" if "k < MAXFILE" "k * BSIZE < sz" for k
  proof (cases "k * BSIZE < ?sz")
    case True
    then show ?thesis using f(6) tc(4) that(1) fa by simp
  next
    case False
    then show ?thesis using t(4) [of "k * BSIZE"] that(2) assms(3,6) fa by simp
  qed
  then have fo: "file_ok u i"
    using ao f(2-5) assms(4,6,12) ib(1) us(1-3) iu(1) usz by (simp add: file_ok_def)
  have co: "contents u i = take off (contents s i) @ bs @ drop (off + ?N) (contents s i)"
  proof (rule nth_equalityI)
    show "length (contents u i) = length (take off (contents s i) @ bs @ drop (off + ?N) (contents s i))"
      using iu(1) usz assms(3,6) by (simp add: contents_def)
    fix k assume "k < length (contents u i)"
    then have k: "k < sz" "k < MAXFILE * BSIZE" using iu(1) usz f(2) assms(4,6) by (simp_all add: contents_def)
    have "contents u i ! k = (if off \<le> k \<and> k < off + ?N then bs ! (k - off) else fbyte s i k)"
      using k iu(1) usz fb t(2) by (simp add: contents_def)
    then show "contents u i ! k = (take off (contents s i) @ bs @ drop (off + ?N) (contents s i)) ! k"
      using k(1) assms(3,6) by (auto simp: contents_def nth_append)
  qed
  have la: "length (i_addrs (inodes t1 ! i)) = Suc NDIRECT" using ao us(5) by (simp add: addrs_ok_def)
  have lb: "length (blk t ?n) = BSIZE" using tc(1) tx.view_length by (auto simp: fs_ok_def)
  have gd: "get_dinode (din_off (i_inum (inodes u ! i))) (blk u ?n) (inodes u ! i) = inodes u ! i"
    using get_put_dinode [OF _ la, of "din_off (i_inum (inodes s ! i))" "blk t ?n"] din_off_bound lb assms(10) us(5) iu(1) by simp
  have go: "get_dinode (din_off jnum) (blk u ?n) ip = get_dinode (din_off jnum) (blk s ?n) ip"
    if "jnum mod IPB \<noteq> i_inum (inodes s ! i) mod IPB" for jnum ip
    using get_dinode_other [OF lb that [symmetric]] assms(10) ib(2) by simp
  have ot: "blk u m = blk s m" if "in_use s m" "m \<notin> fblocks s i \<union> {bm s, ?n}" for m using tc(5) that assms(10) by simp
  have lg: "card (logged u) \<le> card (logged s) + nblk off ?N + 3"
    using t(3) card_insert_le_m1 [of "Suc (card (logged t))" "logged t" ?n] assms(11) by simp
  show ?thesis unfolding written_def ib(1)
    by (intro conjI allI impI fu(1) fo co gd go ot iu(3) assms(12,13) us(4) lg)
qed

lemma writei_ok:
  fixes s :: "'a kfs_scheme"
  assumes "fs_ok s" "file_ok s i" "src_bytes src bs s" "off \<le> unat (i_size (inodes s ! i))" "off + length bs \<le> MAXFILE * BSIZE"
    "has_room (nblk off (length bs) + 5) s" "nblk off (length bs) + 1 \<le> card (free_blocks s)"
  shows "\<exists>t. writei i src (of_nat off) (of_nat (length bs)) s = Ok (int (length bs), t) \<and> written i off bs s t"
proof -
  let ?N = "length bs" and ?sz = "unat (i_size (inodes s ! i))" and ?w = "of_nat :: nat \<Rightarrow> uint32"
  define sz where "sz = max ?sz (off + ?N)"
  have f: "addrs_ok s i" "iblock s i \<notin> log_blocks s" "bowner s (iblock s i) = None" using assms(2) by (auto simp: file_ok_def)
  have i: "i < length (inodes s)" using f(1) by (simp add: addrs_ok_def)
  have c2: "cost s i \<le> 2" "ind_missing s i \<le> 1" by (simp_all add: cost_def ind_missing_def)
  then have "has_room (nblk off ?N + cost s i + 3) s" using assms(6) by (auto intro: room_mono)
  then obtain t where t: "writei_loop i src (?w off) (?w ?N) 0 s = Ok (?w ?N, ?w (off + ?N), t)" "fchg i s t"
    "\<forall>k<MAXFILE * BSIZE. fbyte t i k = (if off \<le> k \<and> k < off + ?N then bs ! (k - off) else fbyte s i k)"
    "has_room (cost t i + 3) t" "card (logged t) + cost t i \<le> card (logged s) + cost s i + nblk off ?N"
    "\<forall>k. off \<le> k \<longrightarrow> k < off + ?N \<longrightarrow> fa t i (k div BSIZE) \<noteq> 0"
    using writei_loop_ok [OF assms(1) f(1), of 0 bs off src] assms(3,5,7) c2 by auto
  have lp: "loop_post i off bs s t" using t(2,3,5,6) c2(1) by (simp add: loop_post_def)
  note tf = fchg_frame [OF t(2)]
  obtain as where as: "inodes t ! i = (inodes s ! i)\<lparr>i_addrs := as\<rparr>" using tf(14) [OF i] by blast
  define t1 where "t1 = upd_inode i (\<lambda>ip. ip\<lparr>i_size := ?w sz\<rparr>) t"
  note fw = fsize_word [OF assms(5)]
  have t1: "(if ?w (off + ?N) > i_size (inodes t ! i) then upd_inode i (\<lambda>ip. ip\<lparr>i_size := ?w (off + ?N)\<rparr>) t else t) = t1"
  proof (cases "?sz < off + ?N")
    case True
    then have "sz = off + ?N" by (simp add: sz_def)
    then show ?thesis using True fw(1) as by (simp add: t1_def word_less_nat_alt)
  next
    case False
    then have "?w sz = i_size (inodes s ! i)" by (simp add: sz_def)
    moreover have "(inodes t ! i)\<lparr>i_size := i_size (inodes s ! i)\<rparr> = inodes t ! i" using as by simp
    then have "upd_inode i (\<lambda>ip. ip\<lparr>i_size := i_size (inodes s ! i)\<rparr>) t = t" by (simp add: upd_inode_def)
    ultimately show ?thesis using False fw(1) as by (simp add: t1_def word_less_nat_alt)
  qed
  have it: "iblock t1 i = iblock s i" "i_inum (inodes t1 ! i) = i_inum (inodes s ! i)" "i_dev (inodes t1 ! i) = ROOTDEV"
    using as tf(1,12) i f(1) by (simp_all add: t1_def addrs_ok_def) (simp_all add: upd_inode_def)
  have tc: "fs_ok t1" "bowner t1 = bowner s" "users t1 = users s" "blk t1 = blk t" "logged t1 = logged t" "log_start t1 = log_start s" "log_size t1 = log_size s" "sb t1 = sb s"
    using t(2) tf by (simp_all add: t1_def fchg_def)
  have "has_room 1 t1" using t(4) by (auto simp: t1_def intro: room_mono)
  then obtain u where u: "iupdate i t1 = Ok u" "txn_ok u" "tstep t1 u"
    "blk u = (blk t)(iblock s i := put_dinode (din_off (i_inum (inodes s ! i))) (inodes t1 ! i) (blk t (iblock s i)))"
    "logged u = insert (iblock s i) (logged t)" "bowner u = bowner s" "users u = users s"
    using iupdate_ok [OF tc(1) it(3)] f(2,3) unfolding it(1,2) tc by auto
  have sn: "sint (?w ?N) = int ?N"
    using assms(5) by (simp add: signed_of_nat signed_take_bit_int_eq_self)
  have "\<not> ?w off > i_size (inodes s ! i)" using assms(4) fw(2) by (simp add: word_less_nat_alt)
  then have w: "writei i src (?w off) (?w ?N) s = Ok (int ?N, u)"
    unfolding writei_def using fw(3,4) by (simp add: Let_def t(1) t1 u(1) sn del: of_nat_add)
  show ?thesis using w written_finish [OF assms(1,2,4,5) lp sz_def t1_def u(2-7)] by blast
qed

text \<open>The source of a write: bytes of the kernel, or mapped user memory.\<close>

lemma src_local: "src_bytes (SLocal bs) bs s" if "length bs < 2 ^ 64"
  using that by (simp add: src_bytes_def either_copyin_def unat_of_nat_64)

lemma src_user:
  fixes s :: "'a kfs_scheme"
  assumes "user_inv xs (p_pagetable (procs s ! p)) s" "cur s = Some p" "p < length (procs s)"
    "umem_get (mem s) (p_pagetable (procs s ! p)) va (length bs) = map Some bs"
  shows "src_bytes (SUser va) bs s"
  unfolding src_bytes_def
proof (intro allI impI)
  fix tot m and u :: "'a kfs_scheme"
  assume h: "held u = held s" and u: "mem u = mem s" "freelist u = freelist s" "kend u = kend s" "cur u = cur s" "woken (procs s) (procs u)" "tot + m \<le> length bs"
  let ?r = "p_pagetable (procs s ! p)"
  have "p_pagetable (procs u ! p) = ?r" using u(5) assms(3) by (auto simp: woken_def)
  moreover have "user_inv xs ?r u" using assms(1) u(1-3) h by (simp add: user_inv_def vm_inv_def kalloc_ready_def kmem_inv_def)
  then obtain r cs where c: "copyin ?r (va + of_nat tot) m u = Ok (r, cs)" "r = 0 \<longleftrightarrow> None \<notin> set (umem_get (mem u) ?r (va + of_nat tot) m)"
    "r = 0 \<longrightarrow> map Some cs = umem_get (mem u) ?r (va + of_nat tot) m" using copyin_spec by blast
  have "umem_get (mem s) ?r (va + of_nat tot) m = map Some (get_at tot m bs)"
  proof (rule nth_equalityI)
    fix j assume "j < length (umem_get (mem s) ?r (va + of_nat tot) m)"
    then have j: "j < m" by (simp add: umem_get_def)
    then have "umem_get (mem s) ?r va (length bs) ! (tot + j) = Some (bs ! (tot + j))" unfolding assms(4) using u(6) by simp
    then show "umem_get (mem s) ?r (va + of_nat tot) m ! j = map Some (get_at tot m bs) ! j"
      using j u(6) by (simp add: umem_get_def nth_get_at add.assoc)
  qed (use u(6) in \<open>simp add: umem_get_def\<close>)
  then have "r = 0" "map Some cs = map Some (get_at tot m bs)" using c(2,3) u(1) by auto
  then have "r = 0" "cs = get_at tot m bs" by (simp_all add: inj_map_eq_map inj_Some)
  ultimately show "either_copyin (SUser va) (of_nat tot) m u = Ok (0, get_at tot m bs)"
    using c(1) u(4) assms(2) by (simp add: either_copyin_def myproc_def)
qed

subsection \<open>Reading\<close>

text \<open>A copy to user memory changes physical memory only; the file system does not depend on it.\<close>

abbreviation with_mem :: "mem \<Rightarrow> uint64 \<Rightarrow> 'a kfs_scheme \<Rightarrow> 'a kfs_scheme" where
  "with_mem m f s \<equiv> s\<lparr>mem := m, freelist := f\<rparr>"

lemma fs_view:
  fixes s t :: "'a kfs_scheme"
  assumes e: "bufs t = bufs s" "disk t = disk s" "lh t = lh s" "held t = held s" "length (procs t) = length (procs s)" "cur t = cur s" "log_dev t = log_dev s"
    "log_size t = log_size s" "log_start t = log_start s" "outstanding t = outstanding s" "sb t = sb s" "inodes t = inodes s"
  shows "blk t = blk s" "bowner t = bowner s" "users t = users s" "logged t = logged s" "txn_ok t = txn_ok s" "in_use t = in_use s" "fs_ok t = fs_ok s"
    "fa t = fa s" "addrs_ok t i = addrs_ok s i" "file_ok t i = file_ok s i" "fbyte t = fbyte s" "contents t i = contents s i"
proof -
  note v = cache_view [OF e(1,2)]
  show g: "blk t = blk s" "bowner t = bowner s" "logged t = logged s" "users t = users s"
    using v e(3) by (simp_all add: logged_def users_def fun_eq_iff)
  show k: "txn_ok t = txn_ok s" using v(2,4) e g by (simp add: txn_ok_def kio_def kenv_def log_inv_def)
  show u: "in_use t = in_use s" using g(1) e by (simp add: in_use_def fun_eq_iff)
  show "fs_ok t = fs_ok s" using k u g e by (simp add: fs_ok_def)
  show a: "fa t = fa s" using g(1) e by (simp add: fa_def fun_eq_iff Let_def)
  then show ad: "addrs_ok t i = addrs_ok s i" using u g e by (simp add: addrs_ok_def data_ok_def fblocks_def)
  show "file_ok t i = file_ok s i" using ad a g e by (simp add: file_ok_def)
  show b: "fbyte t = fbyte s" using a g(1) by (simp add: fbyte_def fun_eq_iff)
  show "contents t i = contents s i" using b e(12) by (simp add: contents_def)
qed

lemma with_mem_sel:
  fixes s :: "'a kfs_scheme"
  assumes "t = with_mem m f s"
  shows "blk t = blk s" "bowner t = bowner s" "users t = users s" "logged t = logged s" "txn_ok t = txn_ok s" "in_use t = in_use s" "fs_ok t = fs_ok s"
    "fa t = fa s" "addrs_ok t i = addrs_ok s i" "file_ok t i = file_ok s i" "fbyte t = fbyte s" "txn_has b n t = txn_has b n s"
proof -
  have "my_pid t = my_pid s" by (simp add: assms my_pid_def)
  moreover have e: "bufs t = bufs s" "disk t = disk s" "lh t = lh s" by (simp_all add: assms)
  ultimately show "txn_has b n t = txn_has b n s" using cache_view [OF e(1,2)] by (simp add: logged_def users_def txn_has_def)
qed (rule fs_view; simp add: assms)+

text \<open>
  \<open>sink full f g s\<close>: from \<open>s\<close> on, the bytes of \<open>full\<close> can be handed on piece by piece; \<open>f j\<close> holds of the destination and memory
  once \<open>j\<close> bytes are, and \<open>g\<close> of memory when a copy has failed.
\<close>

definition sink :: "uint8 list \<Rightarrow> (nat \<Rightarrow> dst \<Rightarrow> mem \<Rightarrow> uint64 \<Rightarrow> bool) \<Rightarrow> (mem \<Rightarrow> uint64 \<Rightarrow> bool) \<Rightarrow> 'a kfs_scheme \<Rightarrow> bool" where
  "sink full f g s \<longleftrightarrow> (\<forall>j k d (u :: 'a kfs_scheme). held u = held s \<longrightarrow> kend u = kend s \<longrightarrow> cur u = cur s \<longrightarrow> woken (procs s) (procs u) \<longrightarrow>
     f j d (mem u) (freelist u) \<longrightarrow> j + k \<le> length full \<longrightarrow>
     (\<exists>r d' m fl. either_copyout d (of_nat j) (get_at j k full) u = Ok (r, d', with_mem m fl u) \<and> (r = 0 \<and> f (j + k) d' m fl \<or> r = -1 \<and> g m fl)))"

lemma sinkD:
  fixes s u :: "'a kfs_scheme"
  assumes "sink full f g s" "held u = held s" "kend u = kend s" "cur u = cur s" "woken (procs s) (procs u)" "f j d (mem u) (freelist u)" "j + k \<le> length full"
  shows "\<exists>r d' m fl. either_copyout d (of_nat j) (get_at j k full) u = Ok (r, d', with_mem m fl u) \<and> (r = 0 \<and> f (j + k) d' m fl \<or> r = -1 \<and> g m fl)"
  by (rule assms(1) [unfolded sink_def, rule_format]) (use assms in simp_all)

lemma sink_frame:
  fixes s t :: "'a kfs_scheme"
  assumes "sink full f g s" "held t = held s" "kend t = kend s" "cur t = cur s" "woken (procs s) (procs t)"
  shows "sink full f g t"
  unfolding sink_def
proof (intro allI impI)
  fix j k d and u :: "'a kfs_scheme"
  assume u: "held u = held t" "kend u = kend t" "cur u = cur t" "woken (procs t) (procs u)" "f j d (mem u) (freelist u)" "j + k \<le> length full"
  show "\<exists>r d' m fl. either_copyout d (of_nat j) (get_at j k full) u = Ok (r, d', with_mem m fl u) \<and> (r = 0 \<and> f (j + k) d' m fl \<or> r = -1 \<and> g m fl)"
    by (rule sinkD [OF assms(1)]) (use u assms woken_trans [OF assms(5) u(4)] in simp_all)
qed

text \<open>Reading a part of one block and handing it on.\<close>

lemma read_block:
  fixes s :: "'a kfs_scheme"
  assumes "fs_ok s" "addrs_ok s i" "cache_room (logged s) (users s) 1" "bn < MAXFILE" "fa s i bn \<noteq> 0" "sink full f g s" "f j d (mem s) (freelist s)"
    "p + m \<le> BSIZE" "j + m \<le> length full" "get_at j m full = map (fbyte s i) [bn * BSIZE + p..<bn * BSIZE + p + m]"
  shows "\<exists>t b u r d' m' fl v. bmap i (of_nat bn) s = Ok (fa s i bn, t) \<and> inodes t = inodes s \<and> bread ROOTDEV (fa s i bn) t = Ok (b, u) \<and>
    either_copyout d (of_nat j) (get_at p m (bdata b u)) u = Ok (r, d', with_mem m' fl u) \<and> brelse b (with_mem m' fl u) = Ok v \<and>
    same_view (with_mem m' fl s) v \<and> mem v = m' \<and> freelist v = fl \<and> (r = 0 \<and> f (j + m) d' m' fl \<or> r = -1 \<and> g m' fl)"
proof -
  let ?a = "fa s i bn"
  obtain t where t: "bmap i (of_nat bn) s = Ok (?a, t)" "same_view s t" using bmap_mapped [OF assms(1-5)] by blast
  note sd = same_viewD [OF t(2)]
  have tt: "txn_ok t" "tstep s t" using t(2) by (simp_all add: same_view_def)
  note a = data_okD [OF assms(1) fa_data [OF assms(2) less_imp_le [OF assms(4)] assms(5)]]
  obtain b u where u: "bread ROOTDEV ?a t = Ok (b, u)" "txn_has b ?a u" "txn_ok u" "tstep t u" "blk u = blk t" "disk u = disk t" "logged u = logged t"
    "bowner u = (bowner t)(?a := Some (my_pid t))" "users u = (users t)(?a := Suc (users t ?a))"
    using tx.rd [OF tt(1), of ?a] a(2,4) assms(3) sd by auto
  have su: "tstep s u" using tstep_trans [OF tt(2) u(4)] .
  note us = tstep_sel [OF su] tstep_fs [OF su]
  have l: "length (blk s ?a) = BSIZE" using assms(1) tx.view_length by (auto simp: fs_ok_def)
  define c where "c = map (fbyte s i) [bn * BSIZE + p..<bn * BSIZE + p + m]"
  have "bdata b u = blk s ?a" using tx.data [OF u(2)] u(5) sd(10) by simp
  moreover have "get_at p m (blk s ?a) = c"
  proof (rule nth_equalityI)
    fix k assume "k < length (get_at p m (blk s ?a))"
    then have k: "k < m" using l assms(8) by simp
    then have pk: "p + k < BSIZE" using assms(8) by linarith
    have "(bn * BSIZE + p + k) mod BSIZE = p + k" unfolding add.assoc mod_mult_self3 using pk by simp
    moreover have "(bn * BSIZE + p + k) div BSIZE = bn" using pk by (simp add: div_nat_eqI)
    ultimately show "get_at p m (blk s ?a) ! k = c ! k" using k l assms(5,8) by (simp add: c_def nth_get_at fbyte_def)
  qed (use l assms(8) in \<open>simp add: c_def\<close>)
  ultimately have g: "get_at p m (bdata b u) = c" by simp
  have gc: "get_at j m full = c" using assms(10) by (simp add: c_def)
  obtain r d' m' fl where m: "either_copyout d (of_nat j) c u = Ok (r, d', with_mem m' fl u)" "r = 0 \<and> f (j + m) d' m' fl \<or> r = -1 \<and> g m' fl"
    using sinkD [OF assms(6), of u j d m] us assms(7,9) unfolding gc by auto
  let ?u = "with_mem m' fl u"
  note e = with_mem_sel [OF refl, where m = m' and f = fl and s = u]
  have "?a \<in> logged ?u \<or> blk ?u ?a = disk ?u ?a" using tx.clean [OF tt(1), of ?a] e u(5-7) a(4) sd(13) by auto
  then obtain v where v: "brelse b ?u = Ok v" "txn_ok v" "tstep ?u v" "blk v = blk u" "logged v = logged u" "bowner v = (bowner u)(?a := None)"
    "users v = (users u)(?a := users u ?a - 1)"
    using tx.rel [of ?u b ?a] u(2,3) e by auto
  have "tstep (with_mem m' fl s) ?u"
  proof -
    obtain bs ps h where "u = s\<lparr>procs := ps, bufs := bs, lh := h\<rparr>" "woken (procs s) ps" using su unfolding tstep_def by blast
    then show ?thesis unfolding tstep_def by (intro exI [of _ bs] exI [of _ ps] exI [of _ h]) simp
  qed
  then have "tstep (with_mem m' fl s) v" using tstep_trans v(3) by blast
  then have "same_view (with_mem m' fl s) v"
    using with_mem_sel [OF refl, where m = m' and f = fl and s = s] v u(5,7-9) sd a(4) by (simp add: same_view_def fun_upd_idem)
  moreover have "mem v = m'" "freelist v = fl" using tstep_sel [OF v(3)] by simp_all
  ultimately show ?thesis using t(1) sd(2) u(1) m [folded g] v(1) by blast
qed

lemma same_view_mem:
  assumes "same_view (with_mem m f s) t"
  shows "same_view (with_mem m' f' s) (with_mem m' f' t)"
proof -
  obtain bs ps h where e: "t = (with_mem m f s)\<lparr>procs := ps, bufs := bs, lh := h\<rparr>" "woken (procs s) ps"
    using assms unfolding same_view_def tstep_def by auto
  have "tstep (with_mem m' f' s) (with_mem m' f' t)" unfolding tstep_def
    by (rule exI [of _ bs], rule exI [of _ ps], rule exI [of _ h]) (simp add: e)
  then show ?thesis using assms with_mem_sel [OF refl, where m = m and f = f and s = s] with_mem_sel [OF refl, where m = m' and f = f' and s = s]
    with_mem_sel [OF refl, where m = m' and f = f' and s = t] by (simp add: same_view_def)
qed

lemma readi_loop_ok:
  fixes s :: "'a kfs_scheme"
  assumes "fs_ok s" "addrs_ok s i" "cache_room (logged s) (users s) 1" "T \<le> N" "o0 + N \<le> MAXFILE * BSIZE"
    "\<forall>k. o0 \<le> k \<longrightarrow> k < o0 + N \<longrightarrow> fa s i (k div BSIZE) \<noteq> 0" "full = map (fbyte s i) [o0..<o0 + N]" "sink full f g s" "f T d (mem s) (freelist s)"
  shows "\<exists>r d' t. readi_loop i d (of_nat (o0 + T)) (of_nat N) (of_nat T) s = Ok (r, d', t) \<and> same_view (with_mem (mem t) (freelist t) s) t \<and>
    (r = of_nat N \<and> f N d' (mem t) (freelist t) \<or> r = -1 \<and> g (mem t) (freelist t))"
  using assms
proof (induction "N - T" arbitrary: T s d rule: less_induct)
  case less
  let ?w = "of_nat :: nat \<Rightarrow> uint32"
  define off where "off = o0 + T"
  have N: "N < 2 ^ 32" "off < 2 ^ 32" "T < 2 ^ 32" using less.prems(4,5) by (simp_all add: off_def)
  have lt: "?w T < ?w N \<longleftrightarrow> T < N" using unat_of_nat_32 N(1,3) by (simp add: word_less_nat_alt)
  show ?case
  proof (cases "T = N")
    case True
    have "same_view (with_mem (mem s) (freelist s) s) s" using same_view_refl [of s] less.prems(1) by (simp add: fs_ok_def)
    then show ?thesis using True less.prems(9) by (intro exI [of _ "?w N"] exI [of _ d] exI [of _ s]) (simp add: readi_loop.simps)
  next
    case False
    define m where "m = min (N - T) (BSIZE - off mod BSIZE)"
    define bn where "bn = off div BSIZE"
    have T: "T < N" "0 < m" "m \<le> N - T" "off mod BSIZE + m \<le> BSIZE" "T + m \<le> N" using False less.prems(4) by (auto simp: m_def min_def)
    have bn: "bn < MAXFILE" "fa s i bn \<noteq> 0" using less.prems(5,6) T(1) by (simp_all add: bn_def off_def div_less_iff_less_mult)
    have bo: "bn * BSIZE + off mod BSIZE = off" by (simp add: bn_def)
    have fl: "T + m \<le> length full" "get_at T m full = map (fbyte s i) [off..<off + m]"
      using T(5) less.prems(7) by (auto intro!: nth_equalityI simp: nth_get_at off_def add.assoc)
    obtain t b u r d' m' fl v where r: "bmap i (?w bn) s = Ok (fa s i bn, t)" "inodes t = inodes s" "bread ROOTDEV (fa s i bn) t = Ok (b, u)"
      "either_copyout d (of_nat T) (get_at (off mod BSIZE) m (bdata b u)) u = Ok (r, d', with_mem m' fl u)"
      "brelse b (with_mem m' fl u) = Ok v" "same_view (with_mem m' fl s) v" "mem v = m'" "freelist v = fl" "r = 0 \<and> f (T + m) d' m' fl \<or> r = -1 \<and> g m' fl"
      using read_block [OF less.prems(1-3) bn less.prems(8,9) T(4) fl(1), unfolded bo, OF fl(2)] by (elim exE conjE) (rule that, assumption+)
    have cm: "chunk (?w N) (?w T) (?w off) = ?w m" unfolding m_def by (rule chunk_eq [OF less.prems(4) N(1,2)])
    have um: "unat (?w m) = m" by (rule unat_of_nat_32) (use T(3) N(1) in linarith)
    have ut: "(ucast (?w T) :: uint64) = of_nat T" unfolding word_unat_eq_iff unat_ucast_32_64 unat_of_nat_32 [OF N(3)] using N(3) by (simp add: unat_of_nat_64)
    have dev: "i_dev (inodes s ! i) = ROOTDEV" using less.prems(2) by (simp add: addrs_ok_def)
    have step: "readi_loop i d (?w off) (?w N) (?w T) s = (if r = -1 then Ok (-1, d', v) else readi_loop i d' (?w (o0 + (T + m))) (?w N) (?w (T + m)) v)"
      apply (subst readi_loop.simps)
      using lt T(1) r(1-5) dev off_word [OF N(2)] by (simp add: cm um ut bn_def [symmetric] Let_def) (simp add: off_def add_ac)
    show ?thesis
    proof (cases "r = -1")
      case True
      then show ?thesis using step r(6-9) unfolding off_def [symmetric] by (intro exI [of _ "-1"] exI [of _ d'] exI [of _ v]) auto
    next
      case False
      then have fv: "f (T + m) d' (mem v) (freelist v)" using r(7-9) by auto
      note sd = same_viewD [OF r(6)] and e = with_mem_sel [OF refl, where m = m' and f = fl and s = s]
      have vo: "fs_ok v" "addrs_ok v i" "cache_room (logged v) (users v) 1" "fa v = fa s" "fbyte v = fbyte s" using sd e less.prems(1-3) by simp_all
      have sv: "sink full f g v"
        by (rule sink_frame [OF less.prems(8)]) (use sd r(6) tstep_sel [of "with_mem m' fl s" v] in \<open>simp_all add: same_view_def\<close>)
      have en: "N - (T + m) < N - T" using T by linarith
      obtain q d'' x where x: "readi_loop i d' (?w (o0 + (T + m))) (?w N) (?w (T + m)) v = Ok (q, d'', x)" "same_view (with_mem (mem x) (freelist x) v) x"
        "q = ?w N \<and> f N d'' (mem x) (freelist x) \<or> q = -1 \<and> g (mem x) (freelist x)"
        using less.hyps [OF en vo(1-3) T(5) less.prems(5) _ _ sv fv] less.prems(6,7) vo(4,5) by auto
      have "same_view (with_mem (mem x) (freelist x) s) (with_mem (mem x) (freelist x) v)" by (rule same_view_mem [OF r(6)])
      then have "same_view (with_mem (mem x) (freelist x) s) x" using same_view_trans x(2) by blast
      then show ?thesis using step x(1,3) False unfolding off_def [symmetric] by (intro exI [of _ q] exI [of _ d''] exI [of _ x]) simp
    qed
  qed
qed

lemma readi_ok:
  fixes s :: "'a kfs_scheme"
  assumes "fs_ok s" "file_ok s i" "cache_room (logged s) (users s) 1" "off \<le> length (contents s i)" "off + n < 2 ^ 32"
    "bs = get_at off n (contents s i)" "sink bs f g s" "f 0 d (mem s) (freelist s)"
  shows "\<exists>r d' t. readi i d (of_nat off) (of_nat n) s = Ok (r, d', t) \<and> same_view (with_mem (mem t) (freelist t) s) t \<and>
    (r = int (length bs) \<and> f (length bs) d' (mem t) (freelist t) \<or> r = -1 \<and> g (mem t) (freelist t))"
proof -
  let ?sz = "unat (i_size (inodes s ! i))" and ?w = "of_nat :: nat \<Rightarrow> uint32"
  have f: "addrs_ok s i" "?sz \<le> MAXFILE * BSIZE" "\<And>k. k < MAXFILE \<Longrightarrow> k * BSIZE < ?sz \<Longrightarrow> fa s i k \<noteq> 0"
    using assms(2) by (auto simp: file_ok_def)
  have o: "off \<le> ?sz" "length bs = min n (?sz - off)" using assms(4,6) by (simp_all add: contents_def get_at_def)
  define N where "N = length bs"
  have N: "off + N \<le> ?sz" "N \<le> ?sz" using o by (auto simp: N_def)
  have bs: "bs = map (fbyte s i) [off..<off + N]"
    using o by (intro nth_equalityI) (simp_all add: N_def assms(6) contents_def get_at_def less_diff_conv add.commute)
  have w: "unat (?w off) = off" "unat (?w off + ?w n) = off + n" "unat (?w n) = n"
    using assms(5) unat_of_nat_32 [of "off + n"] unat_of_nat_32 [of off] unat_of_nat_32 [of n] by simp_all
  have nz: "fa s i (k div BSIZE) \<noteq> 0" if "off \<le> k" "k < off + N" for k
  proof (rule f(3))
    show "k div BSIZE < MAXFILE" using that N(1) f(2) by (simp add: div_less_iff_less_mult)
    show "k div BSIZE * BSIZE < ?sz" using that N(1) div_times_less_eq_dividend [of k BSIZE] by linarith
  qed
  have o1: "off + N \<le> MAXFILE * BSIZE" using N(1) f(2) by linarith
  obtain q d' t where t: "readi_loop i d (?w off) (?w N) 0 s = Ok (q, d', t)" "same_view (with_mem (mem t) (freelist t) s) t"
    "q = ?w N \<and> f N d' (mem t) (freelist t) \<or> q = -1 \<and> g (mem t) (freelist t)"
    using readi_loop_ok [OF assms(1) f(1) assms(3) le0 o1 _ bs assms(7,8)] nz by auto
  have n: "(if ?w off + ?w n > i_size (inodes s ! i) then i_size (inodes s ! i) - ?w off else ?w n) = ?w N"
    unfolding word_unat_eq_iff word_less_nat_alt w using o w N(2) f(2) unat_of_nat_32 [of N]
    by (auto simp: N_def unat_sub_if' word_less_nat_alt not_less)
  have sn: "sint (?w N) = int N" using N(2) f(2) by (simp add: signed_of_nat signed_take_bit_int_eq_self)
  have "\<not> ?w off > i_size (inodes s ! i)" "\<not> ?w off + ?w n < ?w off" using o(1) w by (simp_all add: word_less_nat_alt)
  then have "readi i d (?w off) (?w n) s = Ok (sint q, d', t)" unfolding readi_def Let_def n using t(1) by simp
  then show ?thesis using t(2,3) sn by (intro exI [of _ "sint q"] exI [of _ d'] exI [of _ t]) (auto simp: N_def)
qed

text \<open>The three destinations.\<close>

lemma put_at_take:
  assumes "j + k \<le> length bs" "length bs \<le> length v"
  shows "put_at j (get_at j k bs) (put_at 0 (take j bs) v) = put_at 0 (take (j + k) bs) v"
  using assms by (intro nth_equalityI) (auto simp: nth_put_at nth_get_at put_at_def get_at_def nth_append min_def)

lemma sink_local:
  fixes s :: "'a kfs_scheme"
  assumes "length bs \<le> length v" "length bs < 2 ^ 64"
  shows "sink bs (\<lambda>j d m f. d = DLocal (put_at 0 (take j bs) v) \<and> m = mem s \<and> f = freelist s) (\<lambda>_ _. False) s"
  unfolding sink_def
proof (intro allI impI, elim conjE)
  fix j k d and u :: "'a kfs_scheme"
  assume u: "j + k \<le> length bs" "d = DLocal (put_at 0 (take j bs) v)" "mem u = mem s" "freelist u = freelist s"
  have "unat (of_nat j :: uint64) = j" using u(1) assms(2) by (simp add: unat_of_nat_64)
  moreover have "length (put_at 0 (take j bs) v) = length v" using u(1) assms(1) by simp
  ultimately show "\<exists>r d' m fl. either_copyout d (of_nat j) (get_at j k bs) u = Ok (r, d', with_mem m fl u) \<and>
      (r = 0 \<and> d' = DLocal (put_at 0 (take (j + k) bs) v) \<and> m = mem s \<and> fl = freelist s \<or> r = -1 \<and> False)"
    using u assms put_at_take [OF u(1) assms(1)]
    by (intro exI [of _ 0] exI [of _ "DLocal (put_at 0 (take (j + k) bs) v)"] exI [of _ "mem s"] exI [of _ "freelist s"]) (simp add: either_copyout_def)
qed

lemma mem_put_append:
  assumes "length as + length bs < 2 ^ 64"
  shows "mem_put (mem_put m a as) (a + of_nat (length as)) bs = mem_put m a (as @ bs)"
proof
  fix v
  have "umem_put (umem_put (\<lambda>v. Some (m v)) a as) (a + of_nat (length as)) bs v = umem_put (\<lambda>v. Some (m v)) a (as @ bs) v"
    using umem_put_append [OF assms] by simp
  then show "mem_put (mem_put m a as) (a + of_nat (length as)) bs v = mem_put m a (as @ bs) v"
    by (auto simp: umem_put_def mem_put_def split: if_splits)
qed

lemma take_get_at: "take j bs @ get_at j k bs = take (j + k) bs"
  by (simp add: get_at_def take_add)

lemma sink_kern:
  fixes s :: "'a kfs_scheme"
  assumes "length bs < 2 ^ 64"
  shows "sink bs (\<lambda>j d m f. d = DKern a \<and> m = mem_put (mem s) a (take j bs) \<and> f = freelist s) (\<lambda>_ _. False) s"
  unfolding sink_def
proof (intro allI impI, elim conjE)
  fix j k d and u :: "'a kfs_scheme"
  assume u: "j + k \<le> length bs" "d = DKern a" "mem u = mem_put (mem s) a (take j bs)" "freelist u = freelist s"
  have "mem_put (mem u) (a + of_nat j) (get_at j k bs) = mem_put (mem s) a (take (j + k) bs)"
    using mem_put_append [of "take j bs" "get_at j k bs" "mem s" a] u(1,3) assms take_get_at [of j bs k] by simp
  then show "\<exists>r d' m fl. either_copyout d (of_nat j) (get_at j k bs) u = Ok (r, d', with_mem m fl u) \<and>
      (r = 0 \<and> d' = DKern a \<and> m = mem_put (mem s) a (take (j + k) bs) \<and> fl = freelist s \<or> r = -1 \<and> False)"
    using u by (intro exI [of _ 0] exI [of _ d] exI [of _ "mem_put (mem s) a (take (j + k) bs)"] exI [of _ "freelist s"]) (simp add: either_copyout_def)
qed

lemma umem_get_append: "umem_get m r va (j + k) = umem_get m r va j @ umem_get m r (va + of_nat j) k"
proof (rule nth_equalityI)
  fix i assume i: "i < length (umem_get m r va (j + k))"
  show "umem_get m r va (j + k) ! i = (umem_get m r va j @ umem_get m r (va + of_nat j) k) ! i"
  proof (cases "i < j")
    case False
    then have "va + of_nat i = va + of_nat j + of_nat (i - j)" by (simp add: add.assoc of_nat_add [symmetric] del: of_nat_add)
    then show ?thesis using i False by (simp add: umem_get_def nth_append)
  qed (use i in \<open>simp add: umem_get_def nth_append\<close>)
qed (simp add: umem_get_def)

lemma sink_user:
  fixes s :: "'a kfs_scheme"
  assumes "user_inv xs r s" "cur s = Some p" "p < length (procs s)" "r = p_pagetable (procs s ! p)" "length bs < 2 ^ 64"
  shows "sink bs (\<lambda>j d m f. d = DUser va \<and> user_inv xs r (with_mem m f s) \<and> umem m r = umem_put (umem (mem s) r) va (take j bs) \<and> None \<notin> set (umem_get (mem s) r va j))
    (\<lambda>m f. user_inv xs r (with_mem m f s) \<and> (\<exists>k<length bs. umem m r = umem_put (umem (mem s) r) va (take k bs)) \<and> None \<in> set (umem_get (mem s) r va (length bs))) s"
    (is "sink bs ?f ?g s")
  unfolding sink_def
proof (intro allI impI, elim conjE)
  fix j k d and u :: "'a kfs_scheme"
  let ?c = "get_at j k bs" and ?v = "va + of_nat j"
  assume u: "held u = held s" "kend u = kend s" "cur u = cur s" "woken (procs s) (procs u)" "j + k \<le> length bs" "d = DUser va"
    "user_inv xs r (with_mem (mem u) (freelist u) s)" "umem (mem u) r = umem_put (umem (mem s) r) va (take j bs)" "None \<notin> set (umem_get (mem s) r va j)"
  have pt: "p_pagetable (procs u ! p) = r" using u(4) assms(3,4) by (auto simp: woken_def)
  have lj: "length (take j bs) = j" "length ?c = k" "j + k < 2 ^ 64" using u(5) assms(5) by auto
  have "user_inv xs r u" using u(1,2,7) by (simp add: user_inv_def vm_inv_def kalloc_ready_def kmem_inv_def)
  then obtain q n t where t: "copyout r ?v ?c u = Ok (q, t)" "copied xs r ?v ?c u q t n"
    using copyout_spec [of xs r u ?c ?v] lj by auto
  obtain m f where t': "t = with_mem m f u" using t(2) unfolding copied_def kmem_same_def by blast
  have "umem (mem u) r (?v + of_nat i) = umem (mem s) r (?v + of_nat i)" if "i < k" for i
    using umem_put_later [of "take j bs" i "umem (mem s) r" va] lj that unfolding u(8) by simp
  then have g: "umem_get (mem u) r ?v k = umem_get (mem s) r ?v k" by (simp add: umem_get_def)
  have ui: "user_inv xs r (with_mem m f s)" using t(2) u(1,2) unfolding t' by (simp add: copied_def user_inv_def vm_inv_def kalloc_ready_def kmem_inv_def)
  have um: "umem m r = umem_put (umem (mem s) r) va (take (j + min n k) bs)"
  proof -
    have "umem m r = umem_put (umem_put (umem (mem s) r) va (take j bs)) ?v (take n ?c)" using t(2) u(8) by (simp add: copied_def t')
    also have "\<dots> = umem_put (umem (mem s) r) va (take j bs @ take n ?c)"
      using umem_put_append [of "take j bs" "take n ?c"] lj by simp
    also have "take n ?c = get_at j (min n k) bs" by (simp add: get_at_def min.commute)
    finally show ?thesis by (simp add: take_get_at)
  qed
  have e: "either_copyout d (of_nat j) ?c u = Ok (q, d, with_mem m f u)"
    using t(1) u(3,6) assms(2) pt unfolding t' by (simp add: either_copyout_def myproc_def)
  have "q = 0 \<and> ?f (j + k) d m f \<or> q = -1 \<and> ?g m f"
  proof (cases "None \<in> set (umem_get (mem s) r ?v k)")
    case True
    then have "q = -1" "n < k" using t(2) lj(2) g by (auto simp: copied_def)
    moreover have "None \<in> set (umem_get (mem s) r va (length bs))"
      using True umem_get_append [of "mem s" r va j k] umem_get_append [of "mem s" r va "j + k" "length bs - (j + k)"] u(5) by simp
    ultimately show ?thesis using ui um u(5) by (intro disjI2 conjI exI [of _ "j + n"]) auto
  next
    case False
    then have "q = 0" "n = k" using t(2) lj(2) g by (auto simp: copied_def)
    then show ?thesis using ui um u(6,9) False umem_get_append [of "mem s" r va j k] by auto
  qed
  then show "\<exists>r' d' m fl. either_copyout d (of_nat j) ?c u = Ok (r', d', with_mem m fl u) \<and> (r' = 0 \<and> ?f (j + k) d' m fl \<or> r' = -1 \<and> ?g m fl)"
    using e by blast
qed

lemma nblk_bound: "nblk off r \<le> Suc k" if "r \<le> k * BSIZE"
proof (cases "r = 0")
  case False
  have "(off + r - 1) div BSIZE \<le> (off div BSIZE * BSIZE + (k * BSIZE + (BSIZE - 1))) div BSIZE"
  proof (rule div_le_mono)
    have "off mod BSIZE < BSIZE" by simp
    then show "off + r - 1 \<le> off div BSIZE * BSIZE + (k * BSIZE + (BSIZE - 1))"
      using that False div_mult_mod_eq [of off BSIZE] by linarith
  qed
  also have "\<dots> = off div BSIZE + k" by simp
  finally show ?thesis using False by (simp add: nblk_def)
qed (simp add: nblk_def)

lemma cache_room_written:
  assumes "card (logged t) + 1 \<le> NBUF" "users t = (\<lambda>_. 0)"
  shows "cache_room (logged t) (users t) 1"
  using assms by (simp add: cache_room_def)

text \<open>A file system with one empty file, in its second inode.\<close>

definition empty_file :: inode where
  "empty_file = \<lparr>i_dev = ROOTDEV, i_inum = 1, i_ref = 1, i_lock = \<lparr>sl_locked = False, sl_pid = 0\<rparr>, i_valid = True, i_type = T_FILE, i_major = 0,
     i_minor = 0, i_nlink = 1, i_size = 0, i_addrs = replicate 13 0\<rparr>"

lemma small_file:
  assumes "s = small_fs [empty_file]"
  shows "file_ok s 0" "contents s 0 = []" "card (free_blocks s) = 52"
proof -
  note t = small_fs_txn [OF assms] and o = small_fs_ok [OF assms]
  have i: "inodes s ! 0 = empty_file" using t(10) by simp
  have z: "replicate 13 (0 :: uint32) ! k = 0" if "k \<le> 12" for k using that by (intro nth_replicate) simp
  have fa: "fa s 0 k = 0" for k by (simp add: fa_def i empty_file_def Let_def z)
  have "iblock s 0 = 32" using t(9) by (simp add: i empty_file_def small_sb_def IBLOCK_def)
  moreover have "(32 :: uint32) \<notin> log_area 2 30" by (auto simp: log_area_def)
  ultimately show "file_ok s 0" using fa t(5,7-10) by (simp add: file_ok_def addrs_ok_def fblocks_def i) (auto simp: empty_file_def small_sb_def)
  show "contents s 0 = []" by (simp add: contents_def i empty_file_def)
  have "free_blocks s = {48..<100}" by (auto simp: free_blocks_def o(2) not_le word_less_nat_alt word_le_nat_alt)
  also have "card \<dots> = card {48..<100 :: nat}"
    by (rule bij_betw_same_card [of unat], rule bij_betw_byWitness [where f' = of_nat])
      (auto simp: word_less_nat_alt word_le_nat_alt unat_of_nat_32)
  finally show "card (free_blocks s) = 52" by simp
qed

subsection \<open>Properties\<close>

text \<open>
  C2: \<^verbatim>\<open>writei\<close> overwrites the file's bytes.  In a transaction with room, on a well-formed file
  system with enough free blocks, a write at an offset past the end of the file or reaching past the
  largest file size returns -1 and changes nothing; any other write returns the number of bytes given, the file's
  contents are then the old ones with the bytes at the offset replaced by the source's (and the file extended when they
  reach past its end), its inode on disk block agrees with the one in memory, and no other inode, no block of
  another file and no block on the disk has changed (the predicate \<open>written\<close>).
\<close>

theorem writei_overwrites:
  fixes s :: "'a kfs_scheme"
  assumes "fs_ok s" "file_ok s i" "src_bytes src bs s" "off < 2 ^ 32" "length bs < 2 ^ 32"
    "has_room (nblk off (length bs) + 5) s" "nblk off (length bs) + 1 \<le> card (free_blocks s)"
  shows "if off > length (contents s i) \<or> off + length bs > MAXFILE * BSIZE then writei i src (of_nat off) (of_nat (length bs)) s = Ok (-1, s)
    else \<exists>t. writei i src (of_nat off) (of_nat (length bs)) s = Ok (int (length bs), t) \<and> written i off bs s t"
proof (cases "off > length (contents s i) \<or> off + length bs > MAXFILE * BSIZE")
  case True
  have u: "unat (of_nat off :: uint32) = off" "unat (of_nat (length bs) :: uint32) = length bs" using assms(4,5) by (simp_all add: unat_of_nat_32)
  have "unat (of_nat off + of_nat (length bs) :: uint32) = (if off + length bs < 2 ^ 32 then off + length bs else off + length bs - 2 ^ 32)"
    using u assms(4,5) unat_add_lem [of "of_nat off :: uint32" "of_nat (length bs)"] by (auto simp: unat_word_ariths(1) le_mod_geq)
  then show ?thesis using True u assms(5) by (auto simp: writei_def contents_def word_less_nat_alt split: if_splits)
next
  case False
  then show ?thesis using writei_ok [OF assms(1-3) _ _ assms(6,7)] by (simp add: contents_def)
qed

theorem writei_overwrites_witness:
  "\<exists>t. writei 0 (SLocal [1, 2, 3]) 0 3 (small_fs [empty_file]) = Ok (3, t) \<and> contents t 0 = [1, 2, 3]"
proof -
  note f = small_file [OF refl] and o = small_fs_ok [OF refl, where ips = "[empty_file]"]
  have "nblk 0 (Suc (Suc (Suc 0))) = 1" by (simp add: nblk_def)
  then obtain t where "writei 0 (SLocal [1, 2, 3]) 0 3 (small_fs [empty_file]) = Ok (3, t)" "written 0 0 [1, 2, 3] (small_fs [empty_file]) t"
    using writei_overwrites [OF o(1) f(1) src_local, of "[1, 2, 3]" 0] o(3) f(2,3) by auto
  then show ?thesis using f(2) by (intro exI [of _ t]) (simp add: written_def)
qed

text \<open>
  C3: a chunk of \<^verbatim>\<open>filewrite\<close> fits its transaction.  \<^verbatim>\<open>filewrite\<close> cuts a write into pieces of at most
  \<^verbatim>\<open>((MAXOPBLOCKS-1-1-2) / 2) * BSIZE\<close> bytes; \<^verbatim>\<open>writei\<close> of such a piece, at any offset of the file (aligned or not), with
  the indirect block present or not, succeeds with room for \<open>MAXOPBLOCKS\<close> blocks, and adds at most 7 blocks to the log.
\<close>

theorem filewrite_chunk_fits:
  fixes s :: "'a kfs_scheme"
  assumes "fs_ok s" "file_ok s i" "src_bytes src bs s" "off \<le> length (contents s i)" "off + length bs \<le> MAXFILE * BSIZE"
    "int (length bs) \<le> (MAXOPBLOCKS - 1 - 1 - 2) div 2 * int BSIZE" "has_room (nat MAXOPBLOCKS) s" "5 \<le> card (free_blocks s)"
  shows "\<exists>t. writei i src (of_nat off) (of_nat (length bs)) s = Ok (int (length bs), t) \<and> card (logged t) \<le> card (logged s) + 7"
proof -
  have n: "nblk off (length bs) \<le> Suc 3" using assms(6) by (intro nblk_bound) simp
  then have "has_room (nblk off (length bs) + 5) s" using assms(7) by (auto intro: room_mono)
  then obtain t where "writei i src (of_nat off) (of_nat (length bs)) s = Ok (int (length bs), t)" "written i off bs s t"
    using writei_ok [OF assms(1-3) _ assms(5)] assms(4,8) n by (auto simp: contents_def)
  then show ?thesis using n by (intro exI [of _ t]) (auto simp: written_def)
qed

theorem filewrite_chunk_fits_witness:
  "\<exists>t. writei 0 (SLocal (replicate 3072 7)) 0 3072 (small_fs [empty_file]) = Ok (3072, t) \<and> card (logged t) \<le> 7"
proof -
  note f = small_file [OF refl] and o = small_fs_ok [OF refl, where ips = "[empty_file]"]
  show ?thesis using filewrite_chunk_fits [OF o(1) f(1) src_local, of "replicate 3072 7" 0] o(3) [of 10] f(2,3)
      small_fs_txn(3) [OF refl, of "[empty_file]"] by simp
qed

text \<open>What \<^verbatim>\<open>readi\<close> needs of a destination for \<open>n\<close> bytes, and what it leaves there.\<close>

definition dst_ready :: "uint64 list \<Rightarrow> dst \<Rightarrow> nat \<Rightarrow> 'a kfs_scheme \<Rightarrow> bool" where
  "dst_ready xs dst n s \<longleftrightarrow>
     (case dst of
        DUser va \<Rightarrow> (case cur s of Some p \<Rightarrow> p < length (procs s) \<and> user_inv xs (p_pagetable (procs s ! p)) s | None \<Rightarrow> False)
      | DKern a \<Rightarrow> True
      | DLocal v \<Rightarrow> n \<le> length v)"

definition delivered :: "dst \<Rightarrow> uint8 list \<Rightarrow> 'a kfs_scheme \<Rightarrow> int \<Rightarrow> dst \<Rightarrow> 'a kfs_scheme \<Rightarrow> bool" where
  "delivered dst bs s r d t \<longleftrightarrow>
     (case dst of
        DUser va \<Rightarrow> (case cur s of None \<Rightarrow> False | Some p \<Rightarrow> let pt = p_pagetable (procs s ! p) in
          (if None \<in> set (umem_get (mem s) pt va (length bs))
           then r = -1 \<and> (\<exists>k<length bs. umem (mem t) pt = umem_put (umem (mem s) pt) va (take k bs))
           else r = int (length bs) \<and> umem (mem t) pt = umem_put (umem (mem s) pt) va bs))
      | DKern a \<Rightarrow> d = dst \<and> r = int (length bs) \<and> mem t = mem_put (mem s) a bs
      | DLocal v \<Rightarrow> d = DLocal (put_at 0 bs v) \<and> r = int (length bs) \<and> mem t = mem s)"

lemma readi_delivers:
  fixes s :: "'a kfs_scheme"
  assumes "fs_ok s" "file_ok s i" "cache_room (logged s) (users s) 1" "off \<le> length (contents s i)" "off + n < 2 ^ 32"
    "bs = get_at off n (contents s i)" "dst_ready xs dst (length bs) s"
  shows "\<exists>r d t. readi i dst (of_nat off) (of_nat n) s = Ok (r, d, t) \<and> same_view (with_mem (mem t) (freelist t) s) t \<and> delivered dst bs s r d t"
proof -
  have l: "length bs < 2 ^ 64" using assms(4-6) by (simp add: get_at_def)
  note ok = readi_ok [OF assms(1-6)]
  show ?thesis
  proof (cases dst)
    case (DUser va)
    then obtain p where p: "cur s = Some p" "p < length (procs s)" "user_inv xs (p_pagetable (procs s ! p)) s"
      using assms(7) by (auto simp: dst_ready_def split: option.splits)
    have d0: "umem_get (mem s) (p_pagetable (procs s ! p)) va 0 = []" by (simp add: umem_get_def)
    show ?thesis using ok [OF sink_user [OF p(3,1,2) refl l, where va = va], of dst] DUser p d0 by (auto simp: delivered_def Let_def)
  next
    case (DKern a)
    then show ?thesis using ok [OF sink_kern [OF l, where a = a], of dst] by (auto simp: delivered_def mem_put_def)
  next
    case (DLocal v)
    then have "length bs \<le> length v" using assms(7) by (simp add: dst_ready_def)
    then show ?thesis using ok [OF sink_local [OF _ l], of v dst] DLocal by (auto simp: delivered_def put_at_def)
  qed
qed

text \<open>
  C4: \<^verbatim>\<open>readi\<close> delivers the file's contents to its destination.  The bytes are those of the file from the offset on, as many as
  asked for or up to its end, none when the offset is past the end or offset and count overflow 32 bits.  In user memory they replace the bytes at the address given,
  and no other; if a byte of the destination is not mapped to the user, the result is -1 and only a prefix has been
  stored.  At a kernel address or in a local variable they replace the bytes there.  Otherwise the result is their
  number; in every case the file, the file system, its log and every block stay as they are.
\<close>

theorem readi_delivers_contents:
  fixes s :: "'a kfs_scheme"
  assumes "fs_ok s" "file_ok s i" "cache_room (logged s) (users s) 1" "off < 2 ^ 32" "n < 2 ^ 32"
    "bs = (if off + n < 2 ^ 32 then get_at off n (contents s i) else [])" "dst_ready xs dst (length bs) s"
  shows "\<exists>r d t. readi i dst (of_nat off) (of_nat n) s = Ok (r, d, t) \<and> delivered dst bs s r d t \<and>
    fs_ok t \<and> file_ok t i \<and> contents t i = contents s i \<and> blk t = blk s \<and> disk t = disk s \<and> logged t = logged s"
proof (cases "off \<le> length (contents s i) \<and> off + n < 2 ^ 32")
  case True
  obtain r d t where t: "readi i dst (of_nat off) (of_nat n) s = Ok (r, d, t)" "same_view (with_mem (mem t) (freelist t) s) t" "delivered dst bs s r d t"
    using readi_delivers [OF assms(1-3), of off n bs xs dst] True assms(6,7) by auto
  note sd = same_viewD [OF t(2)] and ts = t(2) [unfolded same_view_def] and e = with_mem_sel [OF refl, where m = "mem t" and f = "freelist t" and s = s]
  have "contents t i = contents s i" "file_ok t i" "blk t = blk s" "disk t = disk s" "logged t = logged s" "fs_ok t"
    using sd ts e assms(1,2) tstep_sel [of "with_mem (mem t) (freelist t) s" t] by (auto simp: contents_def file_ok_def)
  then show ?thesis using t(1,3) by (intro exI [of _ r] exI [of _ d] exI [of _ t]) simp
next
  case False
  have u: "unat (of_nat off :: uint32) = off" "unat (of_nat n :: uint32) = n" using assms(4,5) by (simp_all add: unat_of_nat_32)
  have "unat (of_nat off + of_nat n :: uint32) = off + n - 2 ^ 32" if "\<not> off + n < 2 ^ 32"
    using u assms(4,5) that by (simp add: unat_word_ariths(1) le_mod_geq)
  then have "readi i dst (of_nat off) (of_nat n) s = Ok (0, dst, s)"
    using False u assms(5) by (auto simp: readi_def Let_def contents_def word_less_nat_alt)
  moreover have "bs = []" using False assms(6) by (auto simp: get_at_def)
  moreover have "delivered dst [] s 0 dst s"
    using assms(7) by (auto simp: delivered_def dst_ready_def umem_get_def mem_put_def put_at_def split: dst.splits option.splits)
  ultimately show ?thesis using assms(1,2) by (intro exI [of _ 0] exI [of _ dst] exI [of _ s]) simp
qed

lemma small_file_written:
  "\<exists>t. writei 0 (SLocal [1, 2, 3]) 0 3 (small_fs [empty_file]) = Ok (3, t) \<and> fs_ok t \<and> file_ok t 0 \<and> cache_room (logged t) (users t) 1 \<and> contents t 0 = [1, 2, 3]"
proof -
  note f = small_file [OF refl] and o = small_fs_ok [OF refl, where ips = "[empty_file]"] and e = small_fs_txn [OF refl, of "[empty_file]"]
  have n: "nblk 0 (Suc (Suc (Suc 0))) = 1" by (simp add: nblk_def)
  obtain t where t: "writei 0 (SLocal [1, 2, 3]) 0 3 (small_fs [empty_file]) = Ok (3, t)" "written 0 0 [1, 2, 3] (small_fs [empty_file]) t"
    using writei_ok [OF o(1) f(1) src_local, of "[1, 2, 3]" 0] o(3) f(2,3) n by (auto simp: contents_def)
  then show ?thesis using f(2) n e(3,4) by (intro exI [of _ t]) (simp add: written_def cache_room_def)
qed

theorem readi_delivers_contents_witness:
  "\<exists>(s :: kfs) root d t. contents s 0 = [1, 2, 3] \<and> readi 0 (DUser 0x1000) 1 100 s = Ok (2, d, t) \<and>
    umem (mem t) root 0x1000 = Some 2 \<and> umem (mem t) root 0x1001 = Some 3"
proof -
  obtain a :: kfs where a: "fs_ok a" "file_ok a 0" "cache_room (logged a) (users a) 1" "contents a 0 = [1, 2, 3 :: uint8]" using small_file_written by blast
  obtain k :: kmem and root xs where k: "user_inv xs root k" "upage (mem k) root 0x1000" using one_user_page by blast
  have "kio a" using a(1) by (simp add: fs_ok_def txn_ok_def)
  then obtain p where p: "cur a = Some p" "p < length (procs a)" "set (held a) \<subseteq> {Lock ''log'' 0, Lock ''itable'' 0}" by (auto simp: kio_def kenv_def)
  define s where "s = a\<lparr>mem := mem k, freelist := freelist k, kend := kend k, procs := (procs a)[p := (procs a ! p)\<lparr>p_pagetable := root\<rparr>]\<rparr>"
  have v: "fs_ok s" "file_ok s 0" "cache_room (logged s) (users s) 1" "contents s 0 = [1, 2, 3]"
    using a fs_view [of s a] by (simp_all add: s_def)
  have pt: "cur s = Some p" "p < length (procs s)" "p_pagetable (procs s ! p) = root" "mem s = mem k" using p by (simp_all add: s_def)
  have "user_inv xs root s" using k(1) p(3) by (auto simp: user_inv_def vm_inv_def kalloc_ready_def kmem_inv_def s_def)
  then have d: "dst_ready xs (DUser 0x1000) (length [2, 3 :: uint8]) s" using pt by (simp add: dst_ready_def)
  have "2 \<le> page_rest 0x1000" by (simp add: page_rest_def PGROUNDDOWN_def)
  then have m: "None \<notin> set (umem_get (mem s) root 0x1000 (length [2, 3 :: uint8]))" using k(2) pt(4) by (simp add: umem_get_chunk numeral_2_eq_2)
  have g: "[2, 3] = get_at 1 100 (contents s 0)" using v(4) by (simp add: get_at_def)
  obtain r d' t where t: "readi 0 (DUser 0x1000) 1 100 s = Ok (r, d', t)" "delivered (DUser 0x1000) [2, 3] s r d' t"
    using readi_delivers_contents [OF v(1-3), of 1 100 "[2, 3]" xs "DUser 0x1000"] d g by auto
  then have "r = 2" "umem (mem t) root = umem_put (umem (mem s) root) 0x1000 [2, 3]"
    using m pt unfolding delivered_def by (simp_all add: Let_def)
  then show ?thesis using t(1) v(4) by (intro exI [of _ s] exI [of _ root] exI [of _ d'] exI [of _ t]) (simp add: umem_put_def)
qed

end
