(* ===== verification/Spec2Isabelle.thy ===== *)
theory Spec2Isabelle
  imports Kprelude Riscv Kstring Spinlock Procdef Sched Wakeup Physmem Kalloc Vm Pagetable Usercopy
    Sleeplock Bio Blocks Log Journal Procmem Fs Console Pipe File Proc Exec Syscall Sysfile Sysproc Virtio Trap Boot Asm
    Freewalk Ring Pipequeue Lineedit Txn Bitmap Dinode Filedata
begin

text \<open>
  A verification library for the xv6 operating system of this repository, with the \<^verbatim>\<open>trace\<close> and
  \<^verbatim>\<open>sysinfo\<close> system calls it adds.

  \<^bold>\<open>The program.\<close>  A hart starts in \<^verbatim>\<open>entry.S\<close>, sets up supervisor mode in \<^verbatim>\<open>start.c\<close> and
  initialises the kernel in \<^verbatim>\<open>main.c\<close>.  Processes (\<^verbatim>\<open>proc.c\<close>) run in user space until a trap
  (\<^verbatim>\<open>trampoline.S\<close>, \<^verbatim>\<open>kernelvec.S\<close>, \<^verbatim>\<open>trap.c\<close>) enters the kernel; \<^verbatim>\<open>syscall.c\<close> dispatches to
  \<^verbatim>\<open>sysproc.c\<close> and \<^verbatim>\<open>sysfile.c\<close>.  Memory is pages handed out by \<^verbatim>\<open>kalloc.c\<close> and mapped by
  \<^verbatim>\<open>vm.c\<close>; files are inodes (\<^verbatim>\<open>fs.c\<close>) on a redo log (\<^verbatim>\<open>log.c\<close>) on a buffer cache (\<^verbatim>\<open>bio.c\<close>)
  on a virtio disk (\<^verbatim>\<open>virtio_disk.c\<close>), pipes (\<^verbatim>\<open>pipe.c\<close>) and the console (\<^verbatim>\<open>console.c\<close>,
  \<^verbatim>\<open>uart.c\<close>, \<^verbatim>\<open>printf.c\<close>), reached through the table of open files (\<^verbatim>\<open>file.c\<close>).  Spin locks
  (\<^verbatim>\<open>spinlock.c\<close>) and sleep locks (\<^verbatim>\<open>sleeplock.c\<close>) protect all of it.

  \<^bold>\<open>Conventions.\<close>  A kernel function is a HOL function on an explicit state and returns a
  \<open>res\<close>: \<open>Ok\<close> with the result, \<open>Panic\<close> with the message of \<^verbatim>\<open>panic\<close>, \<open>Block\<close> for a sleep at a
  point where nothing has been done yet, \<open>Loop\<close> for a loop that does not end and \<open>Undef\<close> for
  an access the C standard leaves undefined.  The state is a chain of extensible records, one
  extension per component: \<open>core\<close> (locks held), \<open>kproc\<close> (processes), \<open>kmem\<close> (physical memory
  and the free list), \<open>kbio\<close> (buffers and disk), \<open>klog\<close>, \<open>kfs\<close> (inodes), \<open>kcons\<close>, \<open>kpipe\<close>,
  \<open>kfile\<close>, \<open>kvirt\<close> and \<open>ktrap\<close>; an operation is polymorphic in the extensions above its own, so
  that its frame is part of its type.  A routine that sleeps half-way returns \<open>Sleep\<close> with its
  progress, and a definition with suffix \<open>_resume\<close> is what it does when it runs again; a
  function that calls \<^verbatim>\<open>swtch\<close> is cut there (\<open>_out\<close>, \<open>_in\<close>).  Integers keep their width where
  the code depends on it: addresses, page-table entries, ring counters and disk fields are
  words; a counter that stays far below its bound is a natural number.  Physical memory is a
  function from addresses to bytes, and page tables, trap frames and free-list links are read
  from and written to those bytes.

  \<^bold>\<open>Theories.\<close>
  \<^item> \<open>Kprelude\<close>, \<open>Riscv\<close>, \<open>Physmem\<close>: result type, byte fields, \<^verbatim>\<open>types.h\<close>, \<^verbatim>\<open>riscv.h\<close> and
    \<^verbatim>\<open>memlayout.h\<close>; reading and storing ranges and words of memory.
  \<^item> \<open>Kstring\<close>: \<^verbatim>\<open>string.c\<close>.
  \<^item> \<open>Spinlock\<close>: \<^verbatim>\<open>spinlock.c\<close>, as a machine of CPUs that interleave at every access to shared
    memory (\<open>smp_step\<close>) and as the list of locks a thread holds; mutual exclusion, no panic in
    a matched release, the nesting of \<^verbatim>\<open>push_off\<close>, and that the second view abstracts the first.
  \<^item> \<open>Procdef\<close>, \<open>Sched\<close>, \<open>Wakeup\<close>: \<^verbatim>\<open>proc.h\<close> and the scheduling half of \<^verbatim>\<open>proc.c\<close>; a process
    is current on one CPU, and no wakeup is lost.
  \<^item> \<open>Kalloc\<close>, \<open>Vm\<close>, \<open>Pagetable\<close>, \<open>Usercopy\<close>: \<^verbatim>\<open>kalloc.c\<close> and \<^verbatim>\<open>vm.c\<close>; the free list as a list
    of pages, a page table as a finite map, user memory as a map from addresses to bytes.
  \<^item> \<open>Sleeplock\<close>, \<open>Bio\<close>, \<open>Blocks\<close>: \<^verbatim>\<open>sleeplock.c\<close> and \<^verbatim>\<open>bio.c\<close>; every buffer caches one block,
    the list is in order of last use, and the contract \<open>block_store\<close> the log relies on.
  \<^item> \<open>Log\<close>, \<open>Journal\<close>: \<^verbatim>\<open>log.c\<close>; the history of disk writes of a commit and its recovery after a
    crash at any of them.
  \<^item> \<open>Fs\<close>: \<^verbatim>\<open>fs.c\<close>, blocks, inodes, directories and path names.
  \<^item> \<open>Txn\<close>, \<open>Bitmap\<close>, \<open>Dinode\<close>, \<open>Filedata\<close>: what an operation sees between \<^verbatim>\<open>begin_op\<close> and \<^verbatim>\<open>end_op\<close> (the
    contract \<open>txn_store\<close>), the bitmap as a set of blocks in use, the inode on its disk block, and a file as a list of
    bytes that \<^verbatim>\<open>readi\<close> reads and \<^verbatim>\<open>writei\<close> overwrites.
  \<^item> \<open>Ring\<close>, \<open>Pipe\<close>, \<open>Pipequeue\<close>, \<open>Console\<close>, \<open>Lineedit\<close>: the ring-buffer contract, \<^verbatim>\<open>pipe.c\<close>
    as a queue, \<^verbatim>\<open>console.c\<close>, \<^verbatim>\<open>uart.c\<close> and \<^verbatim>\<open>printf.c\<close> with the console as a line editor.
  \<^item> \<open>File\<close>, \<open>Procmem\<close>, \<open>Proc\<close>, \<open>Exec\<close>, \<open>Syscall\<close>, \<open>Sysfile\<close>, \<open>Sysproc\<close>: open files, the life
    of processes, \<^verbatim>\<open>exec.c\<close> and the system calls with the tracing dispatcher.
  \<^item> \<open>Virtio\<close>, \<open>Trap\<close>, \<open>Boot\<close>, \<open>Asm\<close>: \<^verbatim>\<open>virtio_disk.c\<close>, \<^verbatim>\<open>trap.c\<close> with \<^verbatim>\<open>plic.c\<close>, start-up, and the
    assembly files as loads and stores on the registers and memory of a hart.

  \<^bold>\<open>Interfaces.\<close>  \<open>block_store\<close> (buffer cache, used by the log), \<open>txn_store\<close> (blocks read and
  logged inside a transaction, used by the file system), \<open>ring\<close> (ring buffers, used by
  pipes and the console), \<open>page_allocator\<close> and \<open>lock_protocol\<close> (pages and spin locks, used
  everywhere), \<open>save_area\<close> (register save areas of the assembly code) are
  locales; each is interpreted on the definitions of the code.

  \<^bold>\<open>Termination and bounds.\<close>  Loops over tables and buffers are structural recursion or \<open>fun\<close>
  with a measure.  \<^verbatim>\<open>walk\<close> and the loops over virtual addresses end at \<^verbatim>\<open>MAXVA\<close>, where the code
  panics.  \<^verbatim>\<open>freemem\<close> is a partial function, shown to return on a well-formed free list; the
  scan of the buffer list has the number of its nodes as fuel and runs out of it (\<open>Loop\<close>) only
  when the links form a cycle that never comes back to the head; the fuel of \<^verbatim>\<open>free_chain\<close>, the
  number of descriptors, is enough because freeing a descriptor twice panics.  Waiting for a lock
  that is never released, or for a device, is a suspension and not a loop.

  \<^bold>\<open>Not modelled.\<close>  The device side of the virtio disk, the UART, the PLIC and the CLINT is a
  parameter or part of the state, because it is hardware.  Instruction encodings, the
  \<^verbatim>\<open>asm volatile\<close> bodies of \<^verbatim>\<open>riscv.h\<close> beyond the registers they name, memory ordering below
  sequential consistency, and caches are the machine's.  \<^verbatim>\<open>ramdisk.c\<close> is not linked into the
  kernel.  \<^verbatim>\<open>kernel.ld\<close> and the addresses it fixes are parameters.
\<close>

end
